(* ===== verification/Prelude.thy ===== *)
theory Prelude
  imports Main "HOL-Library.Word" "HOL-Library.Monad_Syntax" "HOL-Library.Multiset"
begin

text \<open>
  Shared vocabulary of the development: the machine-integer types, the checked reads and
  writes of C arrays, the linear scan and the shift loops that the bucketed hash tables use,
  and the generic facts about them.

  A memory access outside an array is undefined behaviour of the C and C++ sources. The
  model makes it a value: an operation has the type \<open>_ option\<close> and \<open>None\<close> is the
  faulting run. That an operation never faults is then a theorem, not an assumption.
\<close>

unbundle bit_operations_syntax

section \<open>Machine integers and stored pairs\<close>

type_synonym u8 = "8 word"
type_synonym u16 = "16 word"
type_synonym u32 = "32 word"
type_synonym u64 = "64 word"

text \<open>
  \<^verbatim>\<open>Key_t\<close> is \<^verbatim>\<open>size_t\<close> and \<^verbatim>\<open>Value_t\<close> is \<^verbatim>\<open>const char*\<close>; both are 64 bits wide. A
  value is the address of a page (or of an extent), \<^verbatim>\<open>NONE\<close> is the null pointer.
\<close>

type_synonym Key_t = u64
type_synonym Value_t = u64

definition SENTINEL :: Key_t where
  "SENTINEL = - 2"

definition INVALID :: Key_t where
  "INVALID = - 1"

definition NONE :: Value_t where
  "NONE = 0"

text \<open>
  \<^verbatim>\<open>struct Pair\<close>. The default constructor initialises the key only; the value of a fresh
  pair is whatever the allocator left there. No operation reads the value of a pair whose
  key it has not matched, so the model gives it the null pointer.
\<close>

record Pair =
  pkey :: Key_t
  pvalue :: Value_t

definition fresh_pair :: Pair where
  "fresh_pair = \<lparr>pkey = INVALID, pvalue = NONE\<rparr>"

lemma Pair_eta [simp]: "\<lparr>pkey = pkey p, pvalue = pvalue p\<rparr> = p"
  by simp

lemma unat_bound: "unat (x :: 'a::len word) < 2 ^ LENGTH('a)"
  by (rule unsigned_less)

lemma unat_of_nat_small: "n < 2 ^ LENGTH('a) \<Longrightarrow> unat (of_nat n :: 'a::len word) = n"
  by (simp add: unat_of_nat take_bit_nat_eq_self)

lemma unat_ucast_u64_u32: "unat (w :: u64) < 2 ^ 32 \<Longrightarrow> unat (ucast w :: u32) = unat w"
  by (simp add: unsigned_ucast_eq take_bit_nat_eq_self)

lemma unat_pow2: "m < LENGTH('a) \<Longrightarrow> unat (2 ^ m :: 'a::len word) = 2 ^ m"
  using unat_of_nat_small [of "2 ^ m", where 'a = 'a] by simp

text \<open>The pairs of a table that hold an entry, and their keys with multiplicity.\<close>

definition live :: "Pair \<Rightarrow> bool" where
  "live p \<longleftrightarrow> pkey p \<noteq> INVALID"

definition keys_of :: "Pair list \<Rightarrow> Key_t multiset" where
  "keys_of ps = mset (map pkey (filter live ps))"

lemma keys_of_Nil [simp]: "keys_of [] = {#}"
  by (simp add: keys_of_def)

lemma keys_of_Cons [simp]:
  "keys_of (p # ps) = (if live p then {#pkey p#} else {#}) + keys_of ps"
  by (simp add: keys_of_def)

lemma keys_of_append [simp]: "keys_of (ps @ qs) = keys_of ps + keys_of qs"
  by (simp add: keys_of_def)

lemma keys_of_replicate_fresh [simp]: "keys_of (replicate n fresh_pair) = {#}"
  by (induction n) (simp_all add: fresh_pair_def live_def)

lemma in_keys_of: "k \<in># keys_of ps \<longleftrightarrow> k \<noteq> INVALID \<and> (\<exists>i<length ps. pkey (ps ! i) = k)"
  by (auto simp: keys_of_def live_def in_set_conv_nth image_iff)

section \<open>Checked array access\<close>

definition rd :: "'a list \<Rightarrow> nat \<Rightarrow> 'a option" where
  "rd xs i = (if i < length xs then Some (xs ! i) else None)"

definition wr :: "'a list \<Rightarrow> nat \<Rightarrow> 'a \<Rightarrow> 'a list option" where
  "wr xs i v = (if i < length xs then Some (xs[i := v]) else None)"

named_theorems array_simps \<open>checked accesses resolved by their bounds\<close>

lemma rd_ok [array_simps]: "i < length xs \<Longrightarrow> rd xs i = Some (xs ! i)"
  by (simp add: rd_def)

lemma wr_ok [array_simps]: "i < length xs \<Longrightarrow> wr xs i v = Some (xs[i := v])"
  by (simp add: wr_def)

lemma rd_fault: "rd xs i = None \<longleftrightarrow> length xs \<le> i"
  by (auto simp: rd_def)

lemma wr_fault: "wr xs i v = None \<longleftrightarrow> length xs \<le> i"
  by (auto simp: wr_def)

lemma wr_length: "wr xs i v = Some ys \<Longrightarrow> length ys = length xs"
  by (auto simp: wr_def split: if_splits)

lemma rd_SomeD: "rd xs i = Some x \<Longrightarrow> i < length xs \<and> x = xs ! i"
  by (auto simp: rd_def split: if_splits)

lemma wr_SomeD: "wr xs i v = Some ys \<Longrightarrow> i < length xs \<and> ys = xs[i := v]"
  by (auto simp: wr_def split: if_splits)

section \<open>The loops of the bucketed tables\<close>

text \<open>
  \<open>scan P xs i n\<close> is the loop
  \<^verbatim>\<open>for (j = i; j < i + n; j++) if (P(xs[j])) return j;\<close>
  The outer option is the fault of an access outside \<open>xs\<close>, the inner one says whether a
  slot was found.
\<close>

fun scan :: "('a \<Rightarrow> bool) \<Rightarrow> 'a list \<Rightarrow> nat \<Rightarrow> nat \<Rightarrow> nat option option" where
  "scan P xs i 0 = Some None"
| "scan P xs i (Suc n) =
     do { x \<leftarrow> rd xs i; if P x then Some (Some i) else scan P xs (Suc i) n }"

lemma scan_ok: "i + n \<le> length xs \<Longrightarrow> scan P xs i n \<noteq> None"
  by (induction n arbitrary: i) (auto simp: rd_ok)

lemma scan_Some_iff:
  assumes "i + n \<le> length xs"
  shows "scan P xs i n = Some (Some j) \<longleftrightarrow>
           i \<le> j \<and> j < i + n \<and> P (xs ! j) \<and> (\<forall>m. i \<le> m \<and> m < j \<longrightarrow> \<not> P (xs ! m))"
  using assms
proof (induction n arbitrary: i)
  case 0
  then show ?case by simp
next
  case (Suc n)
  then have i: "i < length xs" by simp
  show ?case
  proof (cases "P (xs ! i)")
    case True
    with i show ?thesis
      by (auto simp: rd_ok)
  next
    case False
    then have "(\<forall>m. Suc i \<le> m \<and> m < j \<longrightarrow> \<not> P (xs ! m)) \<longleftrightarrow>
               (\<forall>m. i \<le> m \<and> m < j \<longrightarrow> \<not> P (xs ! m))"
      by (metis Suc_leD le_eq_less_or_eq Suc_leI)
    moreover have "i \<le> j \<and> P (xs ! j) \<longleftrightarrow> Suc i \<le> j \<and> P (xs ! j)"
      using False by (metis Suc_leD le_eq_less_or_eq Suc_leI)
    ultimately show ?thesis
      using False i Suc.IH [of "Suc i"] Suc.prems by (auto simp: rd_ok)
  qed
qed

lemma scan_None_iff:
  assumes "i + n \<le> length xs"
  shows "scan P xs i n = Some None \<longleftrightarrow> (\<forall>j. i \<le> j \<and> j < i + n \<longrightarrow> \<not> P (xs ! j))"
  using assms
proof (induction n arbitrary: i)
  case 0
  then show ?case by auto
next
  case (Suc n)
  have "(\<forall>j. i \<le> j \<and> j < i + Suc n \<longrightarrow> \<not> P (xs ! j)) \<longleftrightarrow>
        \<not> P (xs ! i) \<and> (\<forall>j. Suc i \<le> j \<and> j < Suc i + n \<longrightarrow> \<not> P (xs ! j))"
    by (metis add_Suc_right add_Suc less_add_Suc1 le_eq_less_or_eq Suc_leI Suc_leD order_refl)
  with Suc.IH [of "Suc i"] Suc.prems show ?case
    by (auto simp: rd_ok)
qed

lemma scan_cases:
  assumes "i + n \<le> length xs"
  obtains (found) j where "scan P xs i n = Some (Some j)" "i \<le> j" "j < i + n" "P (xs ! j)"
      "\<And>m. i \<le> m \<Longrightarrow> m < j \<Longrightarrow> \<not> P (xs ! m)"
  | (none) "scan P xs i n = Some None" "\<And>j. i \<le> j \<Longrightarrow> j < i + n \<Longrightarrow> \<not> P (xs ! j)"
proof (cases "scan P xs i n")
  case None
  with scan_ok [OF assms] show ?thesis by blast
next
  case (Some r)
  show ?thesis
  proof (cases r)
    case None
    with Some scan_None_iff [OF assms, of P] none show ?thesis by blast
  next
    case (Some j)
    with \<open>scan P xs i n = Some r\<close> scan_Some_iff [OF assms, of P j] found show ?thesis by blast
  qed
qed

lemma scan_cong:
  assumes "\<And>j. i \<le> j \<Longrightarrow> j < i + n \<Longrightarrow> rd xs j = rd ys j"
  shows "scan P xs i n = scan P ys i n"
  using assms
proof (induction n arbitrary: i)
  case 0
  then show ?case by simp
next
  case (Suc n)
  then have "rd xs i = rd ys i" and "scan P xs (Suc i) n = scan P ys (Suc i) n"
    by auto
  then show ?case by (cases "rd ys i") auto
qed

lemma scan_update_other:
  assumes "\<not> P p" "slot < length xs" "\<not> P (xs ! slot)"
  shows "scan P (xs[slot := p]) i n = scan P xs i n"
proof (induction n arbitrary: i)
  case (Suc n)
  then show ?case
    using assms by (cases "i = slot") (simp_all add: rd_def)
qed simp

text \<open>
  \<open>shift_left xs i n\<close> is the loop
  \<^verbatim>\<open>for (j = 0; j < n; j++) xs[i + j] = xs[i + j + 1];\<close>
\<close>

fun shift_left :: "'a list \<Rightarrow> nat \<Rightarrow> nat \<Rightarrow> 'a list option" where
  "shift_left xs i 0 = Some xs"
| "shift_left xs i (Suc n) =
     do { x \<leftarrow> rd xs (Suc i); ys \<leftarrow> wr xs i x; shift_left ys (Suc i) n }"

lemma shift_left_eq:
  assumes "i + n < length xs"
  shows "\<exists>ys. shift_left xs i n = Some ys \<and> length ys = length xs \<and>
     (\<forall>m<length xs. ys ! m = (if i \<le> m \<and> m < i + n then xs ! Suc m else xs ! m))"
  using assms
proof (induction n arbitrary: i xs)
  case 0
  then show ?case by auto
next
  case (Suc n)
  let ?xs = "xs[i := xs ! Suc i]"
  from Suc.IH [of "Suc i" ?xs] Suc.prems obtain ys where
    ys: "shift_left ?xs (Suc i) n = Some ys" "length ys = length xs"
    and nth: "\<forall>m<length xs. ys ! m =
      (if Suc i \<le> m \<and> m < Suc i + n then ?xs ! Suc m else ?xs ! m)"
    by auto
  have "\<forall>m<length xs. ys ! m = (if i \<le> m \<and> m < i + Suc n then xs ! Suc m else xs ! m)"
  proof (intro allI impI)
    fix m assume "m < length xs"
    with nth show "ys ! m = (if i \<le> m \<and> m < i + Suc n then xs ! Suc m else xs ! m)"
      by (cases "m = i") (auto simp: nth_list_update)
  qed
  with ys Suc.prems show ?case by (auto simp: rd_ok wr_ok)
qed

text \<open>
  \<open>shift_right xs b i\<close> is the loop
  \<^verbatim>\<open>for (j = i; j > 0; j--) xs[b + j] = xs[b + j - 1];\<close>
\<close>

fun shift_right :: "'a list \<Rightarrow> nat \<Rightarrow> nat \<Rightarrow> 'a list option" where
  "shift_right xs b 0 = Some xs"
| "shift_right xs b (Suc n) =
     do { x \<leftarrow> rd xs (b + n); ys \<leftarrow> wr xs (b + Suc n) x; shift_right ys b n }"

lemma shift_right_eq:
  assumes "b + n < length xs"
  shows "\<exists>ys. shift_right xs b n = Some ys \<and> length ys = length xs \<and>
     (\<forall>m<length xs. ys ! m = (if b < m \<and> m \<le> b + n then xs ! (m - 1) else xs ! m))"
  using assms
proof (induction n arbitrary: xs)
  case 0
  then show ?case by auto
next
  case (Suc n)
  let ?xs = "xs[b + Suc n := xs ! (b + n)]"
  from Suc.IH [of ?xs] Suc.prems obtain ys where
    ys: "shift_right ?xs b n = Some ys" "length ys = length xs"
    and nth: "\<forall>m<length xs. ys ! m =
      (if b < m \<and> m \<le> b + n then ?xs ! (m - 1) else ?xs ! m)"
    by auto
  have "\<forall>m<length xs. ys ! m = (if b < m \<and> m \<le> b + Suc n then xs ! (m - 1) else xs ! m)"
  proof (intro allI impI)
    fix m assume "m < length xs"
    with nth show "ys ! m = (if b < m \<and> m \<le> b + Suc n then xs ! (m - 1) else xs ! m)"
      by (cases "m = b + Suc n") (auto simp: nth_list_update)
  qed
  with ys Suc.prems show ?case by (auto simp: rd_ok wr_ok)
qed

section \<open>Multisets of arrays\<close>

text \<open>
  The tables move pairs around with single writes. Each write exchanges one element of the
  multiset of the array for another; the lemmas below add these up over the shift loops.
\<close>

lemma mset_exchange:
  "i < length xs \<Longrightarrow> add_mset (xs ! i) (mset (xs[i := p])) = add_mset p (mset xs)"
  by (simp add: mset_update)

lemma exchange_trans:
  assumes "add_mset s Y = add_mset t Z" "add_mset i Z = add_mset s X"
  shows "add_mset i Y = add_mset t X"
proof -
  have "add_mset s (add_mset i Y) = add_mset i (add_mset t Z)"
    using assms(1) by (simp add: add_mset_commute [of s i])
  also have "\<dots> = add_mset s (add_mset t X)"
    using assms(2) by (simp add: add_mset_commute [of i t] add_mset_commute [of s t])
  finally show ?thesis by simp
qed

lemma shift_left_mset:
  assumes "i + n < length xs" "shift_left xs i n = Some ys"
  shows "add_mset (xs ! i) (mset ys) = add_mset (xs ! (i + n)) (mset xs)"
  using assms
proof (induction n arbitrary: i xs)
  case (Suc n)
  let ?xs = "xs[i := xs ! Suc i]"
  have "shift_left ?xs (Suc i) n = Some ys"
    using Suc.prems by (simp add: rd_ok wr_ok)
  then have "add_mset (?xs ! Suc i) (mset ys) = add_mset (?xs ! (Suc i + n)) (mset ?xs)"
    using Suc.prems(1) by (intro Suc.IH) simp_all
  then have "add_mset (xs ! Suc i) (mset ys) = add_mset (xs ! (i + Suc n)) (mset ?xs)"
    by simp
  moreover have "add_mset (xs ! i) (mset ?xs) = add_mset (xs ! Suc i) (mset xs)"
    using Suc.prems(1) by (intro mset_exchange) simp
  ultimately show ?case
    by (rule exchange_trans)
qed simp

lemma shift_right_mset:
  assumes "b + n < length xs" "shift_right xs b n = Some ys"
  shows "add_mset (xs ! (b + n)) (mset ys) = add_mset (xs ! b) (mset xs)"
  using assms
proof (induction n arbitrary: xs)
  case (Suc n)
  let ?xs = "xs[b + Suc n := xs ! (b + n)]"
  have "shift_right ?xs b n = Some ys"
    using Suc.prems by (simp add: rd_ok wr_ok)
  then have "add_mset (?xs ! (b + n)) (mset ys) = add_mset (?xs ! b) (mset ?xs)"
    using Suc.prems(1) by (intro Suc.IH) simp_all
  then have "add_mset (xs ! (b + n)) (mset ys) = add_mset (xs ! b) (mset ?xs)"
    by simp
  moreover have "add_mset (xs ! (b + Suc n)) (mset ?xs) = add_mset (xs ! (b + n)) (mset xs)"
    using Suc.prems(1) by (intro mset_exchange) simp
  ultimately show ?case
    by (rule exchange_trans)
qed simp

text \<open>
  Evicting the first slot of a window and writing a new element into the last one; and
  pushing an element in front of a window whose last slot is given up.
\<close>

lemma evict_first:
  assumes "i + n < length xs"
  shows "\<exists>ys. shift_left xs i n = Some ys \<and> length ys = length xs \<and>
     wr ys (i + n) p = Some (ys[i + n := p]) \<and>
     add_mset (xs ! i) (mset (ys[i + n := p])) = add_mset p (mset xs) \<and>
     (\<forall>m<length xs. ys[i + n := p] ! m =
        (if m = i + n then p else if i \<le> m \<and> m < i + n then xs ! Suc m else xs ! m))"
proof -
  obtain ys where ys: "shift_left xs i n = Some ys" "length ys = length xs"
    and nth: "\<forall>m<length xs. ys ! m = (if i \<le> m \<and> m < i + n then xs ! Suc m else xs ! m)"
    using shift_left_eq [OF assms] by blast
  have "add_mset (ys ! (i + n)) (mset (ys[i + n := p])) = add_mset p (mset ys)"
    using assms ys by (intro mset_exchange) simp
  moreover have "ys ! (i + n) = xs ! (i + n)"
    using nth assms by simp
  ultimately have "add_mset (xs ! (i + n)) (mset (ys[i + n := p])) = add_mset p (mset ys)"
    by (simp only:)
  from exchange_trans [OF this shift_left_mset [OF assms ys(1)]]
  have "add_mset (xs ! i) (mset (ys[i + n := p])) = add_mset p (mset xs)" .
  with ys nth assms show ?thesis
    by (auto simp: wr_ok nth_list_update)
qed

lemma push_front:
  assumes "b + n < length xs"
  shows "\<exists>ys. shift_right xs b n = Some ys \<and> length ys = length xs \<and>
     wr ys b p = Some (ys[b := p]) \<and>
     add_mset (xs ! (b + n)) (mset (ys[b := p])) = add_mset p (mset xs)"
proof -
  obtain ys where ys: "shift_right xs b n = Some ys" "length ys = length xs"
    and nth: "\<forall>m<length xs. ys ! m = (if b < m \<and> m \<le> b + n then xs ! (m - 1) else xs ! m)"
    using shift_right_eq [OF assms] by blast
  have "add_mset (ys ! b) (mset (ys[b := p])) = add_mset p (mset ys)"
    using assms ys by (intro mset_exchange) simp
  moreover have "ys ! b = xs ! b"
    using nth assms by simp
  ultimately have "add_mset (xs ! b) (mset (ys[b := p])) = add_mset p (mset ys)"
    by (simp only:)
  from exchange_trans [OF this shift_right_mset [OF assms ys(1)]]
  have "add_mset (xs ! (b + n)) (mset (ys[b := p])) = add_mset p (mset xs)" .
  with ys assms show ?thesis
    by (auto simp: wr_ok)
qed

text \<open>The keys of an exchange.\<close>

definition key_live :: "Pair \<Rightarrow> Key_t multiset" where
  "key_live p = (if live p then {#pkey p#} else {#})"

lemma keys_of_mset: "keys_of ps = image_mset pkey (filter_mset live (mset ps))"
  by (simp add: keys_of_def mset_filter)

lemma keys_of_exchange:
  assumes "add_mset q (mset ys) = add_mset p (mset xs)"
  shows "keys_of ys + key_live q = keys_of xs + key_live p"
proof -
  have "image_mset pkey (filter_mset live (add_mset q (mset ys))) =
        image_mset pkey (filter_mset live (add_mset p (mset xs)))"
    using assms by simp
  then show ?thesis
    by (simp add: keys_of_mset key_live_def split: if_splits)
qed

lemma key_live_simps [simp]:
  "pkey p = INVALID \<Longrightarrow> key_live p = {#}"
  "pkey p \<noteq> INVALID \<Longrightarrow> key_live p = {#pkey p#}"
  by (simp_all add: key_live_def live_def)

definition live_pairs :: "Pair list \<Rightarrow> Pair multiset" where
  "live_pairs d = filter_mset live (mset d)"

lemma keys_of_live_pairs: "keys_of d = image_mset pkey (live_pairs d)"
  by (simp add: keys_of_mset live_pairs_def)

lemma live_pairs_place:
  assumes "loc < length d" "pkey (d ! loc) = INVALID" "pkey p \<noteq> INVALID"
  shows "live_pairs (d[loc := p]) = add_mset p (live_pairs d)"
proof -
  have "filter_mset live (add_mset (d ! loc) (mset (d[loc := p]))) =
        filter_mset live (add_mset p (mset d))"
    using mset_exchange [OF assms(1), of p] by simp
  with assms show ?thesis by (simp add: live_pairs_def live_def)
qed

lemma live_pairs_blank:
  assumes "loc < length d" "pkey (d ! loc) = INVALID" "pkey p = INVALID"
  shows "live_pairs (d[loc := p]) = live_pairs d"
proof -
  have "filter_mset live (add_mset (d ! loc) (mset (d[loc := p]))) =
        filter_mset live (add_mset p (mset d))"
    using mset_exchange [OF assms(1), of p] by simp
  with assms show ?thesis by (simp add: live_pairs_def live_def)
qed

text \<open>The whole part of \<^verbatim>\<open>log2\<close>.\<close>

fun ilog2 :: "nat \<Rightarrow> nat" where
  "ilog2 n = (if n < 2 then 0 else Suc (ilog2 (n div 2)))"

declare ilog2.simps [simp del]

lemma wr_set: "wr xs i x = Some ys \<Longrightarrow> set ys \<subseteq> insert x (set xs)"
  by (auto simp: wr_def dest: set_update_subset_insert [THEN subsetD] split: if_splits)

lemma shift_left_set: "shift_left xs i n = Some ys \<Longrightarrow> set ys \<subseteq> set xs"
proof (induction n arbitrary: xs i)
  case (Suc n)
  then obtain x zs where s: "rd xs (Suc i) = Some x" "wr xs i x = Some zs" "shift_left zs (Suc i) n = Some ys"
    by (auto split: bind_splits)
  have "x \<in> set xs" using s(1) by (auto simp: rd_def split: if_splits)
  with Suc.IH [OF s(3)] wr_set [OF s(2)] show ?case by auto
qed simp

lemma scan_holds: "scan P xs i n = Some (Some j) \<Longrightarrow> rd xs j = Some x \<Longrightarrow> P x"
  by (induction n arbitrary: i) (auto split: bind_splits if_splits)

lemma rd_set: "rd xs i = Some x \<Longrightarrow> x \<in> set xs"
  by (auto simp: rd_def split: if_splits)

end
