(* ===== verification/Wire_Protocol.thy ===== *)
theory Wire_Protocol
  imports Prelude
begin

text \<open>
  The messages that the client kernel module and the server exchange, and the layout of the
  memory both sides address:
  \<^item> the immediate word of a request or a reply (\<^verbatim>\<open>bit_mask\<close> and \<^verbatim>\<open>bit_unmask\<close>, the same
    text in \<^verbatim>\<open>client/rdpma.c\<close> and \<^verbatim>\<open>server/rdma_svr.cpp\<close>), sent in network byte order;
  \<^item> the 64-bit key of a page (\<^verbatim>\<open>get_longkey\<close> of \<^verbatim>\<open>client/julee.c\<close>, \<^verbatim>\<open>longkeyToKey\<close> of
    the server);
  \<^item> the metadata entries of a client, indexed by queue and message number (the macros of
    \<^verbatim>\<open>server/rdma_svr.h\<close> and \<^verbatim>\<open>client/rdpma.h\<close>).
\<close>

section \<open>Message types and transaction states\<close>

datatype msg_type =
    MSG_WRITE_REQUEST | MSG_WRITE_REQUEST_REPLY | MSG_WRITE | MSG_WRITE_REPLY
  | MSG_READ_REQUEST | MSG_READ_REQUEST_REPLY | MSG_READ | MSG_READ_REPLY

datatype tx_state =
    TX_WRITE_BEGIN | TX_WRITE_READY | TX_WRITE_COMMITTED | TX_WRITE_ABORTED
  | TX_READ_BEGIN | TX_READ_READY | TX_READ_COMMITTED | TX_READ_ABORTED

text \<open>The enumerators are the integers 0 to 7.\<close>

fun msg_code :: "msg_type \<Rightarrow> u32" where
  "msg_code MSG_WRITE_REQUEST = 0"
| "msg_code MSG_WRITE_REQUEST_REPLY = 1"
| "msg_code MSG_WRITE = 2"
| "msg_code MSG_WRITE_REPLY = 3"
| "msg_code MSG_READ_REQUEST = 4"
| "msg_code MSG_READ_REQUEST_REPLY = 5"
| "msg_code MSG_READ = 6"
| "msg_code MSG_READ_REPLY = 7"

fun tx_code :: "tx_state \<Rightarrow> u32" where
  "tx_code TX_WRITE_BEGIN = 0"
| "tx_code TX_WRITE_READY = 1"
| "tx_code TX_WRITE_COMMITTED = 2"
| "tx_code TX_WRITE_ABORTED = 3"
| "tx_code TX_READ_BEGIN = 4"
| "tx_code TX_READ_READY = 5"
| "tx_code TX_READ_COMMITTED = 6"
| "tx_code TX_READ_ABORTED = 7"

lemma msg_code_inj [simp]: "msg_code a = msg_code b \<longleftrightarrow> a = b"
  by (cases a; cases b) simp_all

lemma tx_code_inj [simp]: "tx_code a = tx_code b \<longleftrightarrow> a = b"
  by (cases a; cases b) simp_all

lemma msg_code_bound [simp]: "msg_code t < 16"
  by (cases t) simp_all

lemma tx_code_bound [simp]: "tx_code t < 16"
  by (cases t) simp_all

section \<open>The immediate word\<close>

text \<open>
  The parameters are C \<^verbatim>\<open>int\<close>s cast to \<^verbatim>\<open>uint32_t\<close>. Only \<open>qid\<close> is masked: a field that is
  too wide runs into its neighbour.
\<close>

definition bit_mask :: "u32 \<Rightarrow> u32 \<Rightarrow> u32 \<Rightarrow> u32 \<Rightarrow> u32 \<Rightarrow> u32" where
  "bit_mask num msg_num typ state qid =
     push_bit 28 num OR push_bit 16 msg_num OR push_bit 12 typ OR push_bit 8 state
       OR (qid AND 0xff)"

definition bit_unmask :: "u32 \<Rightarrow> u32 \<times> u32 \<times> u32 \<times> u32 \<times> u32" where
  "bit_unmask target =
     (drop_bit 28 target AND 0xf, drop_bit 16 target AND 0xfff, drop_bit 12 target AND 0xf,
      drop_bit 8 target AND 0xf, target AND 0xff)"

lemma field_masks:
  "(0xf :: u32) = mask 4" "(0xff :: u32) = mask 8" "(0xfff :: u32) = mask 12"
  by (simp_all add: mask_eq_exp_minus_1)

lemma no_high_bits: "(w :: 'a::len word) < 2 ^ n \<Longrightarrow> bit w i \<Longrightarrow> i < n"
  by (metis bit_and_iff bit_mask_iff less_mask_eq)

lemma bit_unmask_mask:
  assumes "num < 2 ^ 4" "msg_num < 2 ^ 12" "typ < 2 ^ 4" "state < 2 ^ 4" "qid < 2 ^ 8"
  shows "bit_unmask (bit_mask num msg_num typ state qid) = (num, msg_num, typ, state, qid)"
proof -
  note high = assms [THEN no_high_bits]
  note bits = bit_mask_def field_masks bit_simps
  let ?w = "bit_mask num msg_num typ state qid"
  have "drop_bit 28 ?w AND mask 4 = num"
    by (rule bit_word_eqI) (auto simp: bits dest: high)
  moreover have "drop_bit 16 ?w AND mask 12 = msg_num"
    by (rule bit_word_eqI) (auto simp: bits dest: high)
  moreover have "drop_bit 12 ?w AND mask 4 = typ"
    by (rule bit_word_eqI) (auto simp: bits dest: high)
  moreover have "drop_bit 8 ?w AND mask 4 = state"
    by (rule bit_word_eqI) (auto simp: bits dest: high)
  moreover have "?w AND mask 8 = qid"
    by (rule bit_word_eqI) (auto simp: bits dest: high)
  ultimately show ?thesis
    by (simp add: bit_unmask_def field_masks)
qed

lemma bit_mask_unmask:
  "(case bit_unmask w of (num, msg_num, typ, state, qid) \<Rightarrow> bit_mask num msg_num typ state qid) = w"
proof (rule bit_word_eqI)
  fix n assume n: "n < LENGTH(32)"
  consider "n < 8" | "8 \<le> n" "n < 12" | "12 \<le> n" "n < 16" | "16 \<le> n" "n < 28" | "28 \<le> n"
    by linarith
  then show "bit (case bit_unmask w of (num, msg_num, typ, state, qid) \<Rightarrow>
      bit_mask num msg_num typ state qid) n = bit w n"
    using n by cases (auto simp: bit_unmask_def bit_mask_def field_masks bit_simps)
qed

text \<open>
  The word travels in network byte order; on the little-endian machines the code runs on,
  \<^verbatim>\<open>htonl\<close> and \<^verbatim>\<open>ntohl\<close> both reverse the four bytes.
\<close>

definition htonl :: "u32 \<Rightarrow> u32" where
  "htonl w = push_bit 24 (w AND 0xff) OR push_bit 8 (w AND 0xff00)
     OR (drop_bit 8 w AND 0xff00) OR (drop_bit 24 w AND 0xff)"

definition ntohl :: "u32 \<Rightarrow> u32" where
  "ntohl w = htonl w"

lemma byte1_mask: "(0xff00 :: u32) = push_bit 8 (mask 8)"
  by (simp add: mask_eq_exp_minus_1)

lemma bit_htonl: "bit (htonl w) n \<longleftrightarrow> n < 32 \<and> bit w (8 * (3 - n div 8) + n mod 8)"
proof (cases "n < 32")
  case True
  consider "n < 8" | "8 \<le> n" "n < 16" | "16 \<le> n" "n < 24" | "24 \<le> n"
    by linarith
  then show ?thesis
  proof cases
    case 1
    then show ?thesis by (auto simp: htonl_def field_masks byte1_mask bit_simps add.commute)
  next
    case 2
    then have "n div 8 = 1" "n mod 8 = n - 8" by presburger+
    with 2 show ?thesis
      by (auto simp: htonl_def field_masks byte1_mask bit_simps add.commute)
  next
    case 3
    then have "n div 8 = 2" "n mod 8 = n - 16" by presburger+
    with 3 show ?thesis
      by (auto simp: htonl_def field_masks byte1_mask bit_simps add.commute)
  next
    case 4
    with True have "n div 8 = 3" "n mod 8 = n - 24" by presburger+
    with 4 True show ?thesis
      by (auto simp: htonl_def field_masks byte1_mask bit_simps add.commute)
  qed
next
  case False
  then show ?thesis
    using bit_imp_le_length [of "htonl w" n] by auto
qed

lemma ntohl_htonl [simp]: "ntohl (htonl w) = w"
proof (rule bit_word_eqI)
  fix n assume "n < LENGTH(32)"
  then have n: "n < 32" by simp
  let ?m = "8 * (3 - n div 8) + n mod 8"
  from n have "n div 8 < 4" by simp
  then have "?m < 32" "?m div 8 = 3 - n div 8" "?m mod 8 = n mod 8" by auto
  moreover from \<open>n div 8 < 4\<close> have "8 * (3 - (3 - n div 8)) + n mod 8 = n" by simp
  ultimately show "bit (ntohl (htonl w)) n = bit w n"
    using n by (simp add: ntohl_def bit_htonl)
qed

section \<open>Page keys\<close>

text \<open>
  \<^verbatim>\<open>get_longkey\<close> packs the inode number and the page index of a file page into one 64-bit
  key; the server prints the upper half with \<^verbatim>\<open>longkeyToKey\<close>.
\<close>

definition get_longkey :: "u64 \<Rightarrow> u64 \<Rightarrow> u64" where
  "get_longkey key index = push_bit 32 key OR index"

definition longkeyToKey :: "u64 \<Rightarrow> u64" where
  "longkeyToKey longkey = drop_bit 32 longkey"

lemma longkeyToKey_get_longkey:
  assumes "key < 2 ^ 32" "index < 2 ^ 32"
  shows "longkeyToKey (get_longkey key index) = key"
proof (rule bit_word_eqI)
  fix n assume "n < LENGTH(64)"
  then show "bit (longkeyToKey (get_longkey key index)) n = bit key n"
    using no_high_bits [OF assms(1), of n] no_high_bits [OF assms(2), of "32 + n"]
    by (auto simp: longkeyToKey_def get_longkey_def bit_simps)
qed

lemma get_longkey_index:
  assumes "index < 2 ^ 32"
  shows "take_bit 32 (get_longkey key index) = index"
proof (rule bit_word_eqI)
  fix n assume "n < LENGTH(64)"
  then show "bit (take_bit 32 (get_longkey key index)) n = bit index n"
    using no_high_bits [OF assms, of n]
    by (auto simp: get_longkey_def bit_simps)
qed

lemma get_longkey_inj:
  assumes "key < 2 ^ 32" "index < 2 ^ 32" "key' < 2 ^ 32" "index' < 2 ^ 32"
  shows "get_longkey key index = get_longkey key' index' \<longleftrightarrow> key = key' \<and> index = index'"
  using longkeyToKey_get_longkey [OF assms(1,2)] longkeyToKey_get_longkey [OF assms(3,4)]
    get_longkey_index [OF assms(2), of key] get_longkey_index [OF assms(4), of key']
  by metis

section \<open>Memory layout\<close>

named_theorems layout \<open>the constants and the address macros\<close>

definition PAGE_SIZE :: nat where [layout]: "PAGE_SIZE = 4096"
definition BATCH_SIZE :: nat where [layout]: "BATCH_SIZE = 4"
definition NUM_CLIENT :: nat where [layout]: "NUM_CLIENT = 4"
definition NUM_QUEUES :: nat where [layout]: "NUM_QUEUES = 8"
definition MAX_BATCH :: nat where [layout]: "MAX_BATCH = 1"
definition NUM_ENTRY :: nat where [layout]: "NUM_ENTRY = 4"
definition METADATA_SIZE :: nat where [layout]: "METADATA_SIZE = 8 * BATCH_SIZE"

definition ENTRY_SIZE :: nat where [layout]:
  "ENTRY_SIZE = METADATA_SIZE + PAGE_SIZE * MAX_BATCH"

definition CLIENT_META_REGION_SIZE :: nat where [layout]:
  "CLIENT_META_REGION_SIZE = NUM_QUEUES * NUM_ENTRY * ENTRY_SIZE"

definition LOCAL_META_REGION_SIZE :: nat where [layout]:
  "LOCAL_META_REGION_SIZE = NUM_CLIENT * CLIENT_META_REGION_SIZE"

definition GET_LOCAL_META_REGION :: "nat \<Rightarrow> nat \<Rightarrow> nat \<Rightarrow> nat" where [layout]:
  "GET_LOCAL_META_REGION addr qid mid = addr + NUM_ENTRY * ENTRY_SIZE * qid + ENTRY_SIZE * mid"

definition GET_REMOTE_ADDRESS_BASE :: "nat \<Rightarrow> nat \<Rightarrow> nat \<Rightarrow> nat" where [layout]:
  "GET_REMOTE_ADDRESS_BASE addr qid mid =
     addr + NUM_ENTRY * ENTRY_SIZE * qid + ENTRY_SIZE * mid + 16"

definition GET_LOCAL_PAGE_REGION :: "nat \<Rightarrow> nat \<Rightarrow> nat \<Rightarrow> nat" where [layout]:
  "GET_LOCAL_PAGE_REGION addr qid mid =
     addr + NUM_ENTRY * ENTRY_SIZE * qid + ENTRY_SIZE * mid + METADATA_SIZE"

definition GET_OFFSET_FROM_BASE :: "nat \<Rightarrow> nat \<Rightarrow> nat" where [layout]:
  "GET_OFFSET_FROM_BASE qid mid = NUM_ENTRY * ENTRY_SIZE * qid + ENTRY_SIZE * mid"

definition GET_FREE_PAGE_REGION :: "nat \<Rightarrow> nat" where [layout]:
  "GET_FREE_PAGE_REGION addr = addr + LOCAL_META_REGION_SIZE"

text \<open>
  \<^verbatim>\<open>rdpma_get_queue_id\<close> and the message number that \<^verbatim>\<open>rdpma_get\<close> computes from the CPU it
  runs on: the reads of CPU \<open>c\<close> go through queue \<open>c mod (nq / 2)\<close>, writes through the queues
  of the upper half, and the CPUs that share a queue are told apart by the message number.
\<close>

datatype qp_type = QP_READ_SYNC | QP_WRITE_SYNC

definition rdpma_get_queue_id :: "nat \<Rightarrow> nat \<Rightarrow> qp_type \<Rightarrow> nat" where
  "rdpma_get_queue_id numqueues cpuid t =
     (let c = cpuid mod (numqueues div 2)
      in case t of QP_READ_SYNC \<Rightarrow> c | QP_WRITE_SYNC \<Rightarrow> c + numqueues div 2)"

definition rdpma_get_msg_id :: "nat \<Rightarrow> nat \<Rightarrow> nat" where
  "rdpma_get_msg_id numqueues cpuid = cpuid div (numqueues div 2)"

text \<open>The bytes of the metadata entry a read request of a CPU writes on the server.\<close>

definition read_entry :: "nat \<Rightarrow> nat \<Rightarrow> nat set" where
  "read_entry base cpuid =
     {GET_LOCAL_META_REGION base (rdpma_get_queue_id NUM_QUEUES cpuid QP_READ_SYNC)
        (rdpma_get_msg_id NUM_QUEUES cpuid) ..<
      GET_LOCAL_META_REGION base (rdpma_get_queue_id NUM_QUEUES cpuid QP_READ_SYNC)
        (rdpma_get_msg_id NUM_QUEUES cpuid) + ENTRY_SIZE}"

text \<open>Entries of different (queue, message) pairs are a whole number of entries apart.\<close>

lemma entries_apart:
  assumes "mid < NUM_ENTRY" "mid' < NUM_ENTRY" "(qid, mid) \<noteq> (qid', mid')"
  shows "{GET_LOCAL_META_REGION a qid mid ..< GET_LOCAL_META_REGION a qid mid + ENTRY_SIZE} \<inter>
         {GET_LOCAL_META_REGION a qid' mid' ..< GET_LOCAL_META_REGION a qid' mid' + ENTRY_SIZE} = {}"
proof -
  have slot: "GET_LOCAL_META_REGION a q m = a + ENTRY_SIZE * (4 * q + m)" for q m
    by (simp add: layout)
  from assms have "4 * qid + mid \<noteq> 4 * qid' + mid'"
    by (auto simp: layout) presburger+
  then consider "4 * qid + mid < 4 * qid' + mid'" | "4 * qid' + mid' < 4 * qid + mid"
    by linarith
  then have "GET_LOCAL_META_REGION a qid mid + ENTRY_SIZE \<le> GET_LOCAL_META_REGION a qid' mid' \<or>
      GET_LOCAL_META_REGION a qid' mid' + ENTRY_SIZE \<le> GET_LOCAL_META_REGION a qid mid"
    by cases (simp_all add: slot layout)
  then show ?thesis by auto
qed

section \<open>Properties\<close>

text \<open>
  C38: whatever one side packs into the immediate word and sends in network byte order, the
  other side unpacks unchanged: message type, transaction state, batch number, message number
  and queue number, for every value the fields have room for.
\<close>

theorem immediate_word_roundtrip:
  assumes "num < 2 ^ 4" "mid < 2 ^ 12" "qid < 2 ^ 8"
  shows "bit_unmask (ntohl (htonl (bit_mask num mid (msg_code t) (tx_code s) qid))) =
     (num, mid, msg_code t, tx_code s, qid)"
  using bit_unmask_mask [OF assms(1,2) _ _ assms(3), of "msg_code t" "tx_code s"] by simp

lemma immediate_word_roundtrip_witness:
  "bit_unmask (ntohl (htonl (bit_mask 4 37 (msg_code MSG_READ_REQUEST_REPLY)
      (tx_code TX_READ_ABORTED) 200))) = (4, 37, 5, 7, 200)"
  using immediate_word_roundtrip [of 4 37 200 MSG_READ_REQUEST_REPLY TX_READ_ABORTED] by simp

text \<open>
  C39: pages of different files or at different offsets have different keys, as long as inode
  numbers and page indices fit in 32 bits, and the server recovers the inode from the key.
\<close>

theorem longkey_unique:
  assumes "key < 2 ^ 32" "index < 2 ^ 32" "key' < 2 ^ 32" "index' < 2 ^ 32"
  shows "(get_longkey key index = get_longkey key' index' \<longleftrightarrow> key = key' \<and> index = index') \<and>
     longkeyToKey (get_longkey key index) = key"
  using get_longkey_inj [OF assms] longkeyToKey_get_longkey [OF assms(1,2)] by blast

lemma longkey_unique_witness:
  "(get_longkey 12 3 = get_longkey 3 12 \<longleftrightarrow> (12::u64) = 3 \<and> (3::u64) = 12) \<and>
     longkeyToKey (get_longkey 12 3) = 12"
  by (rule longkey_unique) simp_all

text \<open>
  Outside that range keys collide: an inode number that differs only above bit 31 gives the
  same key, so two files share their cached pages.
\<close>

lemma longkey_collision:
  "get_longkey (push_bit 32 x OR key) index = get_longkey key index"
proof (rule bit_word_eqI)
  fix n assume "n < LENGTH(64)"
  then show "bit (get_longkey (push_bit 32 x OR key) index) n = bit (get_longkey key index) n"
    by (auto simp: get_longkey_def bit_simps)
qed

lemma read_slot:
  "GET_LOCAL_META_REGION base (rdpma_get_queue_id NUM_QUEUES c QP_READ_SYNC)
     (rdpma_get_msg_id NUM_QUEUES c) = base + ENTRY_SIZE * (4 * (c mod 4) + c div 4)"
  by (simp add: rdpma_get_queue_id_def rdpma_get_msg_id_def layout)

text \<open>
  C40: the metadata entries of the reads of two CPUs never overlap on a machine with at most 16
  CPUs; with more, they do: CPU 16 writes into the very entry of CPU 1.
\<close>

theorem read_entries_disjoint:
  "(\<forall>c<16. \<forall>c'<16. c \<noteq> c' \<longrightarrow> read_entry base c \<inter> read_entry base c' = {}) \<and>
   read_entry base 16 = read_entry base 1"
proof (intro conjI allI impI)
  fix c c' :: nat
  assume c: "c < 16" "c' < 16" "c \<noteq> c'"
  have "(c mod 4, c div 4) \<noteq> (c' mod 4, c' div 4)"
    using c(3) by (metis div_mult_mod_eq prod.inject)
  then show "read_entry base c \<inter> read_entry base c' = {}"
    unfolding read_entry_def
    using entries_apart [of "c div 4" "c' div 4" "c mod 4" "c' mod 4" base] c
    by (simp add: rdpma_get_queue_id_def rdpma_get_msg_id_def NUM_QUEUES_def NUM_ENTRY_def)
next
  show "read_entry base 16 = read_entry base 1"
    by (simp add: read_entry_def read_slot)
qed

lemma read_entries_disjoint_witness:
  "read_entry 0 3 \<inter> read_entry 0 7 = {} \<and> read_entry 0 16 = read_entry 0 1"
  using read_entries_disjoint [of 0] by simp

end
