(* ===== verification/Hash_Functions.thy ===== *)
theory Hash_Functions
  imports Prelude
begin

text \<open>
  The hash functions of \<^verbatim>\<open>server/util/hash.h\<close> and of its client copy \<^verbatim>\<open>client/hash.h\<close>:
  MurmurHash2, Jenkins and the 64-bit xxHash, on a list of bytes. The two files agree except
  for \<^verbatim>\<open>standard\<close>, which on the server is the standard library's \<^verbatim>\<open>std::_Hash_bytes\<close> and on
  the client a multiplicative byte sum. \<^verbatim>\<open>std::_Hash_bytes\<close> is implementation-defined: it is
  the parameter \<open>std\<close> of the definitions that use it, and no theorem assumes anything of it.

  The bloom filters of both sides use \<^verbatim>\<open>hash_funcs[1]\<close>, which is MurmurHash2; all that the
  rest of the development needs from it is its 32-bit range.
\<close>

section \<open>Bytes\<close>

type_synonym bytes = "u8 list"

text \<open>The bytes of a 64-bit object in memory, least significant first.\<close>

definition bytes_of_u64 :: "u64 \<Rightarrow> bytes" where
  "bytes_of_u64 w = map (\<lambda>i. ucast (drop_bit (8 * i) w)) [0..<8]"

lemma length_bytes_of_u64 [simp]: "length (bytes_of_u64 w) = 8"
  by (simp add: bytes_of_u64_def)

fun le_bytes :: "bytes \<Rightarrow> 'a::len word" where
  "le_bytes [] = 0"
| "le_bytes (b # bs) = ucast b OR push_bit 8 (le_bytes bs)"

lemma bit_le_bytes:
  "bit (le_bytes bs :: 'a::len word) n \<longleftrightarrow>
     n < LENGTH('a) \<and> n div 8 < length bs \<and> bit (bs ! (n div 8)) (n mod 8)"
proof (induction bs arbitrary: n)
  case Nil
  then show ?case by simp
next
  case (Cons b bs)
  have split: "bit (le_bytes (b # bs) :: 'a word) n \<longleftrightarrow>
      n < LENGTH('a) \<and> (bit b n \<or> 8 \<le> n \<and> bit (le_bytes bs :: 'a word) (n - 8))"
    by (simp only: le_bytes.simps bit_or_iff bit_unsigned_iff bit_push_bit_iff) auto
  show ?case
  proof (cases "n < 8")
    case True
    then show ?thesis unfolding split by simp
  next
    case False
    then obtain m where n: "n = m + 8"
      by (metis add.commute le_Suc_ex not_less)
    have "\<not> bit b (m + 8)"
      using bit_imp_le_length [of b "m + 8"] by auto
    moreover have "(m + 8) div 8 = Suc (m div 8)" "(m + 8) mod 8 = m mod 8" by simp_all
    ultimately show ?thesis
      unfolding split Cons.IH unfolding n by auto
  qed
qed

lemma le_bytes_of_u64: "le_bytes (bytes_of_u64 w) = w"
proof (rule bit_word_eqI)
  fix n assume "n < LENGTH(64)"
  then have "n div 8 < 8" "n < 64" by auto
  then show "bit (le_bytes (bytes_of_u64 w) :: u64) n = bit w n"
    by (simp add: bit_le_bytes bytes_of_u64_def bit_simps bit_unsigned_iff)
qed

section \<open>MurmurHash2\<close>

definition murmur_m :: u32 where
  "murmur_m = 0x5bd1e995"

text \<open>The \<^verbatim>\<open>while (len >= 4)\<close> loop: one four-byte block per round; the rest is returned.\<close>

fun murmur2_blocks :: "u32 \<Rightarrow> bytes \<Rightarrow> u32 \<times> bytes" where
  "murmur2_blocks h (b0 # b1 # b2 # b3 # data) =
     (let k = le_bytes [b0, b1, b2, b3];
          k = k * murmur_m;
          k = k XOR drop_bit 24 k;
          k = k * murmur_m;
          h = h * murmur_m;
          h = h XOR k
      in murmur2_blocks h data)"
| "murmur2_blocks h data = (h, data)"

text \<open>The fall-through \<^verbatim>\<open>switch (len)\<close> over the last bytes.\<close>

fun murmur2_tail :: "u32 \<Rightarrow> bytes \<Rightarrow> u32" where
  "murmur2_tail h [d0, d1, d2] =
     (((h XOR push_bit 16 (ucast d2)) XOR push_bit 8 (ucast d1)) XOR ucast d0) * murmur_m"
| "murmur2_tail h [d0, d1] = ((h XOR push_bit 8 (ucast d1)) XOR ucast d0) * murmur_m"
| "murmur2_tail h [d0] = (h XOR ucast d0) * murmur_m"
| "murmur2_tail h data = h"

definition murmur2 :: "bytes \<Rightarrow> u64 \<Rightarrow> u64" where
  "murmur2 key seed =
     (let h = (ucast (seed XOR of_nat (length key)) :: u32);
          (h, data) = murmur2_blocks h key;
          h = murmur2_tail h data;
          h = h XOR drop_bit 13 h;
          h = h * murmur_m;
          h = h XOR drop_bit 15 h
      in ucast h)"

lemma unat_lt2p_u32: "unat (w :: u32) < 4294967296"
  by (rule order.strict_trans2 [OF unsigned_less]) simp

lemma murmur2_bound: "unat (murmur2 key seed) < 2 ^ 32"
proof -
  have "unat (ucast (w :: u32) :: u64) < 2 ^ 32" for w
    using unat_lt2p_u32 [of w] by (simp add: unsigned_ucast_eq take_bit_nat_eq_self)
  then show ?thesis
    by (simp add: murmur2_def Let_def split: prod.split)
qed

section \<open>Jenkins\<close>

text \<open>\<^verbatim>\<open>key[i]\<close> is a \<^verbatim>\<open>char\<close>: on the target it is signed, so a byte is sign-extended.\<close>

fun jenkins_loop :: "u64 \<Rightarrow> bytes \<Rightarrow> u64" where
  "jenkins_loop hash [] = hash"
| "jenkins_loop hash (c # cs) =
     (let hash = hash + scast c;
          hash = hash + push_bit 10 hash;
          hash = hash XOR drop_bit 6 hash
      in jenkins_loop hash cs)"

definition jenkins :: "bytes \<Rightarrow> u64 \<Rightarrow> u64" where
  "jenkins key seed =
     (let hash = jenkins_loop 0 key;
          hash = hash + push_bit 3 hash;
          hash = hash XOR drop_bit 11 hash;
          hash = hash + push_bit 15 hash
      in hash)"

section \<open>xxHash\<close>

definition NUMBER64_1 :: u64 where "NUMBER64_1 = 11400714785074694791"
definition NUMBER64_2 :: u64 where "NUMBER64_2 = 14029467366897019727"
definition NUMBER64_3 :: u64 where "NUMBER64_3 = 1609587929392839161"
definition NUMBER64_4 :: u64 where "NUMBER64_4 = 9650029242287828579"
definition NUMBER64_5 :: u64 where "NUMBER64_5 = 2870177450012600261"

definition shifting_hash :: "u64 \<Rightarrow> nat \<Rightarrow> u64" where
  "shifting_hash x r = push_bit r x OR drop_bit (64 - r) x"

text \<open>
  The loads: both branches of \<^verbatim>\<open>hash_read64_align\<close> read the same eight bytes, they differ in
  the pointer type only.
\<close>

definition hash_read64_align :: "bytes \<Rightarrow> u64" where
  "hash_read64_align p = le_bytes (take 8 p)"

definition hash_read32_align :: "bytes \<Rightarrow> u32" where
  "hash_read32_align p = le_bytes (take 4 p)"

definition hash_round :: "u64 \<Rightarrow> bytes \<Rightarrow> u64" where
  "hash_round v p = shifting_hash (v + hash_read64_align p * NUMBER64_2) 31 * NUMBER64_1"

text \<open>The \<^verbatim>\<open>do ... while (p <= limitation)\<close> loop: entered with at least 32 bytes left.\<close>

function hash_stripes :: "u64 \<times> u64 \<times> u64 \<times> u64 \<Rightarrow> bytes \<Rightarrow> (u64 \<times> u64 \<times> u64 \<times> u64) \<times> bytes"
  where
  "hash_stripes (v1, v2, v3, v4) p =
     (let v1 = hash_round v1 p; v2 = hash_round v2 (drop 8 p);
          v3 = hash_round v3 (drop 16 p); v4 = hash_round v4 (drop 24 p);
          p' = drop 32 p
      in if 32 \<le> length p' then hash_stripes (v1, v2, v3, v4) p' else ((v1, v2, v3, v4), p'))"
  by pat_completeness auto
termination
  by (relation "measure (\<lambda>(v, p). length p)") auto

definition hash_merge :: "u64 \<Rightarrow> u64 \<Rightarrow> u64" where
  "hash_merge hash v =
     (hash XOR (shifting_hash (v * NUMBER64_2) 31 * NUMBER64_1)) * NUMBER64_1 + NUMBER64_4"

text \<open>The three loops over what is left: eight, then four, then single bytes.\<close>

function hash_tail8 :: "u64 \<Rightarrow> bytes \<Rightarrow> u64 \<times> bytes" where
  "hash_tail8 hash p =
     (if 8 \<le> length p then
        let k1 = shifting_hash (hash_read64_align p * NUMBER64_2) 31 * NUMBER64_1;
            hash = hash XOR k1;
            hash = shifting_hash hash 27 * NUMBER64_1 + NUMBER64_4
        in hash_tail8 hash (drop 8 p)
      else (hash, p))"
  by pat_completeness auto
termination
  by (relation "measure (\<lambda>(h, p). length p)") auto

definition hash_tail4 :: "u64 \<Rightarrow> bytes \<Rightarrow> u64 \<times> bytes" where
  "hash_tail4 hash p =
     (if 4 \<le> length p then
        let hash = hash XOR (ucast (hash_read32_align p) * NUMBER64_1)
        in (shifting_hash hash 23 * NUMBER64_2 + NUMBER64_3, drop 4 p)
      else (hash, p))"

fun hash_tail1 :: "u64 \<Rightarrow> bytes \<Rightarrow> u64" where
  "hash_tail1 hash [] = hash"
| "hash_tail1 hash (b # p) =
     hash_tail1 (shifting_hash (hash XOR (ucast b * NUMBER64_5)) 11 * NUMBER64_1) p"

definition hash_compute :: "bytes \<Rightarrow> u64 \<Rightarrow> u64" where
  "hash_compute input seed =
     (let (hash, p) =
        (if 32 \<le> length input then
           let v = (seed + NUMBER64_1 + NUMBER64_2, seed + NUMBER64_2, seed + 0, seed - NUMBER64_1);
               ((v1, v2, v3, v4), p) = hash_stripes v input;
               hash = shifting_hash v1 1 + shifting_hash v2 7 + shifting_hash v3 12
                 + shifting_hash v4 18
           in (hash_merge (hash_merge (hash_merge (hash_merge hash v1) v2) v3) v4, p)
         else (seed + NUMBER64_5, input));
          hash = hash + of_nat (length input);
          (hash, p) = hash_tail8 hash p;
          (hash, p) = hash_tail4 hash p;
          hash = hash_tail1 hash p;
          hash = hash XOR drop_bit 33 hash;
          hash = hash * NUMBER64_2;
          hash = hash XOR drop_bit 29 hash;
          hash = hash * NUMBER64_3;
          hash = hash XOR drop_bit 32 hash
      in hash)"

definition xxhash :: "bytes \<Rightarrow> u64 \<Rightarrow> u64" where
  "xxhash data seed = hash_compute data seed"

lemma shifting_hash_rotl:
  assumes "0 < r" "r < 64"
  shows "shifting_hash x r = word_rotl r x"
proof (rule bit_word_eqI)
  fix n assume n: "n < LENGTH(64)"
  have rot: "bit (word_rotl r x) n = bit x ((n + (64 - r)) mod 64)"
    using n assms by (simp add: bit_word_rotl_iff)
  have or: "bit (shifting_hash x r) n \<longleftrightarrow> r \<le> n \<and> bit x (n - r) \<or> bit x (64 - r + n)"
    using n by (simp add: shifting_hash_def bit_or_iff bit_push_bit_iff bit_drop_bit_eq)
  show "bit (shifting_hash x r) n = bit (word_rotl r x) n"
  proof (cases "r \<le> n")
    case True
    then have "(n + (64 - r)) mod 64 = n - r"
      using n assms by (simp add: mod_if)
    moreover have "\<not> bit x (64 - r + n)"
      using True assms bit_imp_le_length [of x "64 - r + n"] by auto
    moreover note True
    ultimately show ?thesis unfolding rot or by simp
  next
    case False
    then have "(n + (64 - r)) mod 64 = 64 - r + n"
      using n assms by simp
    with False show ?thesis unfolding rot or by simp
  qed
qed

section \<open>The dispatch table\<close>

text \<open>\<^verbatim>\<open>hash_funcs\<close> of the server and of the client; entry 0 is what differs.\<close>

definition hash_funcs :: "(bytes \<Rightarrow> u64 \<Rightarrow> u64) \<Rightarrow> (bytes \<Rightarrow> u64 \<Rightarrow> u64) list" where
  "hash_funcs std = [std, murmur2, jenkins, xxhash]"

definition h :: "(bytes \<Rightarrow> u64 \<Rightarrow> u64) \<Rightarrow> Key_t \<Rightarrow> u64" where
  "h std key = (hash_funcs std ! 0) (bytes_of_u64 key) 0xc70697"

fun client_sum :: "u64 \<Rightarrow> bytes \<Rightarrow> u64" where
  "client_sum hash [] = hash"
| "client_sum hash (c # cs) = client_sum (hash + scast c) cs"

definition client_standard :: "bytes \<Rightarrow> u64 \<Rightarrow> u64" where
  "client_standard key seed = client_sum 0 key * seed"

definition client_hash_funcs :: "(bytes \<Rightarrow> u64 \<Rightarrow> u64) list" where
  "client_hash_funcs = [client_standard, murmur2, jenkins, xxhash]"

end
