(* ===== verification/Counting_Bloom.thy ===== *)
theory Counting_Bloom
  imports Hash_Functions
begin

text \<open>
  The counting Bloom filter of the server (\<^verbatim>\<open>server/util/counting_bloom_filter.h\<close>): an array
  of 8-bit counters, the bit array derived from it, and the operations on both. The filter
  mirrors the multiset of keys the store holds. \<open>represents\<close> says that the counters are
  exactly the numbers of hits of that multiset; it is what \<open>Insert\<close> and \<open>Delete\<close> keep as
  long as no counter saturates, and it rules out false negatives. \<open>dominates\<close> is the weaker
  relation that survives saturation, but not deletions after it.
\<close>

section \<open>State\<close>

record cbf =
  m_numHashes :: u8
  m_numBits :: u64
  m_numLongs :: u64
  m_bitarray :: "u8 list"
  m_boolbitarray :: "u64 list"
  modified_blocks :: "u64 set"

definition BITS_TO_LONGS :: "u64 \<Rightarrow> u64" where
  "BITS_TO_LONGS nr = (nr + 64 - 1) div 64"

definition new_cbf :: "u8 \<Rightarrow> u64 \<Rightarrow> cbf" where
  "new_cbf numHashes numBits =
     \<lparr>m_numHashes = numHashes, m_numBits = numBits, m_numLongs = BITS_TO_LONGS numBits,
      m_bitarray = replicate (unat numBits) 0,
      m_boolbitarray = replicate (unat (BITS_TO_LONGS numBits)) 0, modified_blocks = {}\<rparr>"

text \<open>
  The macro \<^verbatim>\<open>SENDINGBLOCKSIZE\<close> is \<^verbatim>\<open>1024 * 8\<close> without parentheses, so \<open>idx/SENDINGBLOCKSIZE\<close>
  is \<open>(idx / 1024) * 8\<close>.
\<close>

definition sending_block :: "u64 \<Rightarrow> u64" where
  "sending_block idx = idx div 1024 * 8"

definition GetUpdatedBlocks :: "cbf \<Rightarrow> u64 set" where
  "GetUpdatedBlocks bf = modified_blocks bf"

definition ResetUpdatedBlocks :: "cbf \<Rightarrow> cbf" where
  "ResetUpdatedBlocks bf = bf\<lparr>modified_blocks := {}\<rparr>"

section \<open>Operations\<close>

text \<open>
  The index of a key for one salt, from \<open>hash_funcs[1]\<close>, which is \<open>murmur2\<close>. The remainder passes through an \<^verbatim>\<open>int\<close>: it is cut to 32
  bits and sign-extended. A modulus of zero traps.
\<close>

definition ComputeHash :: "cbf \<Rightarrow> Key_t \<Rightarrow> u8 \<Rightarrow> u64 option" where
  "ComputeHash bf key salt =
     (if m_numBits bf = 0 then None
      else let f_hash = murmur2 (bytes_of_u64 key) (ucast salt);
               idx = (ucast (f_hash mod m_numBits bf) :: u32)
           in Some (scast idx))"

text \<open>The values the loop counter \<^verbatim>\<open>for (uint8_t i = 0; i < GetNumHashes(); i++)\<close> takes.\<close>

definition salts :: "u8 \<Rightarrow> u8 list" where
  "salts numHashes = map of_nat [0..<unat numHashes]"

fun insert_loop :: "cbf \<Rightarrow> Key_t \<Rightarrow> u8 list \<Rightarrow> cbf option" where
  "insert_loop bf key [] = Some bf"
| "insert_loop bf key (i # is) = do {
     idx \<leftarrow> ComputeHash bf key i;
     c \<leftarrow> rd (m_bitarray bf) (unat idx);
     bits \<leftarrow> (if c < 255 then wr (m_bitarray bf) (unat idx) (c + 1) else Some (m_bitarray bf));
     insert_loop (bf\<lparr>m_bitarray := bits\<rparr>) key is }"

definition bf_Insert :: "cbf \<Rightarrow> Key_t \<Rightarrow> cbf option" where
  "bf_Insert bf key = insert_loop bf key (salts (m_numHashes bf))"

fun query_loop :: "cbf \<Rightarrow> Key_t \<Rightarrow> u8 list \<Rightarrow> bool option" where
  "query_loop bf key [] = Some True"
| "query_loop bf key (i # is) = do {
     idx \<leftarrow> ComputeHash bf key i;
     c \<leftarrow> rd (m_bitarray bf) (unat idx);
     if c = 0 then Some False else query_loop bf key is }"

definition bf_Query :: "cbf \<Rightarrow> Key_t \<Rightarrow> bool option" where
  "bf_Query bf key = query_loop bf key (salts (m_numHashes bf))"

fun delete_loop :: "cbf \<Rightarrow> Key_t \<Rightarrow> u8 list \<Rightarrow> cbf option" where
  "delete_loop bf key [] = Some bf"
| "delete_loop bf key (i # is) = do {
     idx \<leftarrow> ComputeHash bf key i;
     c \<leftarrow> rd (m_bitarray bf) (unat idx);
     bits \<leftarrow> wr (m_bitarray bf) (unat idx) (c - 1);
     let blocks = (if c - 1 = 0 then insert (sending_block idx) (modified_blocks bf)
                   else modified_blocks bf);
     delete_loop (bf\<lparr>m_bitarray := bits, modified_blocks := blocks\<rparr>) key is }"

definition bf_Delete :: "cbf \<Rightarrow> Key_t \<Rightarrow> (cbf \<times> bool) option" where
  "bf_Delete bf key = do {
     q \<leftarrow> bf_Query bf key;
     if q then do { bf' \<leftarrow> delete_loop bf key (salts (m_numHashes bf)); Some (bf', True) }
     else Some (bf, False) }"

definition check_bit :: "u64 \<Rightarrow> u64" where
  "check_bit idx = push_bit (64 - 1 - unat (idx mod 64)) 1"

fun query_bit_loop :: "cbf \<Rightarrow> Key_t \<Rightarrow> u8 list \<Rightarrow> bool option" where
  "query_bit_loop bf key [] = Some True"
| "query_bit_loop bf key (i # is) = do {
     idx \<leftarrow> ComputeHash bf key i;
     w \<leftarrow> rd (m_boolbitarray bf) (unat (idx div 64));
     if w AND check_bit idx = 0 then Some False else query_bit_loop bf key is }"

definition QueryBitBloom :: "cbf \<Rightarrow> Key_t \<Rightarrow> bool option" where
  "QueryBitBloom bf key = query_bit_loop bf key (salts (m_numHashes bf))"

text \<open>The two loops of \<open>ToOrdinaryBloomFilter\<close>: clear the words, then set a bit per counter.\<close>

fun clear_loop :: "u64 list \<Rightarrow> nat list \<Rightarrow> u64 list option" where
  "clear_loop ws [] = Some ws"
| "clear_loop ws (i # is) = do { ws' \<leftarrow> wr ws i 0; clear_loop ws' is }"

fun set_loop :: "u8 list \<Rightarrow> u64 list \<Rightarrow> nat list \<Rightarrow> u64 list option" where
  "set_loop cs ws [] = Some ws"
| "set_loop cs ws (i # is) = do {
     c \<leftarrow> rd cs i;
     ws' \<leftarrow> (if 0 < c then do { w \<leftarrow> rd ws (i div 64); wr ws (i div 64) (w OR check_bit (of_nat i)) }
             else Some ws);
     set_loop cs ws' is }"

definition ToOrdinaryBloomFilter :: "cbf \<Rightarrow> cbf option" where
  "ToOrdinaryBloomFilter bf = do {
     ws \<leftarrow> clear_loop (m_boolbitarray bf) [0..<unat (m_numLongs bf)];
     ws' \<leftarrow> set_loop (m_bitarray bf) ws [0..<unat (m_numBits bf)];
     Some (bf\<lparr>m_boolbitarray := ws'\<rparr>) }"

text \<open>
  \<open>Serialize\<close> and \<open>Deserialize\<close> keep the number of bits in a \<^verbatim>\<open>uint16_t\<close>. A stream that
  ends early leaves the locals uninitialised, which the model reports as a fault.
\<close>

fun write_loop :: "u8 list \<Rightarrow> nat list \<Rightarrow> u8 list \<Rightarrow> u8 list option" where
  "write_loop cs [] os = Some os"
| "write_loop cs (i # is) os = do { c \<leftarrow> rd cs i; write_loop cs is (os @ [c]) }"

definition Serialize :: "cbf \<Rightarrow> u8 list option" where
  "Serialize bf =
     (let numBits = (ucast (m_numBits bf) :: u16);
          os = [m_numHashes bf, ucast numBits, ucast (drop_bit 8 numBits)]
      in write_loop (m_bitarray bf) [0..<unat numBits] os)"

fun read_loop :: "u8 list \<Rightarrow> nat list \<Rightarrow> u8 list \<Rightarrow> u8 list option" where
  "read_loop cs [] is = Some cs"
| "read_loop cs (i # js) [] = None"
| "read_loop cs (i # js) (b # is) = do { cs' \<leftarrow> wr cs i b; read_loop cs' js is }"

fun Deserialize :: "u8 list \<Rightarrow> cbf option" where
  "Deserialize (numHashes # lo # hi # is) =
     (let numBits = (ucast lo OR push_bit 8 (ucast hi) :: u16);
          r = new_cbf numHashes (ucast numBits)
      in do { cs \<leftarrow> read_loop (m_bitarray r) [0..<unat numBits] is; Some (r\<lparr>m_bitarray := cs\<rparr>) })"
| "Deserialize _ = None"

section \<open>The counters as numbers of hits\<close>

definition wf_cbf :: "cbf \<Rightarrow> bool" where
  "wf_cbf bf \<longleftrightarrow> 0 < unat (m_numBits bf) \<and> unat (m_numBits bf) \<le> 2 ^ 31 \<and>
     m_numLongs bf = BITS_TO_LONGS (m_numBits bf) \<and>
     length (m_bitarray bf) = unat (m_numBits bf) \<and>
     length (m_boolbitarray bf) = unat (m_numLongs bf)"

definition hash_index :: "u64 \<Rightarrow> Key_t \<Rightarrow> u8 \<Rightarrow> nat" where
  "hash_index numBits key salt = unat (murmur2 (bytes_of_u64 key) (ucast salt) mod numBits)"

definition hits :: "u8 \<Rightarrow> u64 \<Rightarrow> Key_t \<Rightarrow> nat multiset" where
  "hits numHashes numBits key = mset (map (hash_index numBits key) (salts numHashes))"

definition load :: "cbf \<Rightarrow> Key_t multiset \<Rightarrow> nat multiset" where
  "load bf S = \<Sum>\<^sub># (image_mset (hits (m_numHashes bf) (m_numBits bf)) S)"

definition counter :: "cbf \<Rightarrow> nat \<Rightarrow> nat" where
  "counter bf p = unat (m_bitarray bf ! p)"

definition represents :: "cbf \<Rightarrow> Key_t multiset \<Rightarrow> bool" where
  "represents bf S \<longleftrightarrow> wf_cbf bf \<and>
     (\<forall>p<unat (m_numBits bf). counter bf p = count (load bf S) p)"

definition dominates :: "cbf \<Rightarrow> Key_t multiset \<Rightarrow> bool" where
  "dominates bf S \<longleftrightarrow> wf_cbf bf \<and>
     (\<forall>p<unat (m_numBits bf). min 255 (count (load bf S) p) \<le> counter bf p)"

text \<open>No counter needs more than its eight bits for the keys \<open>S\<close>.\<close>

definition unsaturated :: "cbf \<Rightarrow> Key_t multiset \<Rightarrow> bool" where
  "unsaturated bf S \<longleftrightarrow> (\<forall>p<unat (m_numBits bf). count (load bf S) p \<le> 255)"

lemma load_simps [simp]:
  "load bf {#} = {#}"
  "load bf (add_mset k S) = hits (m_numHashes bf) (m_numBits bf) k + load bf S"
  "load (bf\<lparr>m_bitarray := cs\<rparr>) S = load bf S"
  "load (bf\<lparr>m_boolbitarray := ws\<rparr>) S = load bf S"
  "load (bf\<lparr>modified_blocks := bs\<rparr>) S = load bf S"
  by (simp_all add: load_def)

lemma BITS_TO_LONGS_unat:
  assumes "unat n \<le> 2 ^ 31"
  shows "unat (BITS_TO_LONGS n) = (63 + unat n) div 64"
proof -
  have "unat (63 + n) = 63 + unat n"
    using assms unat_add_lem [of 63 n] by simp
  moreover have "n + 64 - 1 = 63 + n" by simp
  ultimately show ?thesis
    by (simp add: BITS_TO_LONGS_def unat_div)
qed

lemma wf_new_cbf: "0 < unat n \<Longrightarrow> unat n \<le> 2 ^ 31 \<Longrightarrow> wf_cbf (new_cbf k n)"
  by (simp add: wf_cbf_def new_cbf_def)

lemma hash_index_less: "wf_cbf bf \<Longrightarrow> hash_index (m_numBits bf) key i < unat (m_numBits bf)"
  by (simp add: wf_cbf_def hash_index_def unat_mod)

lemma sign_extend_small:
  fixes x :: u64
  assumes "unat x < 2 ^ 31"
  shows "scast (ucast x :: u32) = x"
proof (rule bit_word_eqI)
  fix n assume n: "n < LENGTH(64)"
  have "x < 2 ^ 31"
    using assms by (simp add: word_less_nat_alt)
  then have high: "\<not> bit x m" if "31 \<le> m" for m
    using that by (metis bit_and_iff bit_mask_iff less_mask_eq linorder_not_less)
  show "bit (scast (ucast x :: u32) :: u64) n = bit x n"
    using n high [of n] high [of 31] by (auto simp: bit_simps min_def)
qed

lemma ComputeHash_eq:
  assumes "wf_cbf bf"
  shows "\<exists>w. ComputeHash bf key i = Some w \<and> unat w = hash_index (m_numBits bf) key i"
proof -
  have nz: "m_numBits bf \<noteq> 0" and le: "unat (m_numBits bf) \<le> 2 ^ 31"
    using assms by (auto simp: wf_cbf_def)
  let ?x = "murmur2 (bytes_of_u64 key) (ucast i) mod m_numBits bf"
  have "unat ?x < 2 ^ 31"
    using hash_index_less [OF assms, of key i] le by (simp add: hash_index_def)
  then show ?thesis
    using nz by (simp add: ComputeHash_def hash_index_def sign_extend_small)
qed

lemma wf_cbf_update [simp]:
  "length cs = length (m_bitarray bf) \<Longrightarrow> wf_cbf (bf\<lparr>m_bitarray := cs\<rparr>) = wf_cbf bf"
  "wf_cbf (bf\<lparr>modified_blocks := bs\<rparr>) = wf_cbf bf"
  by (auto simp: wf_cbf_def)

lemma counter_update:
  assumes "wf_cbf bf" "p < unat (m_numBits bf)"
  shows "counter (bf\<lparr>m_bitarray := (m_bitarray bf)[q := c]\<rparr>) p =
           (if p = q then unat c else counter bf p)"
  using assms by (simp add: counter_def wf_cbf_def nth_list_update)

lemma counter_le: "counter bf p \<le> 255"
  using unat_bound [of "m_bitarray bf ! p"] by (simp add: counter_def)

text \<open>What each loop does to the counters, for the salts \<open>is\<close> that are left.\<close>

lemma insert_loop_counters:
  assumes "wf_cbf bf"
  shows "\<exists>cs. insert_loop bf key is = Some (bf\<lparr>m_bitarray := cs\<rparr>) \<and>
     length cs = length (m_bitarray bf) \<and>
     (\<forall>p<unat (m_numBits bf). unat (cs ! p) =
        min 255 (counter bf p + count (mset (map (hash_index (m_numBits bf) key) is)) p))"
  using assms
proof (induction "is" arbitrary: bf)
  case Nil
  then show ?case
    by (intro exI [of _ "m_bitarray bf"]) (simp add: counter_def [symmetric] counter_le)
next
  case (Cons i "is")
  let ?q = "hash_index (m_numBits bf) key i"
  let ?c = "m_bitarray bf ! ?q"
  let ?cs = "if ?c < 255 then (m_bitarray bf)[?q := ?c + 1] else m_bitarray bf"
  let ?bf = "bf\<lparr>m_bitarray := ?cs\<rparr>"
  have q: "?q < length (m_bitarray bf)" "?q < unat (m_numBits bf)"
    using hash_index_less [OF Cons.prems] Cons.prems by (auto simp: wf_cbf_def)
  obtain w where w: "ComputeHash bf key i = Some w" "unat w = ?q"
    using ComputeHash_eq [OF Cons.prems] by blast
  have step: "counter ?bf p = min 255 (counter bf p + (if p = ?q then 1 else 0))"
    if "p < unat (m_numBits bf)" for p
  proof (cases "?c < 255")
    case True
    then have "unat (?c + 1) = unat ?c + 1"
      using unat_add_lem [of ?c 1] by (simp add: word_less_nat_alt)
    with True that Cons.prems counter_le [of bf p] show ?thesis
      by (auto simp: counter_def wf_cbf_def nth_list_update word_less_nat_alt)
  next
    case False
    then have "255 \<le> unat ?c" by (simp add: word_less_nat_alt)
    with False counter_le [of bf p] show ?thesis
      by (auto simp: counter_def)
  qed
  have "wf_cbf ?bf" using Cons.prems by simp
  from Cons.IH [OF this] obtain cs where
    "insert_loop ?bf key is = Some (bf\<lparr>m_bitarray := cs\<rparr>)" "length cs = length (m_bitarray bf)"
    and cs: "\<forall>p<unat (m_numBits bf). unat (cs ! p) =
      min 255 (counter ?bf p + count (mset (map (hash_index (m_numBits bf) key) is)) p)"
    by auto
  moreover have "insert_loop bf key (i # is) = insert_loop ?bf key is"
    using q w by (simp add: rd_ok wr_ok)
  ultimately show ?case
    using step by (intro exI [of _ cs]) auto
qed

lemma delete_loop_counters:
  assumes "wf_cbf bf"
    and "\<And>p. p < unat (m_numBits bf) \<Longrightarrow>
           count (mset (map (hash_index (m_numBits bf) key) is)) p \<le> counter bf p"
  shows "\<exists>cs bs. delete_loop bf key is = Some (bf\<lparr>m_bitarray := cs, modified_blocks := bs\<rparr>) \<and>
     length cs = length (m_bitarray bf) \<and>
     (\<forall>p<unat (m_numBits bf). unat (cs ! p) =
        counter bf p - count (mset (map (hash_index (m_numBits bf) key) is)) p)"
  using assms
proof (induction "is" arbitrary: bf)
  case Nil
  then show ?case
    by (intro exI [of _ "m_bitarray bf"] exI [of _ "modified_blocks bf"])
      (simp add: counter_def)
next
  case (Cons i "is")
  let ?q = "hash_index (m_numBits bf) key i"
  let ?c = "m_bitarray bf ! ?q"
  have q: "?q < length (m_bitarray bf)" "?q < unat (m_numBits bf)"
    using hash_index_less [OF Cons.prems(1)] Cons.prems(1) by (auto simp: wf_cbf_def)
  obtain w where w: "ComputeHash bf key i = Some w" "unat w = ?q"
    using ComputeHash_eq [OF Cons.prems(1)] by blast
  let ?bs = "if ?c - 1 = 0 then insert (sending_block w) (modified_blocks bf)
             else modified_blocks bf"
  let ?bf = "bf\<lparr>m_bitarray := (m_bitarray bf)[?q := ?c - 1], modified_blocks := ?bs\<rparr>"
  have pos: "0 < unat ?c"
    using Cons.prems(2) [OF q(2)] by (simp add: counter_def)
  then have "unat (?c - 1) = unat ?c - 1"
    by (simp add: unat_sub word_le_nat_alt)
  then have step: "counter ?bf p = counter bf p - (if p = ?q then 1 else 0)"
    if "p < unat (m_numBits bf)" for p
    using that Cons.prems(1) by (auto simp: counter_def wf_cbf_def nth_list_update)
  have "wf_cbf ?bf" using Cons.prems(1) by simp
  moreover have "count (mset (map (hash_index (m_numBits ?bf) key) is)) p \<le> counter ?bf p"
    if "p < unat (m_numBits ?bf)" for p
    using Cons.prems(2) [of p] step [of p] that by (simp split: if_splits)
  ultimately obtain cs bs where
    "delete_loop ?bf key is = Some (?bf\<lparr>m_bitarray := cs, modified_blocks := bs\<rparr>)"
    "length cs = length (m_bitarray bf)"
    and cs: "\<forall>p<unat (m_numBits bf). unat (cs ! p) =
      counter ?bf p - count (mset (map (hash_index (m_numBits bf) key) is)) p"
    using Cons.IH [of ?bf] by auto
  moreover have "delete_loop bf key (i # is) = delete_loop ?bf key is"
    using q w by (simp add: rd_ok wr_ok)
  ultimately show ?case
    using step by (intro exI [of _ cs] exI [of _ bs]) auto
qed

lemma query_loop_eq:
  assumes "wf_cbf bf"
  shows "query_loop bf key is =
     Some (\<forall>i\<in>set is. 0 < counter bf (hash_index (m_numBits bf) key i))"
proof (induction "is")
  case (Cons i "is")
  have "hash_index (m_numBits bf) key i < length (m_bitarray bf)"
    using hash_index_less [OF assms] assms by (simp add: wf_cbf_def)
  moreover obtain w where "ComputeHash bf key i = Some w" "unat w = hash_index (m_numBits bf) key i"
    using ComputeHash_eq [OF assms] by blast
  ultimately show ?case
    using Cons by (auto simp: rd_ok counter_def unat_gt_0)
qed simp

section \<open>The filter against the multiset of keys\<close>

lemma count_hits_pos:
  "0 < count (hits H n key) p \<longleftrightarrow> (\<exists>i\<in>set (salts H). hash_index n key i = p)"
  by (auto simp: hits_def count_greater_zero_iff)

lemma bf_Query_eq:
  assumes "wf_cbf bf"
  shows "bf_Query bf key =
     Some (\<forall>p\<in>#hits (m_numHashes bf) (m_numBits bf) key. 0 < counter bf p)"
  using query_loop_eq [OF assms] by (simp add: bf_Query_def hits_def)

lemma bf_Query_cong:
  assumes "m_numHashes a = m_numHashes b" "m_numBits a = m_numBits b" "m_bitarray a = m_bitarray b"
  shows "bf_Query a = bf_Query b"
proof
  fix key
  have "query_loop a key is = query_loop b key is" for "is"
    using assms by (induction "is") (simp_all add: ComputeHash_def cong: if_cong)
  with assms(1) show "bf_Query a key = bf_Query b key"
    by (simp add: bf_Query_def)
qed

lemma represents_dominates: "represents bf S \<Longrightarrow> dominates bf S"
  by (auto simp: represents_def dominates_def)

lemma represents_wf: "represents bf S \<Longrightarrow> wf_cbf bf"
  by (simp add: represents_def)

lemma hits_le_load: "k \<in># S \<Longrightarrow> hits (m_numHashes bf) (m_numBits bf) k \<subseteq># load bf S"
  by (metis insert_DiffM load_simps(2) mset_subset_eq_add_left)

lemma dominates_Query:
  assumes "dominates bf S" "k \<in># S"
  shows "bf_Query bf k = Some True"
proof -
  have "0 < counter bf p" if "p \<in># hits (m_numHashes bf) (m_numBits bf) k" for p
  proof -
    have "p < unat (m_numBits bf)"
      using that hash_index_less assms(1) by (auto simp: hits_def dominates_def)
    moreover have "0 < count (load bf S) p"
      using that hits_le_load [OF assms(2)] by (meson count_greater_zero_iff mset_subset_eqD)
    ultimately have "min 255 (count (load bf S) p) \<le> counter bf p" "0 < min 255 (count (load bf S) p)"
      using assms(1) by (simp_all add: dominates_def)
    then show ?thesis by linarith
  qed
  then show ?thesis
    using assms(1) by (simp add: bf_Query_eq dominates_def)
qed

lemma bf_Insert_counters:
  assumes "wf_cbf bf"
  shows "\<exists>bf'. bf_Insert bf key = Some bf' \<and> wf_cbf bf' \<and> m_numHashes bf' = m_numHashes bf \<and>
     m_numBits bf' = m_numBits bf \<and> (\<forall>p<unat (m_numBits bf). counter bf' p =
       min 255 (counter bf p + count (hits (m_numHashes bf) (m_numBits bf) key) p))"
  using insert_loop_counters [OF assms, of key "salts (m_numHashes bf)"] assms
  by (fastforce simp: bf_Insert_def hits_def counter_def)

lemma load_same: "m_numHashes b = m_numHashes a \<Longrightarrow> m_numBits b = m_numBits a \<Longrightarrow> load b = load a"
  by (simp add: load_def fun_eq_iff)

lemma bf_Insert_dominates:
  assumes "dominates bf S"
  shows "\<exists>bf'. bf_Insert bf key = Some bf' \<and> dominates bf' (add_mset key S) \<and>
     m_numHashes bf' = m_numHashes bf \<and> m_numBits bf' = m_numBits bf"
proof -
  have wf: "wf_cbf bf" using assms by (simp add: dominates_def)
  obtain bf' where bf': "bf_Insert bf key = Some bf'" "wf_cbf bf'" "m_numHashes bf' = m_numHashes bf"
    "m_numBits bf' = m_numBits bf" and c: "\<forall>p<unat (m_numBits bf). counter bf' p =
       min 255 (counter bf p + count (hits (m_numHashes bf) (m_numBits bf) key) p)"
    using bf_Insert_counters [OF wf] by blast
  have "dominates bf' (add_mset key S)"
    using assms bf' c by (auto simp: dominates_def load_same [OF bf'(3,4)] min_def split: if_splits)
  with bf' show ?thesis by blast
qed

lemma bf_Insert_represents:
  assumes "represents bf S" "unsaturated bf (add_mset key S)"
  shows "\<exists>bf'. bf_Insert bf key = Some bf' \<and> represents bf' (add_mset key S) \<and>
     m_numHashes bf' = m_numHashes bf \<and> m_numBits bf' = m_numBits bf"
proof -
  obtain bf' where bf': "bf_Insert bf key = Some bf'" "wf_cbf bf'" "m_numHashes bf' = m_numHashes bf"
    "m_numBits bf' = m_numBits bf" and c: "\<forall>p<unat (m_numBits bf). counter bf' p =
       min 255 (counter bf p + count (hits (m_numHashes bf) (m_numBits bf) key) p)"
    using bf_Insert_counters [OF represents_wf [OF assms(1)]] by blast
  have "represents bf' (add_mset key S)"
    using assms bf' c
    by (auto simp: represents_def unsaturated_def load_same [OF bf'(3,4)] min_def add.commute)
  with bf' show ?thesis by blast
qed

lemma bf_Delete_counters:
  assumes "wf_cbf bf"
    and le: "\<And>p. p < unat (m_numBits bf) \<Longrightarrow>
      count (hits (m_numHashes bf) (m_numBits bf) key) p \<le> counter bf p"
  shows "\<exists>bf'. bf_Delete bf key = Some (bf', True) \<and> wf_cbf bf' \<and>
     m_numHashes bf' = m_numHashes bf \<and> m_numBits bf' = m_numBits bf \<and>
     (\<forall>p<unat (m_numBits bf). counter bf' p =
       counter bf p - count (hits (m_numHashes bf) (m_numBits bf) key) p)"
proof -
  let ?H = "hits (m_numHashes bf) (m_numBits bf) key"
  obtain cs bs where
    d: "delete_loop bf key (salts (m_numHashes bf)) =
          Some (bf\<lparr>m_bitarray := cs, modified_blocks := bs\<rparr>)"
    and cs: "length cs = length (m_bitarray bf)" "\<forall>p<unat (m_numBits bf).
      unat (cs ! p) = counter bf p - count ?H p"
    using delete_loop_counters [OF assms(1), of key "salts (m_numHashes bf)"] le
    by (auto simp: hits_def)
  have "0 < counter bf p" if "p \<in># ?H" for p
  proof -
    have "p < unat (m_numBits bf)"
      using that hash_index_less [OF assms(1)] by (auto simp: hits_def)
    then show ?thesis
      using le [of p] that by (metis count_greater_zero_iff order.strict_trans2)
  qed
  then have "bf_Query bf key = Some True"
    using assms(1) by (simp add: bf_Query_eq)
  then show ?thesis
    using d cs assms(1) by (simp add: bf_Delete_def counter_def)
qed

lemma bf_Delete_represents:
  assumes "represents bf S" "key \<in># S"
  shows "\<exists>bf'. bf_Delete bf key = Some (bf', True) \<and> represents bf' (S - {#key#}) \<and>
     m_numHashes bf' = m_numHashes bf \<and> m_numBits bf' = m_numBits bf"
proof -
  let ?H = "hits (m_numHashes bf) (m_numBits bf) key"
  have wf: "wf_cbf bf" by (rule represents_wf [OF assms(1)])
  have le: "count ?H p \<le> counter bf p" if "p < unat (m_numBits bf)" for p
    using hits_le_load [OF assms(2), of bf] assms(1) that
    by (auto simp: represents_def subseteq_mset_def)
  obtain bf' where bf': "bf_Delete bf key = Some (bf', True)" "wf_cbf bf'"
    "m_numHashes bf' = m_numHashes bf" "m_numBits bf' = m_numBits bf"
    and c: "\<forall>p<unat (m_numBits bf). counter bf' p = counter bf p - count ?H p"
    using bf_Delete_counters [OF wf le] by blast
  have "load bf S = ?H + load bf (S - {#key#})"
    by (metis assms(2) insert_DiffM load_simps(2))
  then have "represents bf' (S - {#key#})"
    using assms(1) bf' c by (simp add: represents_def load_same [OF bf'(3,4)])
  with bf' show ?thesis by blast
qed

lemma represents_new: "0 < unat n \<Longrightarrow> unat n \<le> 2 ^ 31 \<Longrightarrow> represents (new_cbf H n) {#}"
  by (simp add: represents_def wf_new_cbf) (simp add: counter_def new_cbf_def)

section \<open>The bit array\<close>

definition bit_at :: "u64 list \<Rightarrow> nat \<Rightarrow> bool" where
  "bit_at ws i = bit (ws ! (i div 64)) (63 - i mod 64)"

lemma bit_check_bit: "n < 64 \<Longrightarrow> bit (check_bit idx) n \<longleftrightarrow> n = 63 - unat idx mod 64"
  by (auto simp: check_bit_def bit_simps unat_mod)

lemma and_check_bit: "w AND check_bit idx = 0 \<longleftrightarrow> \<not> bit w (63 - unat idx mod 64)"
proof -
  let ?m = "63 - unat idx mod 64"
  have "w AND check_bit idx = (if bit w ?m then check_bit idx else 0)"
  proof (rule bit_word_eqI)
    fix n assume "n < LENGTH(64)"
    then show "bit (w AND check_bit idx) n \<longleftrightarrow> bit (if bit w ?m then check_bit idx else 0) n"
      by (cases "n = ?m") (simp_all add: bit_and_iff bit_check_bit)
  qed
  moreover have "bit (check_bit idx) ?m" by (simp add: bit_check_bit)
  then have "check_bit idx \<noteq> 0" by (metis bit_0_eq bot_apply bot_bool_def)
  ultimately show ?thesis by simp
qed

lemma bit_at_update:
  assumes "i div 64 < length ws" "i < 2 ^ 64" "m div 64 < length ws"
  shows "bit_at (ws[i div 64 := ws ! (i div 64) OR check_bit (of_nat i)]) m \<longleftrightarrow>
           bit_at ws m \<or> m = i"
proof -
  have "unat (of_nat i :: u64) = i"
    using assms(2) by (simp add: unat_of_nat_small)
  moreover have "63 - m mod 64 = 63 - i mod 64 \<longleftrightarrow> m mod 64 = i mod 64"
    using mod_less_divisor [of 64 m] mod_less_divisor [of 64 i] by linarith
  then have "m = i \<longleftrightarrow> m div 64 = i div 64 \<and> 63 - m mod 64 = 63 - i mod 64"
    by (metis div_mult_mod_eq)
  ultimately show ?thesis
    using assms(1,3) by (auto simp: bit_at_def nth_list_update bit_or_iff bit_check_bit)
qed

lemma clear_loop_eq:
  assumes "\<And>i. i \<in> set is \<Longrightarrow> i < length ws"
  shows "\<exists>ws'. clear_loop ws is = Some ws' \<and> length ws' = length ws \<and>
     (\<forall>j<length ws. ws' ! j = (if j \<in> set is then 0 else ws ! j))"
  using assms
proof (induction "is" arbitrary: ws)
  case (Cons i "is")
  then obtain ws' where "clear_loop (ws[i := 0]) is = Some ws'" "length ws' = length ws"
    "\<forall>j<length ws. ws' ! j = (if j \<in> set is then 0 else ws[i := 0] ! j)"
    using Cons.IH [of "ws[i := 0]"] by auto
  with Cons.prems show ?case by (auto simp: wr_ok nth_list_update)
qed simp

lemma set_loop_eq:
  assumes "\<And>i. i \<in> set is \<Longrightarrow> i < length cs \<and> i div 64 < length ws \<and> i < 2 ^ 64"
  shows "\<exists>ws'. set_loop cs ws is = Some ws' \<and> length ws' = length ws \<and>
     (\<forall>m. m div 64 < length ws \<longrightarrow> bit_at ws' m = (bit_at ws m \<or> m \<in> set is \<and> 0 < cs ! m))"
  using assms
proof (induction "is" arbitrary: ws)
  case (Cons i "is")
  let ?ws = "if 0 < cs ! i then ws[i div 64 := ws ! (i div 64) OR check_bit (of_nat i)] else ws"
  obtain ws' where ws': "set_loop cs ?ws is = Some ws'" "length ws' = length ws"
    "\<forall>m. m div 64 < length ws \<longrightarrow> bit_at ws' m = (bit_at ?ws m \<or> m \<in> set is \<and> 0 < cs ! m)"
    using Cons.IH [of ?ws] Cons.prems by (cases "0 < cs ! i") auto
  moreover have "set_loop cs ws (i # is) = set_loop cs ?ws is"
    using Cons.prems by (auto simp: rd_ok wr_ok)
  moreover have "bit_at ?ws m = (bit_at ws m \<or> m = i \<and> 0 < cs ! m)" if "m div 64 < length ws" for m
    using that Cons.prems bit_at_update [of i ws m] by auto
  ultimately show ?case by auto
qed simp

lemma ToOrdinary_bits:
  assumes "wf_cbf bf"
  shows "\<exists>ws. ToOrdinaryBloomFilter bf = Some (bf\<lparr>m_boolbitarray := ws\<rparr>) \<and>
     length ws = unat (m_numLongs bf) \<and>
     (\<forall>i<64 * unat (m_numLongs bf). bit_at ws i = (i < unat (m_numBits bf) \<and> 0 < counter bf i))"
proof -
  let ?N = "unat (m_numBits bf)" and ?L = "unat (m_numLongs bf)"
  have N: "?N \<le> 2 ^ 31" and L: "?L = (63 + ?N) div 64" and lens: "length (m_bitarray bf) = ?N"
    "length (m_boolbitarray bf) = ?L"
    using assms by (auto simp: wf_cbf_def BITS_TO_LONGS_unat)
  obtain ws where ws: "clear_loop (m_boolbitarray bf) [0..<?L] = Some ws" "length ws = ?L"
    "\<forall>j<?L. ws ! j = 0"
    using clear_loop_eq [of "[0..<?L]" "m_boolbitarray bf"] lens by auto
  have "i < length (m_bitarray bf) \<and> i div 64 < length ws \<and> i < 2 ^ 64" if "i \<in> set [0..<?N]" for i
    using that N L lens ws(2) by auto
  from set_loop_eq [of "[0..<?N]", OF this] obtain ws' where "set_loop (m_bitarray bf) ws [0..<?N] = Some ws'"
    "length ws' = ?L" and b: "\<forall>m. m div 64 < ?L \<longrightarrow>
      bit_at ws' m = (bit_at ws m \<or> m \<in> set [0..<?N] \<and> 0 < m_bitarray bf ! m)"
    using ws(2) by auto
  moreover have "\<not> bit_at ws i" if "i < 64 * ?L" for i
    using that ws(3) by (simp add: bit_at_def less_mult_imp_div_less mult.commute)
  ultimately show ?thesis
    using ws(1) by (auto simp: ToOrdinaryBloomFilter_def counter_def less_mult_imp_div_less
        mult.commute unat_gt_0 word_gt_0)
qed

lemma query_bit_loop_eq:
  assumes "wf_cbf bf"
  shows "query_bit_loop bf key is =
     Some (\<forall>i\<in>set is. bit_at (m_boolbitarray bf) (hash_index (m_numBits bf) key i))"
proof (induction "is")
  case (Cons i "is")
  have "hash_index (m_numBits bf) key i div 64 < length (m_boolbitarray bf)"
    using hash_index_less [OF assms, of key i] assms by (auto simp: wf_cbf_def BITS_TO_LONGS_unat)
  moreover obtain w where "ComputeHash bf key i = Some w" "unat w = hash_index (m_numBits bf) key i"
    using ComputeHash_eq [OF assms] by blast
  ultimately show ?case
    using Cons by (auto simp: rd_ok bit_at_def and_check_bit unat_div)
qed simp

lemma counter_boolbitarray [simp]: "counter (bf\<lparr>m_boolbitarray := ws\<rparr>) p = counter bf p"
  by (simp add: counter_def)

lemma QueryBitBloom_eq:
  assumes "wf_cbf bf" "ToOrdinaryBloomFilter bf = Some bf'"
  shows "QueryBitBloom bf' key = bf_Query bf key"
proof -
  obtain ws where bf': "bf' = bf\<lparr>m_boolbitarray := ws\<rparr>" and len: "length ws = unat (m_numLongs bf)"
    and bits: "\<forall>i<64 * unat (m_numLongs bf). bit_at ws i = (i < unat (m_numBits bf) \<and> 0 < counter bf i)"
    using ToOrdinary_bits [OF assms(1)] assms(2) by auto
  have wf': "wf_cbf bf'"
    using assms(1) len by (simp add: bf' wf_cbf_def)
  have "unat (m_numBits bf) \<le> 64 * unat (m_numLongs bf)"
    using assms(1) by (auto simp: wf_cbf_def BITS_TO_LONGS_unat)
  then have "bit_at ws (hash_index (m_numBits bf) key i) =
      (0 < counter bf (hash_index (m_numBits bf) key i))" for i
    using bits hash_index_less [OF assms(1), of key i] by simp
  then show ?thesis
    using query_bit_loop_eq [OF wf'] query_loop_eq [OF assms(1)]
    by (simp add: QueryBitBloom_def bf_Query_def bf')
qed

section \<open>The serialised form\<close>

lemma write_loop_eq:
  "\<forall>i\<in>set is. i < length cs \<Longrightarrow> write_loop cs is os = Some (os @ map (\<lambda>i. cs ! i) is)"
  by (induction "is" arbitrary: os) (simp_all add: rd_ok)

lemma read_loop_eq:
  assumes "i + length bs \<le> length cs"
  shows "read_loop cs [i..<i + length bs] bs =
           Some (take i cs @ bs @ drop (i + length bs) cs)"
  using assms
proof (induction bs arbitrary: i cs)
  case Nil
  then show ?case by simp
next
  case (Cons b bs)
  then have "i < length cs" by simp
  then have "take (Suc i) (cs[i := b]) = take i cs @ [b]"
    by (simp add: take_Suc_conv_app_nth)
  with Cons.IH [of "Suc i" "cs[i := b]"] Cons.prems \<open>i < length cs\<close> show ?case
    by (simp add: upt_conv_Cons wr_ok del: upt_Suc)
qed

lemma ucast_u16_bytes:
  fixes n :: u16
  shows "(ucast (ucast n :: u8) OR push_bit 8 (ucast (ucast (drop_bit 8 n) :: u8)) :: u16) = n"
proof (rule bit_word_eqI)
  fix i assume "i < LENGTH(16)"
  then show "bit (ucast (ucast n :: u8) OR push_bit 8 (ucast (ucast (drop_bit 8 n) :: u8)) :: u16) i
      = bit n i"
    by (cases "i < 8") (auto simp: bit_simps bit_unsigned_iff)
qed

lemma unat_numBits16: "unat (ucast (ucast n :: u16) :: u64) = unat n mod 65536"
  for n :: u64
  by (simp add: unsigned_ucast_eq take_bit_eq_mod unat_mod)

lemma Deserialize_Serialize:
  assumes "length (m_bitarray bf) = unat (m_numBits bf)"
  shows "Serialize bf \<bind> Deserialize =
     Some ((new_cbf (m_numHashes bf) (ucast (ucast (m_numBits bf) :: u16)))
       \<lparr>m_bitarray := take (unat (m_numBits bf) mod 65536) (m_bitarray bf)\<rparr>)"
proof -
  let ?n = "unat (m_numBits bf) mod 65536"
  have n16: "unat (ucast (m_numBits bf) :: u16) = ?n"
    by (simp add: unsigned_ucast_eq take_bit_eq_mod)
  have le: "?n \<le> length (m_bitarray bf)"
    using assms by simp
  then have "map (\<lambda>i. m_bitarray bf ! i) [0..<?n] = take ?n (m_bitarray bf)"
    by (simp add: list_eq_iff_nth_eq)
  then have "Serialize bf = Some (m_numHashes bf # ucast (ucast (m_numBits bf) :: u16) #
      ucast (drop_bit 8 (ucast (m_numBits bf) :: u16)) # take ?n (m_bitarray bf))"
    using le by (simp add: Serialize_def Let_def n16 write_loop_eq)
  moreover have "read_loop (m_bitarray (new_cbf (m_numHashes bf) (ucast (ucast (m_numBits bf) :: u16))))
      [0..<?n] (take ?n (m_bitarray bf)) = Some (take ?n (m_bitarray bf))"
    using read_loop_eq [of 0 "take ?n (m_bitarray bf)" "replicate ?n 0"] min_absorb2 [OF le]
    by (simp add: new_cbf_def unat_numBits16)
  ultimately show ?thesis
    by (simp add: Let_def n16 ucast_u16_bytes)
qed

section \<open>Histories of the filter\<close>

text \<open>
  A sequence of operations on the filter and what it does to the multiset of keys. A history
  is legal when it deletes only keys that are present and no insertion saturates a counter.
\<close>

datatype bf_op = Ins Key_t | Del Key_t

fun bf_step :: "cbf \<Rightarrow> bf_op \<Rightarrow> cbf option" where
  "bf_step bf (Ins k) = bf_Insert bf k"
| "bf_step bf (Del k) = map_option fst (bf_Delete bf k)"

fun bf_run :: "cbf \<Rightarrow> bf_op list \<Rightarrow> cbf option" where
  "bf_run bf [] = Some bf"
| "bf_run bf (x # xs) = bf_step bf x \<bind> (\<lambda>bf'. bf_run bf' xs)"

fun key_step :: "Key_t multiset \<Rightarrow> bf_op \<Rightarrow> Key_t multiset" where
  "key_step S (Ins k) = add_mset k S"
| "key_step S (Del k) = S - {#k#}"

fun legal_step :: "cbf \<Rightarrow> Key_t multiset \<Rightarrow> bf_op \<Rightarrow> bool" where
  "legal_step bf S (Ins k) = unsaturated bf (add_mset k S)"
| "legal_step bf S (Del k) = (k \<in># S)"

fun legal :: "cbf \<Rightarrow> Key_t multiset \<Rightarrow> bf_op list \<Rightarrow> bool" where
  "legal bf S [] = True"
| "legal bf S (x # xs) = (legal_step bf S x \<and> legal bf (key_step S x) xs)"

lemma size_load: "size (load bf S) = size S * unat (m_numHashes bf)"
  by (induction S) (simp_all add: hits_def salts_def)

lemma unsaturated_small:
  assumes "size S * unat (m_numHashes bf) \<le> 255"
  shows "unsaturated bf S"
  unfolding unsaturated_def
proof (intro allI impI)
  fix p
  have "count (load bf S) p \<le> size (load bf S)" by (rule count_le_size)
  also have "\<dots> \<le> 255" using assms by (simp add: size_load)
  finally show "count (load bf S) p \<le> 255" .
qed

lemma bf_step_represents:
  assumes "represents bf S" "legal_step bf S x"
  shows "\<exists>bf'. bf_step bf x = Some bf' \<and> represents bf' (key_step S x) \<and>
     m_numHashes bf' = m_numHashes bf \<and> m_numBits bf' = m_numBits bf"
proof (cases x)
  case (Ins k)
  with assms show ?thesis using bf_Insert_represents [of bf S k] by auto
next
  case (Del k)
  with assms show ?thesis using bf_Delete_represents [of bf S k] by auto
qed

lemma legal_same:
  "m_numHashes b = m_numHashes a \<Longrightarrow> m_numBits b = m_numBits a \<Longrightarrow> legal b S xs = legal a S xs"
proof (induction xs arbitrary: S)
  case (Cons x xs)
  then have "legal_step b S x = legal_step a S x"
    by (cases x) (simp_all add: unsaturated_def load_def)
  with Cons show ?case by simp
qed simp

lemma bf_run_represents:
  assumes "represents bf S" "legal bf S xs"
  shows "\<exists>bf'. bf_run bf xs = Some bf' \<and> represents bf' (foldl key_step S xs)"
  using assms
proof (induction xs arbitrary: bf S)
  case (Cons x xs)
  then obtain bf' where bf': "bf_step bf x = Some bf'" "represents bf' (key_step S x)"
    "m_numHashes bf' = m_numHashes bf" "m_numBits bf' = m_numBits bf"
    using bf_step_represents [of bf S x] by auto
  with Cons.prems have "legal bf' (key_step S x) xs"
    using legal_same [OF bf'(3,4)] by simp
  with Cons.IH bf' show ?case by simp
qed simp

text \<open>
  C7: a legal history of insertions and deletions never faults, leaves every counter equal to
  the number of hits of the keys that are then present, and the query of each of these keys
  answers true: no false negative.
\<close>

theorem bloom_history_exact:
  assumes "0 < unat numBits" "unat numBits \<le> 2 ^ 31"
    and "legal (new_cbf numHashes numBits) {#} ops"
  shows "\<exists>bf. bf_run (new_cbf numHashes numBits) ops = Some bf \<and>
     represents bf (foldl key_step {#} ops) \<and>
     (\<forall>k. k \<in># foldl key_step {#} ops \<longrightarrow> bf_Query bf k = Some True)"
  using bf_run_represents [OF represents_new [OF assms(1,2)] assms(3)]
    dominates_Query [OF represents_dominates] by blast

lemma bloom_history_exact_witness:
  "\<exists>bf. bf_run (new_cbf 4 64) [Ins 7, Ins 9, Ins 7, Del 7] = Some bf \<and>
     represents bf {#9, 7#} \<and>
     (\<forall>k. k \<in># {#9, 7#} \<longrightarrow> bf_Query bf k = Some True)"
proof -
  have "legal (new_cbf 4 64) {#} [Ins 7, Ins 9, Ins 7, Del 7]"
    by (simp add: unsaturated_small new_cbf_def)
  then show ?thesis
    using bloom_history_exact [of 64 4 "[Ins 7, Ins 9, Ins 7, Del 7]"]
    by (simp add: add_mset_commute)
qed

fun insert_all :: "cbf \<Rightarrow> Key_t list \<Rightarrow> cbf option" where
  "insert_all bf [] = Some bf"
| "insert_all bf (k # ks) = bf_Insert bf k \<bind> (\<lambda>bf'. insert_all bf' ks)"

lemma insert_all_dominates:
  assumes "dominates bf S"
  shows "\<exists>bf'. insert_all bf ks = Some bf' \<and> dominates bf' (S + mset ks)"
  using assms
proof (induction ks arbitrary: bf S)
  case (Cons k ks)
  then obtain bf' where "bf_Insert bf k = Some bf'" "dominates bf' (add_mset k S)"
    using bf_Insert_dominates by blast
  with Cons.IH [of bf' "add_mset k S"] show ?case by simp
qed simp

text \<open>
  With one counter the counters after insertions and deletions are known exactly, also past
  saturation.
\<close>

definition one_counter :: "cbf \<Rightarrow> nat \<Rightarrow> bool" where
  "one_counter bf c \<longleftrightarrow> wf_cbf bf \<and> m_numHashes bf = 1 \<and> m_numBits bf = 1 \<and> counter bf 0 = c"

lemma hits_one: "hits 1 1 key = {#0#}"
  by (simp add: hits_def salts_def hash_index_def)

lemma one_counter_inserts:
  "one_counter bf c \<Longrightarrow> c \<le> 255 \<Longrightarrow>
     \<exists>bf'. bf_run bf (map Ins ks) = Some bf' \<and> one_counter bf' (min 255 (c + length ks))"
proof (induction ks arbitrary: bf c)
  case (Cons k ks)
  then obtain bf' where "bf_Insert bf k = Some bf'" "one_counter bf' (min 255 (c + 1))"
    using bf_Insert_counters [of bf k] by (auto simp: one_counter_def hits_one)
  with Cons.IH [of bf' "min 255 (c + 1)"] show ?case by (simp add: min_def split: if_splits)
qed (simp add: min_def)

lemma one_counter_deletes:
  "one_counter bf c \<Longrightarrow> length ks \<le> c \<Longrightarrow>
     \<exists>bf'. bf_run bf (map Del ks) = Some bf' \<and> one_counter bf' (c - length ks)"
proof (induction ks arbitrary: bf c)
  case (Cons k ks)
  then obtain bf' where "bf_Delete bf k = Some (bf', True)" "one_counter bf' (c - 1)"
    using bf_Delete_counters [of bf k] by (auto simp: one_counter_def hits_one)
  with Cons.IH [of bf' "c - 1"] Cons.prems show ?case by simp
qed simp

lemma bf_run_append: "bf_run bf (xs @ ys) = bf_run bf xs \<bind> (\<lambda>bf'. bf_run bf' ys)"
  by (induction xs arbitrary: bf) (auto split: bind_splits)

text \<open>
  C32: insertions alone never produce a false negative, however many keys are added: a
  saturated counter stays at 255 instead of wrapping to zero.
\<close>

theorem bloom_inserts_no_false_negative:
  assumes "0 < unat numBits" "unat numBits \<le> 2 ^ 31"
  shows "\<exists>bf. insert_all (new_cbf numHashes numBits) ks = Some bf \<and>
     (\<forall>k. k \<in> set ks \<longrightarrow> bf_Query bf k = Some True)"
  using insert_all_dominates [OF represents_dominates [OF represents_new [OF assms]], of numHashes ks]
    dominates_Query by (metis add_0 set_mset_mset)

lemma bloom_inserts_no_false_negative_witness:
  "\<exists>bf. insert_all (new_cbf 4 64) (replicate 300 5) = Some bf \<and>
     (\<forall>k. k \<in> set (replicate 300 5) \<longrightarrow> bf_Query bf k = Some True)"
  by (rule bloom_inserts_no_false_negative) simp_all


text \<open>
  C11: after \<open>ToOrdinaryBloomFilter\<close> the bit array answers every query exactly as the counters
  do, bit for bit: \<open>QueryBitBloom\<close> on the result equals \<open>Query\<close> on the original.
\<close>

theorem bit_bloom_equivalent:
  assumes "wf_cbf bf"
  shows "\<exists>bf'. ToOrdinaryBloomFilter bf = Some bf' \<and>
     (\<forall>key. QueryBitBloom bf' key = bf_Query bf key) \<and> bf_Query bf' = bf_Query bf"
proof -
  obtain bf' where bf': "ToOrdinaryBloomFilter bf = Some bf'" and eq: "bf' = bf\<lparr>m_boolbitarray := m_boolbitarray bf'\<rparr>"
    using ToOrdinary_bits [OF assms] by auto
  have "bf_Query bf' = bf_Query bf"
    by (subst eq) (rule bf_Query_cong; simp)
  with bf' QueryBitBloom_eq [OF assms bf'] show ?thesis by blast
qed

lemma bit_bloom_equivalent_witness:
  "wf_cbf (new_cbf 4 100) \<and> (\<exists>bf'. ToOrdinaryBloomFilter (new_cbf 4 100) = Some bf' \<and>
     (\<forall>key. QueryBitBloom bf' key = bf_Query (new_cbf 4 100) key) \<and>
     bf_Query bf' = bf_Query (new_cbf 4 100))"
  using bit_bloom_equivalent [of "new_cbf 4 100"] wf_new_cbf [of 100 4] by simp

text \<open>
  C34: \<open>Deserialize\<close> after \<open>Serialize\<close> restores every counter and the answer of every query
  when the filter has fewer than 65536 bits, the range of the 16-bit field of the format.
\<close>

theorem bloom_serialize_roundtrip:
  assumes "length (m_bitarray bf) = unat (m_numBits bf)" "unat (m_numBits bf) < 65536"
  shows "\<exists>bf'. Serialize bf \<bind> Deserialize = Some bf' \<and> m_bitarray bf' = m_bitarray bf \<and>
     m_numHashes bf' = m_numHashes bf \<and> m_numBits bf' = m_numBits bf \<and>
     (\<forall>key. bf_Query bf' key = bf_Query bf key)"
proof -
  have n: "(ucast (ucast (m_numBits bf) :: u16) :: u64) = m_numBits bf"
    using assms(2) by (simp add: word_unat_eq_iff unat_numBits16)
  let ?bf = "(new_cbf (m_numHashes bf) (m_numBits bf))\<lparr>m_bitarray := m_bitarray bf\<rparr>"
  have "bf_Query ?bf = bf_Query bf"
    by (rule bf_Query_cong) (simp_all add: new_cbf_def)
  then show ?thesis
    using Deserialize_Serialize [OF assms(1)] assms n by (simp add: new_cbf_def)
qed

lemma bloom_serialize_roundtrip_witness:
  "\<exists>bf'. Serialize (new_cbf 4 300) \<bind> Deserialize = Some bf' \<and>
     m_bitarray bf' = m_bitarray (new_cbf 4 300) \<and> m_numHashes bf' = m_numHashes (new_cbf 4 300) \<and>
     m_numBits bf' = m_numBits (new_cbf 4 300) \<and>
     (\<forall>key. bf_Query bf' key = bf_Query (new_cbf 4 300) key)"
  by (rule bloom_serialize_roundtrip) (simp_all add: new_cbf_def)

text \<open>
  From 65536 bits on the format loses the filter: what comes back has fewer bits than what
  was written, and the production size of one billion bits comes back as 51712.
\<close>

lemma bloom_serialize_truncates:
  assumes "length (m_bitarray bf) = unat (m_numBits bf)" "65536 \<le> unat (m_numBits bf)"
  shows "\<exists>bf'. Serialize bf \<bind> Deserialize = Some bf' \<and>
     unat (m_numBits bf') = unat (m_numBits bf) mod 65536 \<and>
     unat (m_numBits bf') < unat (m_numBits bf)"
proof -
  have "unat (m_numBits bf) mod 65536 < unat (m_numBits bf)"
    using assms(2) mod_less_divisor [of 65536 "unat (m_numBits bf)"] by linarith
  then show ?thesis
    unfolding Deserialize_Serialize [OF assms(1)] by (simp add: new_cbf_def unat_numBits16)
qed

lemma bloom_serialize_production_size:
  "\<exists>bf'. Serialize (new_cbf 4 1000000000) \<bind> Deserialize = Some bf' \<and>
     unat (m_numBits bf') = 51712"
  using bloom_serialize_truncates [of "new_cbf 4 1000000000"] by (auto simp: new_cbf_def)

end
