(* ===== verification/Client_Bloom.thy ===== *)
theory Client_Bloom
  imports Counting_Bloom
begin

text \<open>
  The Bloom filter of the client (\<^verbatim>\<open>client/bloom_filter.c\<close>): the plain bit array the kernel
  module consults before it asks the server for a page. The server overwrites it with its own
  bit array; the lemmas show that the two sides agree on the position of every bit, so that
  the client's check answers what the server's counters say.
\<close>

section \<open>State and operations\<close>

record bloom_filter =
  bitmap_size :: u32
  bitmap_size_in_byte :: u32
  nr_hash :: u32
  bitmap :: "u64 list"

text \<open>
  \<open>bits\<close> is the memory the caller passes by address, \<open>alloc\<close> whether \<^verbatim>\<open>kzalloc\<close> succeeds; a
  failed allocation returns \<^verbatim>\<open>ERR_PTR(-ENOMEM)\<close>.
\<close>

datatype bf_error = ENOMEM

definition bloom_filter_new :: "bool \<Rightarrow> u64 list \<Rightarrow> u32 \<Rightarrow> u32 \<Rightarrow> bf_error + bloom_filter" where
  "bloom_filter_new alloc bits num_hash bit_size =
     (if \<not> alloc then Inl ENOMEM
      else Inr \<lparr>bitmap_size = bit_size,
                bitmap_size_in_byte = ucast (BITS_TO_LONGS (ucast bit_size) * 8),
                nr_hash = num_hash, bitmap = bits\<rparr>)"

text \<open>The index of the \<open>i\<close>-th hash; a bitmap size of zero traps.\<close>

definition bf_index :: "bloom_filter \<Rightarrow> bytes \<Rightarrow> nat \<Rightarrow> u32 option" where
  "bf_index flt data i =
     (if bitmap_size flt = 0 then None
      else Some (ucast (murmur2 data (of_nat i) mod ucast (bitmap_size flt))))"

fun add_loop :: "bloom_filter \<Rightarrow> bytes \<Rightarrow> nat list \<Rightarrow> bloom_filter option" where
  "add_loop flt data [] = Some flt"
| "add_loop flt data (i # is) = do {
     index \<leftarrow> bf_index flt data i;
     w \<leftarrow> rd (bitmap flt) (unat (index div 64));
     bits \<leftarrow> wr (bitmap flt) (unat (index div 64)) (w OR check_bit (ucast index));
     add_loop (flt\<lparr>bitmap := bits\<rparr>) data is }"

definition bloom_filter_add :: "bloom_filter \<Rightarrow> bytes \<Rightarrow> bloom_filter option" where
  "bloom_filter_add flt data = add_loop flt data [0..<unat (nr_hash flt)]"

fun check_loop :: "bloom_filter \<Rightarrow> bytes \<Rightarrow> nat list \<Rightarrow> bool option" where
  "check_loop flt data [] = Some True"
| "check_loop flt data (i # is) = do {
     index \<leftarrow> bf_index flt data i;
     w \<leftarrow> rd (bitmap flt) (unat (index div 64));
     if w AND check_bit (ucast index) = 0 then Some False else check_loop flt data is }"

definition bloom_filter_check :: "bloom_filter \<Rightarrow> bytes \<Rightarrow> bool option" where
  "bloom_filter_check flt data = check_loop flt data [0..<unat (nr_hash flt)]"

text \<open>\<^verbatim>\<open>memcpy\<close> of as many words as the bitmap has; it faults if either side is shorter.\<close>

definition bloom_filter_set :: "bloom_filter \<Rightarrow> u64 list \<Rightarrow> bloom_filter option" where
  "bloom_filter_set flt bit_data =
     (let n = unat (BITS_TO_LONGS (ucast (bitmap_size flt)))
      in if n \<le> length bit_data \<and> n \<le> length (bitmap flt)
         then Some (flt\<lparr>bitmap := take n bit_data @ drop n (bitmap flt)\<rparr>) else None)"

definition bloom_filter_bitsize :: "bloom_filter \<Rightarrow> u32" where
  "bloom_filter_bitsize flt = ucast (BITS_TO_LONGS (ucast (bitmap_size flt)) * 8)"

section \<open>The bits of the client\<close>

definition wf_bloom :: "bloom_filter \<Rightarrow> bool" where
  "wf_bloom flt \<longleftrightarrow> 0 < unat (bitmap_size flt) \<and> unat (bitmap_size flt) \<le> 2 ^ 31 \<and>
     length (bitmap flt) = unat (BITS_TO_LONGS (ucast (bitmap_size flt)))"

definition bf_pos :: "bloom_filter \<Rightarrow> bytes \<Rightarrow> nat \<Rightarrow> nat" where
  "bf_pos flt data i = unat (murmur2 data (of_nat i)) mod unat (bitmap_size flt)"

lemma unat_ucast_u32_u64 [simp]: "unat (ucast (w :: u32) :: u64) = unat w"
proof -
  have "unat w < 2 ^ 64" using unat_bound [of w] by simp
  then show ?thesis by (simp add: unsigned_ucast_eq take_bit_nat_eq_self)
qed

lemma bf_index_eq:
  assumes "wf_bloom flt"
  shows "\<exists>index. bf_index flt data i = Some index \<and> unat index = bf_pos flt data i"
    and "bf_pos flt data i < unat (bitmap_size flt)"
    and "bf_pos flt data i div 64 < length (bitmap flt)"
proof -
  let ?x = "murmur2 data (of_nat i) mod ucast (bitmap_size flt) :: u64"
  have pos: "0 < unat (bitmap_size flt)" and le: "unat (bitmap_size flt) \<le> 2 ^ 31"
    using assms by (auto simp: wf_bloom_def)
  show lt: "bf_pos flt data i < unat (bitmap_size flt)"
    using pos by (simp add: bf_pos_def)
  have "unat ?x = bf_pos flt data i"
    by (simp add: unat_mod bf_pos_def)
  then show "\<exists>index. bf_index flt data i = Some index \<and> unat index = bf_pos flt data i"
    using lt le pos by (auto simp: bf_index_def unat_ucast_u64_u32)
  show "bf_pos flt data i div 64 < length (bitmap flt)"
    using assms lt by (auto simp: wf_bloom_def BITS_TO_LONGS_unat)
qed

lemma check_loop_eq:
  assumes "wf_bloom flt"
  shows "check_loop flt data is =
     Some (\<forall>i\<in>set is. bit_at (bitmap flt) (bf_pos flt data i))"
proof (induction "is")
  case (Cons i "is")
  obtain index where "bf_index flt data i = Some index" "unat index = bf_pos flt data i"
    using bf_index_eq(1) [OF assms] by blast
  then show ?case
    using Cons bf_index_eq(3) [OF assms, of data i]
    by (auto simp: rd_ok bit_at_def and_check_bit unat_div)
qed simp

lemma add_loop_eq:
  assumes "wf_bloom flt"
  shows "\<exists>bits. add_loop flt data is = Some (flt\<lparr>bitmap := bits\<rparr>) \<and>
     length bits = length (bitmap flt) \<and>
     (\<forall>m. m div 64 < length bits \<longrightarrow>
        bit_at bits m = (bit_at (bitmap flt) m \<or> m \<in> bf_pos flt data ` set is))"
  using assms
proof (induction "is" arbitrary: flt)
  case Nil
  then show ?case by (intro exI [of _ "bitmap flt"]) simp
next
  case (Cons i "is")
  let ?p = "bf_pos flt data i"
  let ?bits = "(bitmap flt)[?p div 64 := bitmap flt ! (?p div 64) OR check_bit (of_nat ?p)]"
  let ?f = "flt\<lparr>bitmap := ?bits\<rparr>"
  obtain index where ix: "bf_index flt data i = Some index" "unat index = ?p"
    using bf_index_eq(1) [OF Cons.prems] by blast
  note p = bf_index_eq(3) [OF Cons.prems, of data i]
  have p64: "?p < 2 ^ 64"
    using bf_index_eq(2) [OF Cons.prems, of data i] unat_bound [of "bitmap_size flt"] by simp
  then have "ucast index = (of_nat ?p :: u64)"
    using ix(2) by (simp add: word_unat_eq_iff unat_of_nat_small)
  then have step: "add_loop flt data (i # is) = add_loop ?f data is"
    using ix p by (simp add: rd_ok wr_ok unat_div)
  have bits: "bit_at ?bits m = (bit_at (bitmap flt) m \<or> m = ?p)"
    if "m div 64 < length (bitmap flt)" for m
    using bit_at_update [OF p p64 that] .
  have "wf_bloom ?f" "bf_pos ?f = bf_pos flt"
    using Cons.prems by (simp_all add: wf_bloom_def bf_pos_def fun_eq_iff)
  with Cons.IH [of ?f] obtain bs where "add_loop ?f data is = Some (flt\<lparr>bitmap := bs\<rparr>)"
    "length bs = length (bitmap flt)" "\<forall>m. m div 64 < length bs \<longrightarrow>
        bit_at bs m = (bit_at ?bits m \<or> m \<in> bf_pos flt data ` set is)"
    by auto
  with step bits show ?case by auto
qed

lemma bf_pos_bitmap [simp]: "bf_pos (flt\<lparr>bitmap := bits\<rparr>) = bf_pos flt"
  by (simp add: bf_pos_def fun_eq_iff)

lemma wf_bloom_bitmap:
  "wf_bloom flt \<Longrightarrow> length bits = length (bitmap flt) \<Longrightarrow> wf_bloom (flt\<lparr>bitmap := bits\<rparr>)"
  by (simp add: wf_bloom_def)

text \<open>
  After \<open>bloom_filter_add\<close> of a datum the check of it answers true, and the check of every
  datum that answered true before still does: the client's filter never forgets a key.
\<close>

lemma bloom_filter_add_check:
  assumes "wf_bloom flt"
  shows "\<exists>flt'. bloom_filter_add flt data = Some flt' \<and> wf_bloom flt' \<and>
     bloom_filter_check flt' data = Some True \<and>
     (\<forall>d. bloom_filter_check flt d = Some True \<longrightarrow> bloom_filter_check flt' d = Some True)"
proof -
  obtain bits where add: "bloom_filter_add flt data = Some (flt\<lparr>bitmap := bits\<rparr>)"
    and len: "length bits = length (bitmap flt)"
    and bits: "\<forall>m. m div 64 < length bits \<longrightarrow> bit_at bits m =
      (bit_at (bitmap flt) m \<or> m \<in> bf_pos flt data ` set [0..<unat (nr_hash flt)])"
    using add_loop_eq [OF assms, of data "[0..<unat (nr_hash flt)]"] by (auto simp: bloom_filter_add_def)
  note wf' = wf_bloom_bitmap [OF assms len]
  have in_range: "bf_pos flt d i div 64 < length bits" for d i
    using bf_index_eq(3) [OF assms] len by simp
  show ?thesis
    using add wf' bits in_range
    by (simp add: bloom_filter_check_def check_loop_eq [OF wf'] check_loop_eq [OF assms])
qed

section \<open>Agreement with the server\<close>

text \<open>A client filter configured as the server's: same number of bits and hashes.\<close>

definition same_shape :: "cbf \<Rightarrow> bloom_filter \<Rightarrow> bool" where
  "same_shape bf flt \<longleftrightarrow> unat (bitmap_size flt) = unat (m_numBits bf) \<and>
     unat (nr_hash flt) = unat (m_numHashes bf) \<and>
     length (bitmap flt) = unat (m_numLongs bf)"

lemma same_shape_BITS_TO_LONGS:
  "same_shape bf flt \<Longrightarrow> ucast (bitmap_size flt) = m_numBits bf"
  by (simp add: same_shape_def word_unat_eq_iff)

lemma same_shape_wf: "wf_cbf bf \<Longrightarrow> same_shape bf flt \<Longrightarrow> wf_bloom flt"
  by (auto simp: wf_bloom_def wf_cbf_def same_shape_BITS_TO_LONGS) (auto simp: same_shape_def)

lemma same_shape_index:
  assumes "same_shape bf flt" "i < unat (m_numHashes bf)"
  shows "bf_pos flt (bytes_of_u64 key) i = hash_index (m_numBits bf) key (of_nat i)"
proof -
  have "i < 256" using assms(2) unat_bound [of "m_numHashes bf"] by simp
  then have "(ucast (of_nat i :: u8) :: u64) = of_nat i"
    by (simp add: word_unat_eq_iff unsigned_ucast_eq unat_of_nat take_bit_nat_eq_self)
  then show ?thesis
    using assms(1) by (simp add: bf_pos_def hash_index_def unat_mod same_shape_def)
qed

lemma check_equals_query_bits:
  assumes "wf_cbf bf" "same_shape bf flt" "bitmap flt = m_boolbitarray bf"
  shows "bloom_filter_check flt (bytes_of_u64 key) = QueryBitBloom bf key"
proof -
  have "(\<forall>i\<in>{0..<unat (m_numHashes bf)}. bit_at (m_boolbitarray bf) (bf_pos flt (bytes_of_u64 key) i)) =
        (\<forall>i\<in>set (salts (m_numHashes bf)). bit_at (m_boolbitarray bf) (hash_index (m_numBits bf) key i))"
    using same_shape_index [OF assms(2), of _ key] by (auto simp: salts_def)
  then show ?thesis
    using assms by (simp add: bloom_filter_check_def QueryBitBloom_def query_bit_loop_eq
        check_loop_eq [OF same_shape_wf] same_shape_def)
qed

lemma server_filter_transfer:
  assumes "wf_cbf bf" "same_shape bf flt"
  shows "\<exists>bf' flt'. ToOrdinaryBloomFilter bf = Some bf' \<and>
     bloom_filter_set flt (m_boolbitarray bf') = Some flt' \<and>
     (\<forall>key. bloom_filter_check flt' (bytes_of_u64 key) = bf_Query bf key)"
proof -
  obtain ws where bf': "ToOrdinaryBloomFilter bf = Some (bf\<lparr>m_boolbitarray := ws\<rparr>)"
    and len: "length ws = unat (m_numLongs bf)"
    using ToOrdinary_bits [OF assms(1)] by blast
  have longs: "unat (BITS_TO_LONGS (ucast (bitmap_size flt))) = unat (m_numLongs bf)"
    using assms by (simp add: same_shape_BITS_TO_LONGS wf_cbf_def)
  then have set: "bloom_filter_set flt ws = Some (flt\<lparr>bitmap := ws\<rparr>)"
    using len assms(2) by (simp add: bloom_filter_set_def same_shape_def)
  have "wf_cbf (bf\<lparr>m_boolbitarray := ws\<rparr>)" "same_shape (bf\<lparr>m_boolbitarray := ws\<rparr>) (flt\<lparr>bitmap := ws\<rparr>)"
    using assms len by (simp_all add: wf_cbf_def same_shape_def)
  then have "bloom_filter_check (flt\<lparr>bitmap := ws\<rparr>) (bytes_of_u64 key) = bf_Query bf key" for key
    using check_equals_query_bits [of "bf\<lparr>m_boolbitarray := ws\<rparr>" "flt\<lparr>bitmap := ws\<rparr>" key]
      QueryBitBloom_eq [OF assms(1) bf', of key] by simp
  with bf' set show ?thesis by auto
qed

text \<open>
  C9: once the client has copied the server's bit array (\<open>ToOrdinaryBloomFilter\<close>, then
  \<open>bloom_filter_set\<close>), its check of a key gives the answer of the server's counters for every
  key, although the two sides compute positions with different integer types.
\<close>

theorem client_check_equals_server_query:
  assumes "wf_cbf bf" "same_shape bf flt"
  shows "\<exists>bf' flt'. ToOrdinaryBloomFilter bf = Some bf' \<and>
     bloom_filter_set flt (m_boolbitarray bf') = Some flt' \<and>
     (\<forall>key. bloom_filter_check flt' (bytes_of_u64 key) = bf_Query bf key)"
  by (rule server_filter_transfer [OF assms])

lemma client_check_equals_server_query_witness:
  "\<exists>bf' flt'. ToOrdinaryBloomFilter (new_cbf 4 100) = Some bf' \<and>
     bloom_filter_set \<lparr>bitmap_size = 100, bitmap_size_in_byte = 16, nr_hash = 4, bitmap = [7, 9]\<rparr>
       (m_boolbitarray bf') = Some flt' \<and>
     (\<forall>key. bloom_filter_check flt' (bytes_of_u64 key) = bf_Query (new_cbf 4 100) key)"
  by (rule client_check_equals_server_query)
    (simp_all add: wf_new_cbf same_shape_def, simp_all add: new_cbf_def BITS_TO_LONGS_unat)

end
