(* ===== verification/Open_Addressing.thy ===== *)
theory Open_Addressing
  imports Hash_Functions
begin

text \<open>
  What the two bucketed tables of the server, \<^verbatim>\<open>LinearProbingHash\<close> and \<^verbatim>\<open>CuckooProbingHash\<close>,
  have in common: the cluster of 16 slots a hash value selects, the linear search for a free
  slot (\<^verbatim>\<open>getLocation\<close>) and the loop of \<^verbatim>\<open>resize\<close> that moves every pair to a new array. The
  two source files contain the same text for these; each table theory has its own definitions
  on top of the loops here.

  The tables take their locks for the whole of an operation, so an operation is one step of
  the model. The compare-and-swap of \<^verbatim>\<open>getLocation\<close> then always succeeds.
\<close>

definition locksize :: nat where
  "locksize = 16"

definition first_index :: "nat \<Rightarrow> nat \<Rightarrow> nat" where
  "first_index capacity key_hash = (let slot = key_hash mod capacity in slot - slot mod locksize)"

text \<open>
  \<open>probe capacity d cur n\<close> is the \<^verbatim>\<open>while\<close> loop of \<^verbatim>\<open>getLocation\<close> with \<open>n\<close> more slots to try
  before the counter reaches the limit. The inner \<open>None\<close> is the return value \<^verbatim>\<open>INVALID\<close>.
\<close>

fun probe :: "nat \<Rightarrow> Pair list \<Rightarrow> nat \<Rightarrow> nat \<Rightarrow> nat option option" where
  "probe capacity d cur 0 =
     do { p \<leftarrow> rd d cur; if pkey p = INVALID then Some (Some cur) else Some None }"
| "probe capacity d cur (Suc n) =
     do { p \<leftarrow> rd d cur;
          if pkey p = INVALID then Some (Some cur)
          else if n = 0 then Some None
          else probe capacity d ((cur + 1) mod capacity) n }"

text \<open>A slot is taken by writing \<open>SENTINEL\<close> into its key.\<close>

definition claim_slot :: "Pair list \<Rightarrow> nat \<Rightarrow> Pair list option" where
  "claim_slot d loc = do { p \<leftarrow> rd d loc; wr d loc (p\<lparr>pkey := SENTINEL\<rparr>) }"

text \<open>
  The loop of \<^verbatim>\<open>resize\<close> over the old pairs. \<open>limit\<close> is the capacity of the table before the
  resize, which is what \<^verbatim>\<open>getLocation\<close> compares its counter with. If no slot is found the
  code indexes the array with \<^verbatim>\<open>INVALID\<close>.
\<close>

fun rehash :: "(Key_t \<Rightarrow> nat) \<Rightarrow> nat \<Rightarrow> nat \<Rightarrow> Pair list \<Rightarrow> Pair list \<Rightarrow> Pair list option" where
  "rehash hv limit capacity [] newDict = Some newDict"
| "rehash hv limit capacity (p # ps) newDict =
     (if pkey p = INVALID then rehash hv limit capacity ps newDict
      else do {
        r \<leftarrow> probe capacity newDict (hv (pkey p) mod capacity) limit;
        loc \<leftarrow> r;
        d \<leftarrow> claim_slot newDict loc;
        d' \<leftarrow> wr d loc p;
        rehash hv limit capacity ps d' })"

section \<open>Clusters\<close>

lemma first_index_bounds:
  assumes "0 < capacity" "16 dvd capacity"
  shows "first_index capacity hv + 16 \<le> capacity"
proof -
  obtain c where c: "capacity = 16 * c" using assms(2) by blast
  let ?s = "hv mod capacity"
  have "?s < 16 * c" using assms(1) c by simp
  then have "?s div 16 < c" by (simp add: less_mult_imp_div_less mult.commute)
  moreover have "?s - ?s mod 16 = 16 * (?s div 16)" by (simp add: minus_mod_eq_mult_div)
  ultimately show ?thesis
    unfolding first_index_def Let_def locksize_def c by simp
qed

section \<open>The search for a free slot\<close>

lemma probe_Some:
  assumes "cur < length d" "length d = capacity"
  shows "\<exists>r. probe capacity d cur n = Some r \<and>
     (\<forall>loc. r = Some loc \<longrightarrow> loc < length d \<and> pkey (d ! loc) = INVALID)"
  using assms
proof (induction n arbitrary: cur)
  case (Suc n)
  then have "(cur + 1) mod capacity < length d" by (auto intro: mod_less_divisor)
  with Suc show ?case by (auto simp: rd_ok)
qed (auto simp: rd_ok)

lemma probe_None:
  assumes "cur < length d" "length d = capacity" "probe capacity d cur n = Some None"
  shows "\<forall>j<n. pkey (d ! ((cur + j) mod capacity)) \<noteq> INVALID"
  using assms
proof (induction n arbitrary: cur)
  case (Suc n)
  have cur: "pkey (d ! cur) \<noteq> INVALID"
    using Suc.prems by (auto simp: rd_ok split: if_splits)
  show ?case
  proof (cases n)
    case 0
    with cur Suc.prems show ?thesis by simp
  next
    case (Suc n')
    have lt: "(cur + 1) mod capacity < length d"
      using Suc.prems by (auto intro: mod_less_divisor)
    have "probe capacity d ((cur + 1) mod capacity) n = Some None"
      using Suc.prems cur \<open>n = Suc n'\<close> by (simp add: rd_ok)
    from Suc.IH [OF lt Suc.prems(2) this]
    have rest: "pkey (d ! ((cur + Suc j) mod capacity)) \<noteq> INVALID" if "j < n" for j
      using that by (auto simp: mod_add_left_eq)
    show ?thesis
    proof (intro allI impI)
      fix j assume "j < Suc n"
      then show "pkey (d ! ((cur + j) mod capacity)) \<noteq> INVALID"
        using cur rest [of "j - 1"] Suc.prems(1,2) by (cases j) simp_all
    qed
  qed
qed simp

lemma cyclic_inj:
  fixes capacity :: nat
  assumes "n \<le> capacity" "i < n" "j < n" "(cur + i) mod capacity = (cur + j) mod capacity"
  shows "i = j"
proof -
  have "b = a" if "a \<le> b" "b < n" "(cur + a) mod capacity = (cur + b) mod capacity" for a b
  proof -
    have "capacity dvd (cur + b) - (cur + a)"
      using that by (subst mod_eq_dvd_iff_nat [symmetric]) simp_all
    then have "capacity dvd b - a" by simp
    then show ?thesis
      using that assms(1) by (auto dest: dvd_imp_le)
  qed
  from this [of i j] this [of j i] assms show ?thesis
    by (metis nat_le_linear)
qed

text \<open>
  A search of \<open>n\<close> different slots fails only if all of them are occupied, so it succeeds in an
  array with fewer than \<open>n\<close> occupied slots.
\<close>

lemma size_keys_of: "size (keys_of d) = card {i. i < length d \<and> pkey (d ! i) \<noteq> INVALID}"
proof -
  have "size (keys_of d) = length (filter live d)"
    unfolding keys_of_def by (metis length_map size_mset)
  then show ?thesis by (simp add: length_filter_conv_card live_def)
qed

lemma probe_finds:
  assumes "cur < length d" "length d = capacity" "size (keys_of d) < n" "n \<le> capacity"
  shows "\<exists>loc. probe capacity d cur n = Some (Some loc) \<and> loc < length d \<and>
     pkey (d ! loc) = INVALID"
proof -
  have "probe capacity d cur n \<noteq> Some None"
  proof
    assume "probe capacity d cur n = Some None"
    from probe_None [OF assms(1,2) this]
    have "(\<lambda>j. (cur + j) mod capacity) ` {..<n} \<subseteq> {i. i < length d \<and> pkey (d ! i) \<noteq> INVALID}"
      using assms by (auto intro: mod_less_divisor)
    moreover have "inj_on (\<lambda>j. (cur + j) mod capacity) {..<n}"
      using cyclic_inj [OF assms(4)] by (auto intro: inj_onI)
    ultimately have "n \<le> size (keys_of d)"
      unfolding size_keys_of using card_inj_on_le [of _ "{..<n}"] by force
    with assms(3) show False by simp
  qed
  then show ?thesis
    using probe_Some [OF assms(1,2), of n] by (metis option.exhaust)
qed

lemma rehash_keeps:
  assumes "length newDict = capacity" "0 < capacity"
    "size (live_pairs newDict) + size (live_pairs ps) \<le> limit" "limit \<le> capacity"
  shows "\<exists>d. rehash hv limit capacity ps newDict = Some d \<and> length d = capacity \<and>
     live_pairs d = live_pairs newDict + live_pairs ps"
  using assms
proof (induction ps arbitrary: newDict)
  case Nil
  then show ?case by (simp add: live_pairs_def)
next
  case (Cons p ps)
  show ?case
  proof (cases "pkey p = INVALID")
    case True
    with Cons show ?thesis by (simp add: live_pairs_def live_def)
  next
    case False
    let ?cur = "hv (pkey p) mod capacity"
    have split: "live_pairs (p # ps) = add_mset p (live_pairs ps)"
      using False by (simp add: live_pairs_def live_def)
    have "?cur < length newDict" using Cons.prems by simp
    moreover have "size (keys_of newDict) < limit"
      using Cons.prems(3) by (simp add: keys_of_live_pairs split)
    ultimately obtain loc where
      loc: "probe capacity newDict ?cur limit = Some (Some loc)" "loc < length newDict"
        "pkey (newDict ! loc) = INVALID"
      using probe_finds Cons.prems by blast
    let ?d = "newDict[loc := p]"
    have placed: "live_pairs ?d = add_mset p (live_pairs newDict)"
      by (rule live_pairs_place [OF loc(2,3) False])
    have "rehash hv limit capacity (p # ps) newDict = rehash hv limit capacity ps ?d"
      using loc False by (simp add: claim_slot_def rd_ok wr_ok)
    with Cons.IH [of ?d] Cons.prems placed split show ?thesis by simp
  qed
qed

end
