(* ===== verification/Table_Interface.thy ===== *)
theory Table_Interface
  imports Prelude
begin

text \<open>
  The contract between the key-value layer and the table below it, as far as the server relies
  on it (\<^verbatim>\<open>server/IHash.h\<close>): an insertion returns the key it evicted, and accounts for every
  key it held; a lookup that returns a value returns it for a key the table holds. \<open>room\<close> says
  for which keys an insertion is known to return. A table may forget keys silently (\<open>\<subseteq>#\<close>, not equality), but it never reports as evicted a key it did
  not hold. Each table proves the contract by an interpretation on its own operations.
\<close>

definition evicted :: "Key_t \<Rightarrow> Key_t multiset" where
  "evicted d = (if d = INVALID then {#} else {#d#})"

lemma evicted_simps [simp]: "evicted INVALID = {#}" "d \<noteq> INVALID \<Longrightarrow> evicted d = {#d#}"
  by (simp_all add: evicted_def)

text \<open>Every insertion of a sequence finds room.\<close>

fun accepts ::
  "('s \<Rightarrow> Key_t \<Rightarrow> bool) \<Rightarrow> ('s \<Rightarrow> Key_t \<Rightarrow> Value_t \<Rightarrow> ('s \<times> Key_t) option) \<Rightarrow> 's \<Rightarrow>
     (Key_t \<times> Value_t) list \<Rightarrow> bool" where
  "accepts room ins s [] = True"
| "accepts room ins s ((k, v) # kvs) =
     (room s k \<and> (case ins s k v of None \<Rightarrow> True | Some (s', _) \<Rightarrow> accepts room ins s' kvs))"

lemma accepts_True: "accepts (\<lambda>_ _. True) ins s kvs"
proof (induction kvs arbitrary: s)
  case (Cons kv kvs)
  then show ?case by (cases kv) (simp split: option.split)
qed simp

locale evicting_table =
  fixes ins :: "'s \<Rightarrow> Key_t \<Rightarrow> Value_t \<Rightarrow> ('s \<times> Key_t) option"
    and get :: "'s \<Rightarrow> Key_t \<Rightarrow> Value_t option"
    and invar :: "'s \<Rightarrow> bool"
    and stored :: "'s \<Rightarrow> Key_t multiset"
    and room :: "'s \<Rightarrow> Key_t \<Rightarrow> bool"
  assumes ins_total: "invar s \<Longrightarrow> k \<noteq> INVALID \<Longrightarrow> room s k \<Longrightarrow> \<exists>s' d. ins s k v = Some (s', d)"
    and ins_invar: "invar s \<Longrightarrow> k \<noteq> INVALID \<Longrightarrow> ins s k v = Some (s', d) \<Longrightarrow> invar s'"
    and ins_stored: "invar s \<Longrightarrow> k \<noteq> INVALID \<Longrightarrow> ins s k v = Some (s', d) \<Longrightarrow>
      stored s' + evicted d \<subseteq># add_mset k (stored s)"
    and get_total: "invar s \<Longrightarrow> \<exists>v. get s k = Some v"
    and get_stored: "invar s \<Longrightarrow> k \<noteq> INVALID \<Longrightarrow> get s k = Some v \<Longrightarrow> v \<noteq> NONE \<Longrightarrow> k \<in># stored s"
begin

text \<open>A sequence of insertions.\<close>

fun ins_all :: "'s \<Rightarrow> (Key_t \<times> Value_t) list \<Rightarrow> ('s \<times> Key_t list) option" where
  "ins_all s [] = Some (s, [])"
| "ins_all s ((k, v) # kvs) =
     (case ins s k v of None \<Rightarrow> None
      | Some (s', d) \<Rightarrow> map_option (\<lambda>(s'', ds). (s'', d # ds)) (ins_all s' kvs))"

lemma ins_all_total:
  "invar s \<Longrightarrow> INVALID \<notin> fst ` set kvs \<Longrightarrow> accepts room ins s kvs \<Longrightarrow> \<exists>s' ds. ins_all s kvs = Some (s', ds) \<and> invar s'"
proof (induction kvs arbitrary: s)
  case (Cons kv kvs)
  obtain k v where kv: "kv = (k, v)" by force
  with Cons.prems have k: "k \<noteq> INVALID" and ks: "INVALID \<notin> fst ` set kvs" by auto
  obtain s1 d where step: "ins s k v = Some (s1, d)"
    using ins_total [OF Cons.prems(1) k, of v] Cons.prems(3) kv by auto
  obtain s' ds where "ins_all s1 kvs = Some (s', ds)" "invar s'"
    using Cons.IH [OF ins_invar [OF Cons.prems(1) k step] ks] Cons.prems(3) kv step by auto
  with step kv show ?case by simp
qed simp

text \<open>The keys held after a sequence of insertions, with all that was evicted, come from it.\<close>

lemma ins_all_stored:
  "invar s \<Longrightarrow> INVALID \<notin> fst ` set kvs \<Longrightarrow> ins_all s kvs = Some (s', ds) \<Longrightarrow>
     stored s' + \<Sum>\<^sub># (mset (map evicted ds)) \<subseteq># stored s + mset (map fst kvs)"
proof (induction kvs arbitrary: s ds)
  case (Cons kv kvs)
  obtain k v where kv: "kv = (k, v)" by force
  with Cons.prems(3) obtain s1 d ds' where step: "ins s k v = Some (s1, d)"
    and rest: "ins_all s1 kvs = Some (s', ds')" and ds: "ds = d # ds'"
    by (auto split: option.splits)
  have k: "k \<noteq> INVALID" using Cons.prems(2) kv by auto
  have "stored s' + \<Sum>\<^sub># (mset (map evicted ds')) \<subseteq># stored s1 + mset (map fst kvs)"
    using Cons.IH [OF ins_invar [OF Cons.prems(1) k step] _ rest] Cons.prems(2) by simp
  moreover have "stored s1 + evicted d \<subseteq># add_mset k (stored s)"
    by (rule ins_stored [OF Cons.prems(1) k step])
  ultimately have "stored s' + \<Sum>\<^sub># (mset (map evicted ds')) + (stored s1 + evicted d) \<subseteq>#
      stored s1 + mset (map fst kvs) + add_mset k (stored s)"
    by (rule subset_mset.add_mono)
  then have "stored s1 + (stored s' + \<Sum>\<^sub># (mset (map evicted ds))) \<subseteq>#
      stored s1 + (stored s + mset (map fst (kv # kvs)))"
    by (simp add: ds kv ac_simps)
  then show ?case by (simp only: subset_mset.add_le_cancel_left)
qed simp

end

text \<open>
  What the pages rely on: a table never makes up a value. Every pair with a value it holds was
  inserted, and a lookup returns the value of a pair it holds under that key.
\<close>

definition pair_set :: "Pair list \<Rightarrow> (Key_t \<times> Value_t) set" where
  "pair_set ps = {(pkey p, pvalue p) | p. p \<in> set ps \<and> pvalue p \<noteq> NONE}"

lemma pair_setI: "p \<in> set ps \<Longrightarrow> pvalue p \<noteq> NONE \<Longrightarrow> (pkey p, pvalue p) \<in> pair_set ps"
  by (auto simp: pair_set_def)

lemma pair_set_mono: "set ps \<subseteq> insert \<lparr>pkey = k, pvalue = v\<rparr> (set qs) \<Longrightarrow> pair_set ps \<subseteq> insert (k, v) (pair_set qs)"
  by (fastforce simp: pair_set_def)

locale honest_table =
  fixes ins :: "'s \<Rightarrow> Key_t \<Rightarrow> Value_t \<Rightarrow> ('s \<times> Key_t) option"
    and get :: "'s \<Rightarrow> Key_t \<Rightarrow> Value_t option"
    and pairs :: "'s \<Rightarrow> (Key_t \<times> Value_t) set"
  assumes ins_pairs: "ins s k v = Some (s', d) \<Longrightarrow> pairs s' \<subseteq> insert (k, v) (pairs s)"
    and get_pairs: "get s k = Some v \<Longrightarrow> v \<noteq> NONE \<Longrightarrow> (k, v) \<in> pairs s"

end
