(* ===== verification/Linear_Probing.thy ===== *)
theory Linear_Probing
  imports Open_Addressing Table_Interface
begin

text \<open>
  \<^verbatim>\<open>LinearProbingHash\<close> (\<^verbatim>\<open>server/src/linear_probing.cpp\<close>), the default table of the server. A
  key hashes to a cluster of 16 slots; an insertion takes the first free of its first 15
  slots, and when there is none it evicts the pair in the first slot, shifts the others and
  writes the new pair into the last slot.

  \<open>std\<close> is the standard library's hash, a parameter throughout.
\<close>

section \<open>State and operations\<close>

record lp_table =
  lp_capacity :: nat
  lp_dict :: "Pair list"
  lp_size :: u64

definition LinearProbingHash :: "nat \<Rightarrow> lp_table" where
  "LinearProbingHash capacity =
     \<lparr>lp_capacity = capacity, lp_dict = replicate capacity fresh_pair, lp_size = 0\<rparr>"

definition lp_first :: "(bytes \<Rightarrow> u64 \<Rightarrow> u64) \<Rightarrow> lp_table \<Rightarrow> Key_t \<Rightarrow> nat" where
  "lp_first std t key = first_index (lp_capacity t) (unat (h std key))"

text \<open>\<open>Insert\<close> returns the table and the evicted key, \<open>INVALID\<close> (that is \<^verbatim>\<open>-1\<close>) for none.\<close>

definition lp_Insert ::
  "(bytes \<Rightarrow> u64 \<Rightarrow> u64) \<Rightarrow> lp_table \<Rightarrow> Key_t \<Rightarrow> Value_t \<Rightarrow> (lp_table \<times> Key_t) option" where
  "lp_Insert std t key value =
     (if lp_capacity t = 0 then None
      else let firstIndex = lp_first std t key; p = \<lparr>pkey = key, pvalue = value\<rparr>
      in do {
        r \<leftarrow> scan (\<lambda>q. pkey q = INVALID) (lp_dict t) firstIndex (locksize - 1);
        case r of
          Some slot \<Rightarrow> do {
            d \<leftarrow> wr (lp_dict t) slot p;
            Some (t\<lparr>lp_dict := d, lp_size := lp_size t + 1\<rparr>, INVALID) }
        | None \<Rightarrow> do {
            p0 \<leftarrow> rd (lp_dict t) firstIndex;
            d \<leftarrow> shift_left (lp_dict t) firstIndex (locksize - 1);
            d' \<leftarrow> wr d (firstIndex + (locksize - 1)) p;
            Some (t\<lparr>lp_dict := d'\<rparr>, pkey p0) } })"

definition lp_getLocation :: "nat \<Rightarrow> nat \<Rightarrow> Pair list \<Rightarrow> nat \<Rightarrow> (nat \<times> Pair list) option option" where
  "lp_getLocation limit capacity d hash_value = do {
     r \<leftarrow> probe capacity d hash_value limit;
     case r of None \<Rightarrow> Some None
     | Some cur \<Rightarrow> do { d' \<leftarrow> claim_slot d cur; Some (Some (cur, d')) } }"

definition lp_InsertOnly ::
  "(bytes \<Rightarrow> u64 \<Rightarrow> u64) \<Rightarrow> lp_table \<Rightarrow> Key_t \<Rightarrow> Value_t \<Rightarrow> (lp_table \<times> bool) option" where
  "lp_InsertOnly std t key value =
     (if lp_capacity t = 0 then None
      else do {
        r \<leftarrow> lp_getLocation (lp_capacity t) (lp_capacity t) (lp_dict t)
              (unat (h std key) mod lp_capacity t);
        case r of None \<Rightarrow> Some (t, False)
        | Some (loc, d) \<Rightarrow> do {
            d' \<leftarrow> wr d loc \<lparr>pkey = key, pvalue = value\<rparr>;
            Some (t\<lparr>lp_dict := d', lp_size := lp_size t + 1\<rparr>, True) } })"

definition lp_Delete :: "lp_table \<Rightarrow> Key_t \<Rightarrow> bool" where
  "lp_Delete t key = False"

definition lp_Get :: "(bytes \<Rightarrow> u64 \<Rightarrow> u64) \<Rightarrow> lp_table \<Rightarrow> Key_t \<Rightarrow> Value_t option" where
  "lp_Get std t key =
     (if lp_capacity t = 0 then None
      else do {
        r \<leftarrow> scan (\<lambda>q. pkey q = key) (lp_dict t) (lp_first std t key) (locksize - 1);
        case r of Some ix \<Rightarrow> do { p \<leftarrow> rd (lp_dict t) ix; Some (pvalue p) }
        | None \<Rightarrow> Some NONE })"

definition lp_Insert_extent :: "lp_table \<Rightarrow> Key_t \<Rightarrow> u64 \<Rightarrow> u64 \<Rightarrow> Value_t \<Rightarrow> lp_table" where
  "lp_Insert_extent t key left len value = t"

definition lp_Get_extent :: "lp_table \<Rightarrow> Key_t \<Rightarrow> u64 \<Rightarrow> Value_t" where
  "lp_Get_extent t key base = NONE"

definition lp_FindAnyway :: "lp_table \<Rightarrow> Key_t \<Rightarrow> Value_t" where
  "lp_FindAnyway t key = NONE"

text \<open>\<open>Utilization\<close> is a percentage; the model keeps the number of occupied slots it counts.\<close>

definition lp_used :: "lp_table \<Rightarrow> nat" where
  "lp_used t = length (filter (\<lambda>p. pkey p \<noteq> INVALID) (take (lp_capacity t) (lp_dict t)))"

definition lp_resize :: "(bytes \<Rightarrow> u64 \<Rightarrow> u64) \<Rightarrow> lp_table \<Rightarrow> nat \<Rightarrow> lp_table option" where
  "lp_resize std t capacity' =
     (if capacity' = 0 \<and> lp_used t \<noteq> 0 then None
      else do {
        d \<leftarrow> rehash (\<lambda>k. unat (h std k)) (lp_capacity t) capacity'
              (take (lp_capacity t) (lp_dict t)) (replicate capacity' fresh_pair);
        Some (t\<lparr>lp_capacity := capacity', lp_dict := d\<rparr>) })"

section \<open>Invariant\<close>

definition lp_wf :: "lp_table \<Rightarrow> bool" where
  "lp_wf t \<longleftrightarrow> 0 < lp_capacity t \<and> 16 dvd lp_capacity t \<and> length (lp_dict t) = lp_capacity t"

abbreviation lp_keys :: "lp_table \<Rightarrow> Key_t multiset" where
  "lp_keys t \<equiv> keys_of (lp_dict t)"

lemma lp_wf_new: "0 < c \<Longrightarrow> 16 dvd c \<Longrightarrow> lp_wf (LinearProbingHash c)"
  by (simp add: lp_wf_def LinearProbingHash_def)

lemma lp_first_bound: "lp_wf t \<Longrightarrow> lp_first std t key + 16 \<le> length (lp_dict t)"
  using first_index_bounds by (simp add: lp_wf_def lp_first_def)

text \<open>The two outcomes of an insertion.\<close>

lemma lp_Insert_cases:
  assumes "lp_wf t" "key \<noteq> INVALID"
  obtains (free) slot where
      "lp_first std t key \<le> slot" "slot < lp_first std t key + 15" "pkey (lp_dict t ! slot) = INVALID"
      "\<And>m. lp_first std t key \<le> m \<Longrightarrow> m < slot \<Longrightarrow> pkey (lp_dict t ! m) \<noteq> INVALID"
      "lp_Insert std t key v =
         Some (t\<lparr>lp_dict := (lp_dict t)[slot := \<lparr>pkey = key, pvalue = v\<rparr>],
                 lp_size := lp_size t + 1\<rparr>, INVALID)"
  | (full) d where
      "\<And>m. lp_first std t key \<le> m \<Longrightarrow> m < lp_first std t key + 15 \<Longrightarrow> pkey (lp_dict t ! m) \<noteq> INVALID"
      "lp_Insert std t key v =
         Some (t\<lparr>lp_dict := d\<rparr>, pkey (lp_dict t ! lp_first std t key))"
      "length d = length (lp_dict t)"
      "add_mset (lp_dict t ! lp_first std t key) (mset d) =
         add_mset \<lparr>pkey = key, pvalue = v\<rparr> (mset (lp_dict t))"
      "\<And>m. m < length d \<Longrightarrow> d ! m =
         (if m = lp_first std t key + 15 then \<lparr>pkey = key, pvalue = v\<rparr>
          else if lp_first std t key \<le> m \<and> m < lp_first std t key + 15 then lp_dict t ! Suc m
          else lp_dict t ! m)"
proof -
  let ?f = "lp_first std t key" and ?p = "\<lparr>pkey = key, pvalue = v\<rparr>"
  have nz: "lp_capacity t \<noteq> 0" using assms(1) by (simp add: lp_wf_def)
  note b = lp_first_bound [OF assms(1), of std key]
  then have "?f + 15 \<le> length (lp_dict t)" by simp
  then show thesis
  proof (cases rule: scan_cases [where P = "\<lambda>q. pkey q = INVALID"])
    case (found j)
    then show ?thesis
      using nz b by (intro free [of j]) (simp_all add: lp_Insert_def Let_def locksize_def wr_ok)
  next
    case none
    obtain ys where ys: "shift_left (lp_dict t) ?f 15 = Some ys" "length ys = length (lp_dict t)"
      "wr ys (?f + 15) ?p = Some (ys[?f + 15 := ?p])"
      "add_mset (lp_dict t ! ?f) (mset (ys[?f + 15 := ?p])) = add_mset ?p (mset (lp_dict t))"
      "\<forall>m<length (lp_dict t). ys[?f + 15 := ?p] ! m =
        (if m = ?f + 15 then ?p else if ?f \<le> m \<and> m < ?f + 15 then lp_dict t ! Suc m else lp_dict t ! m)"
      using evict_first [of ?f 15 "lp_dict t" ?p] b by auto
    then show ?thesis
      using none nz b
      by (intro full [of "ys[?f + 15 := ?p]"]) (simp_all add: lp_Insert_def Let_def locksize_def rd_ok)
  qed
qed

lemma lp_Insert_step:
  assumes "lp_wf t" "key \<noteq> INVALID"
  shows "\<exists>t' d. lp_Insert std t key v = Some (t', d) \<and> lp_wf t' \<and>
     lp_keys t' + (if d = INVALID then {#} else {#d#}) = lp_keys t + {#key#}"
  using assms
proof (cases rule: lp_Insert_cases [where std = std and v = v])
  case (free slot)
  have "slot < length (lp_dict t)"
    using free lp_first_bound [OF assms(1), of std key] by simp
  from keys_of_exchange [OF mset_exchange [OF this]] show ?thesis
    using free assms by (auto simp: lp_wf_def)
next
  case (full d)
  from keys_of_exchange [OF full(4)] show ?thesis
    using full(1) [of "lp_first std t key"] full(2,3) assms by (auto simp: lp_wf_def)
qed

section \<open>Lookups\<close>

lemma lp_Get_cases:
  assumes "lp_wf t"
  obtains (hit) ix where "lp_first std t key \<le> ix" "ix < lp_first std t key + 15"
      "pkey (lp_dict t ! ix) = key" "lp_Get std t key = Some (pvalue (lp_dict t ! ix))"
      "\<And>m. lp_first std t key \<le> m \<Longrightarrow> m < ix \<Longrightarrow> pkey (lp_dict t ! m) \<noteq> key"
  | (miss) "lp_Get std t key = Some NONE"
      "\<And>m. lp_first std t key \<le> m \<Longrightarrow> m < lp_first std t key + 15 \<Longrightarrow> pkey (lp_dict t ! m) \<noteq> key"
proof -
  have nz: "lp_capacity t \<noteq> 0" using assms by (simp add: lp_wf_def)
  have b: "lp_first std t key + 15 \<le> length (lp_dict t)"
    using lp_first_bound [OF assms, of std key] by simp
  then show thesis
  proof (cases rule: scan_cases [where P = "\<lambda>q. pkey q = key"])
    case (found j)
    then show ?thesis
      using nz b by (intro hit [of j]) (simp_all add: lp_Get_def locksize_def rd_ok)
  next
    case none
    then show ?thesis
      using nz by (intro miss) (simp_all add: lp_Get_def locksize_def)
  qed
qed

lemma lp_Get_stored:
  assumes "lp_wf t" "key \<noteq> INVALID" "lp_Get std t key = Some v" "v \<noteq> NONE"
  shows "key \<in># lp_keys t"
  using assms(1)
proof (cases rule: lp_Get_cases [where std = std and key = key])
  case (hit ix)
  then have "ix < length (lp_dict t)"
    using lp_first_bound [OF assms(1), of std key] by simp
  with hit assms(2) show ?thesis by (auto simp: in_keys_of)
next
  case miss
  with assms show ?thesis by simp
qed

lemma lp_Get_eqI:
  assumes "lp_wf t" "lp_first std t key \<le> ix" "ix < lp_first std t key + 15"
    "pkey (lp_dict t ! ix) = key"
    "\<And>m. lp_first std t key \<le> m \<Longrightarrow> m < ix \<Longrightarrow> pkey (lp_dict t ! m) \<noteq> key"
  shows "lp_Get std t key = Some (pvalue (lp_dict t ! ix))"
  using assms(1)
proof (cases rule: lp_Get_cases [where std = std and key = key])
  case (hit j)
  have "\<not> j < ix" using assms(5) [of j] hit(1,3) by blast
  moreover have "\<not> ix < j" using hit(5) [of ix] assms(2,4) by blast
  ultimately have "j = ix" by simp
  with hit show ?thesis by simp
next
  case miss
  with assms show ?thesis by blast
qed

lemma lp_Get_missI:
  assumes "lp_wf t"
    "\<And>m. lp_first std t key \<le> m \<Longrightarrow> m < lp_first std t key + 15 \<Longrightarrow> pkey (lp_dict t ! m) \<noteq> key"
  shows "lp_Get std t key = Some NONE"
  using assms(1)
proof (cases rule: lp_Get_cases [where std = std and key = key])
  case (hit j)
  with assms(2) show ?thesis by blast
qed

text \<open>The table meets the contract of the key-value layer, for every hash function.\<close>

interpretation lp: evicting_table "lp_Insert std" "lp_Get std" lp_wf lp_keys "\<lambda>_ _. True" for std
proof
  fix s k v s' d
  show "lp_wf s \<Longrightarrow> k \<noteq> INVALID \<Longrightarrow> \<exists>s' d. lp_Insert std s k v = Some (s', d)"
    using lp_Insert_step by blast
  show "lp_wf s \<Longrightarrow> k \<noteq> INVALID \<Longrightarrow> lp_Insert std s k v = Some (s', d) \<Longrightarrow> lp_wf s'"
    using lp_Insert_step [of s k std v] by auto
  show "lp_wf s \<Longrightarrow> k \<noteq> INVALID \<Longrightarrow> lp_Insert std s k v = Some (s', d) \<Longrightarrow>
      lp_keys s' + evicted d \<subseteq># add_mset k (lp_keys s)"
    using lp_Insert_step [of s k std v] by (auto simp: evicted_def)
  show "lp_wf s \<Longrightarrow> \<exists>v. lp_Get std s k = Some v"
    by (cases rule: lp_Get_cases [of s std k]) auto
  show "lp_wf s \<Longrightarrow> k \<noteq> INVALID \<Longrightarrow> lp_Get std s k = Some v \<Longrightarrow> v \<noteq> NONE \<Longrightarrow> k \<in># lp_keys s"
    by (rule lp_Get_stored)
qed

section \<open>Values are never made up\<close>

interpretation lpv: honest_table "lp_Insert std" "lp_Get std" "\<lambda>t. pair_set (lp_dict t)" for std
proof
  fix s k v s' d
  assume "lp_Insert std s k v = Some (s', d)"
  then have "set (lp_dict s') \<subseteq> insert \<lparr>pkey = k, pvalue = v\<rparr> (set (lp_dict s))"
    by (auto simp: lp_Insert_def Let_def split: if_splits bind_splits option.splits
        dest!: wr_set shift_left_set)
  then show "pair_set (lp_dict s') \<subseteq> insert (k, v) (pair_set (lp_dict s))" by (rule pair_set_mono)
next
  fix s k v
  assume "lp_Get std s k = Some v" "v \<noteq> NONE"
  then obtain ix p where "scan (\<lambda>q. pkey q = k) (lp_dict s) (lp_first std s k) (locksize - 1) = Some (Some ix)"
    "rd (lp_dict s) ix = Some p" "v = pvalue p"
    by (auto simp: lp_Get_def split: if_splits bind_splits option.splits)
  with scan_holds [OF this(1,2)] \<open>v \<noteq> NONE\<close> show "(k, v) \<in> pair_set (lp_dict s)"
    using pair_setI [of p "lp_dict s"] rd_set [of "lp_dict s" ix p] by auto
qed

section \<open>Properties\<close>

text \<open>
  C14: an insertion into a table whose capacity is a multiple of the cluster size never accesses
  memory outside the table, keeps the invariant, and accounts for every key: the keys held
  afterwards together with the evicted key are the keys held before and the new one.
\<close>

theorem lp_insert_conserves:
  assumes "lp_wf t" "key \<noteq> INVALID"
  shows "\<exists>t' d. lp_Insert std t key v = Some (t', d) \<and> lp_wf t' \<and>
     lp_keys t' + (if d = INVALID then {#} else {#d#}) = lp_keys t + {#key#}"
  by (rule lp_Insert_step [OF assms])

lemma lp_insert_conserves_witness:
  "\<exists>t' d. lp_Insert (\<lambda>_ _. 21) (LinearProbingHash 32) 5 77 = Some (t', d) \<and> lp_wf t' \<and>
     lp_keys t' + (if d = INVALID then {#} else {#d#}) = lp_keys (LinearProbingHash 32) + {#5#}"
  by (rule lp_insert_conserves) (simp_all add: lp_wf_new INVALID_def)

definition lp_has_room :: "(bytes \<Rightarrow> u64 \<Rightarrow> u64) \<Rightarrow> lp_table \<Rightarrow> Key_t \<Rightarrow> bool" where
  "lp_has_room std t key \<longleftrightarrow>
     (\<exists>m<15. pkey (lp_dict t ! (lp_first std t key + m)) = INVALID)"

definition lp_absent :: "(bytes \<Rightarrow> u64 \<Rightarrow> u64) \<Rightarrow> lp_table \<Rightarrow> Key_t \<Rightarrow> bool" where
  "lp_absent std t key \<longleftrightarrow>
     (\<forall>m<16. pkey (lp_dict t ! (lp_first std t key + m)) \<noteq> key)"

lemma lp_absentD:
  "lp_absent std t key \<Longrightarrow> lp_first std t key \<le> m \<Longrightarrow> m < lp_first std t key + 16 \<Longrightarrow>
     pkey (lp_dict t ! m) \<noteq> key"
  unfolding lp_absent_def by (metis add.commute add_less_cancel_right le_add_diff_inverse2)

text \<open>
  C15: inserting a key that its cluster does not hold, while one of the first 15 slots of the
  cluster is free, makes the lookup of the key return the new value and leaves the lookup of
  every other key unchanged.
\<close>

theorem lp_insert_then_get:
  assumes "lp_wf t" "key \<noteq> INVALID" "lp_has_room std t key" "lp_absent std t key"
  shows "\<exists>t'. lp_Insert std t key v = Some (t', INVALID) \<and> lp_Get std t' key = Some v \<and>
     (\<forall>k. k \<noteq> key \<and> k \<noteq> INVALID \<longrightarrow> lp_Get std t' k = lp_Get std t k)"
  using assms(1,2)
proof (cases rule: lp_Insert_cases [where std = std and v = v])
  case (free slot)
  let ?t = "t\<lparr>lp_dict := (lp_dict t)[slot := \<lparr>pkey = key, pvalue = v\<rparr>], lp_size := lp_size t + 1\<rparr>"
  have slot: "slot < length (lp_dict t)"
    using free lp_first_bound [OF assms(1), of std key] by simp
  have wf': "lp_wf ?t" using assms(1) by (simp add: lp_wf_def)
  have first [simp]: "lp_first std ?t k = lp_first std t k" for k by (simp add: lp_first_def)
  have nth: "(lp_dict t)[slot := \<lparr>pkey = key, pvalue = v\<rparr>] ! m =
      (if m = slot then \<lparr>pkey = key, pvalue = v\<rparr> else lp_dict t ! m)" for m
    using slot by (simp add: nth_list_update)
  have "pkey (lp_dict t ! m) \<noteq> key" if "lp_first std t key \<le> m" "m < slot" for m
    using that free(2) by (intro lp_absentD [OF assms(4)]) simp_all
  then have "lp_Get std ?t key = Some (pvalue (lp_dict ?t ! slot))"
    using free(1,2) by (intro lp_Get_eqI [OF wf']) (simp_all add: nth)
  moreover have "lp_Get std ?t k = lp_Get std t k" if k: "k \<noteq> key" "k \<noteq> INVALID" for k
    using assms(1)
  proof (cases rule: lp_Get_cases [where std = std and key = k])
    case (hit ix)
    then have "ix \<noteq> slot" using free(3) k(2) by auto
    with hit k(1) have "lp_Get std ?t k = Some (pvalue (lp_dict ?t ! ix))"
      by (intro lp_Get_eqI [OF wf']) (auto simp: nth)
    with hit \<open>ix \<noteq> slot\<close> show ?thesis by (simp add: nth)
  next
    case miss
    with k(1) have "lp_Get std ?t k = Some NONE"
      by (intro lp_Get_missI [OF wf']) (auto simp: nth)
    with miss show ?thesis by simp
  qed
  ultimately show ?thesis using free(5) nth by auto
next
  case (full d)
  then show ?thesis using assms(3) by (auto simp: lp_has_room_def)
qed

lemma lp_insert_then_get_witness:
  "\<exists>t'. lp_Insert (\<lambda>_ _. 21) (LinearProbingHash 32) 5 77 = Some (t', INVALID) \<and>
     lp_Get (\<lambda>_ _. 21) t' 5 = Some 77 \<and>
     (\<forall>k. k \<noteq> 5 \<and> k \<noteq> INVALID \<longrightarrow>
        lp_Get (\<lambda>_ _. 21) t' k = lp_Get (\<lambda>_ _. 21) (LinearProbingHash 32) k)"
proof -
  have f: "lp_first (\<lambda>_ _. 21) (LinearProbingHash 32) 5 = 16"
    by (simp add: lp_first_def LinearProbingHash_def first_index_def locksize_def h_def hash_funcs_def)
  have "lp_has_room (\<lambda>_ _. 21) (LinearProbingHash 32) 5" "lp_absent (\<lambda>_ _. 21) (LinearProbingHash 32) 5"
    by (auto simp: lp_has_room_def lp_absent_def f)
      (auto simp: LinearProbingHash_def fresh_pair_def INVALID_def intro: exI [of _ 0])
  then show ?thesis
    by (intro lp_insert_then_get) (simp_all add: lp_wf_new INVALID_def)
qed

text \<open>
  C35: when the first 15 slots of the cluster are occupied the insertion stores the new pair in
  the sixteenth slot, which no lookup examines: a lookup of the key just inserted finds nothing.
\<close>

theorem lp_evicting_insert_invisible:
  assumes "lp_wf t" "key \<noteq> INVALID" "\<not> lp_has_room std t key" "lp_absent std t key"
  shows "\<exists>t' d. lp_Insert std t key v = Some (t', d) \<and> key \<in># lp_keys t' \<and>
     lp_Get std t' key = Some NONE"
  using assms(1,2)
proof (cases rule: lp_Insert_cases [where std = std and v = v])
  case (free slot)
  then have "lp_has_room std t key"
    unfolding lp_has_room_def by (intro exI [of _ "slot - lp_first std t key"]) simp
  with assms(3) show ?thesis by blast
next
  case (full d)
  let ?t = "t\<lparr>lp_dict := d\<rparr>" and ?f = "lp_first std t key"
  have b: "?f + 16 \<le> length d" using lp_first_bound [OF assms(1)] full(3) by simp
  have wf': "lp_wf ?t" using assms(1) full(3) by (simp add: lp_wf_def)
  have first: "lp_first std ?t key = ?f" by (simp add: lp_first_def)
  have "pkey (d ! m) \<noteq> key" if "?f \<le> m" "m < ?f + 15" for m
    using that b full(5) [of m] lp_absentD [OF assms(4), of "Suc m"] by simp
  then have "lp_Get std ?t key = Some NONE"
    by (intro lp_Get_missI [OF wf']) (simp_all add: first)
  moreover have "key \<in># lp_keys ?t"
    unfolding in_keys_of using assms(2) b full(5) [of "?f + 15"]
    by (intro conjI exI [of _ "?f + 15"]) simp_all
  ultimately show ?thesis using full(2) by blast
qed

lemma lp_evicting_insert_invisible_witness:
  "let t = \<lparr>lp_capacity = 16,
            lp_dict = replicate 15 \<lparr>pkey = 7, pvalue = 70\<rparr> @ [fresh_pair], lp_size = 15\<rparr>
   in \<exists>t' d. lp_Insert (\<lambda>_ _. 21) t 5 77 = Some (t', d) \<and> 5 \<in># lp_keys t' \<and>
     lp_Get (\<lambda>_ _. 21) t' 5 = Some NONE"
proof -
  let ?t = "\<lparr>lp_capacity = 16, lp_dict = replicate 15 \<lparr>pkey = 7, pvalue = 70\<rparr> @ [fresh_pair], lp_size = 15\<rparr>"
  have f: "lp_first (\<lambda>_ _. 21) ?t 5 = 0"
    by (simp add: lp_first_def first_index_def locksize_def h_def hash_funcs_def)
  have "lp_wf ?t" by (simp add: lp_wf_def)
  moreover have "\<not> lp_has_room (\<lambda>_ _. 21) ?t 5"
    by (simp add: lp_has_room_def f nth_append INVALID_def)
  moreover have "lp_absent (\<lambda>_ _. 21) ?t 5"
    unfolding lp_absent_def f by (auto simp: nth_append nth_Cons' fresh_pair_def INVALID_def)
  ultimately show ?thesis
    unfolding Let_def by (intro lp_evicting_insert_invisible) (simp_all add: INVALID_def)
qed

text \<open>
  \<open>resize\<close> to a capacity at least as large keeps every pair of the table, with its value
  and multiplicity, and never runs outside the new array.
\<close>

lemma lp_resize_keeps_pairs:
  assumes "length (lp_dict t) = lp_capacity t" "0 < capacity'" "lp_capacity t \<le> capacity'"
  shows "\<exists>t'. lp_resize std t capacity' = Some t' \<and> lp_capacity t' = capacity' \<and>
     length (lp_dict t') = capacity' \<and> live_pairs (lp_dict t') = live_pairs (lp_dict t)"
proof -
  have fresh: "live_pairs (replicate capacity' fresh_pair) = {#}"
    by (induction capacity') (simp_all add: live_pairs_def fresh_pair_def live_def)
  have "size (live_pairs (lp_dict t)) \<le> lp_capacity t"
    using assms(1) size_filter_mset_lesseq [of live "mset (lp_dict t)"] by (simp add: live_pairs_def)
  then show ?thesis
    using rehash_keeps [of "replicate capacity' fresh_pair" capacity' "lp_dict t" "lp_capacity t"
        "\<lambda>k. unat (h std k)"] assms
    by (auto simp: lp_resize_def fresh)
qed

lemma lp_resize_keeps_pairs_witness:
  "\<exists>t'. lp_resize (\<lambda>_ _. 21) (LinearProbingHash 16) 32 = Some t' \<and> lp_capacity t' = 32 \<and>
     length (lp_dict t') = 32 \<and> live_pairs (lp_dict t') = live_pairs (lp_dict (LinearProbingHash 16))"
  by (rule lp_resize_keeps_pairs) (simp_all add: LinearProbingHash_def)

end
