(* ===== verification/Cuckoo_Probing.thy ===== *)
theory Cuckoo_Probing
  imports Open_Addressing Table_Interface
begin

text \<open>
  \<^verbatim>\<open>CuckooProbingHash\<close> (\<^verbatim>\<open>server/src/cuckoo_probing.cpp\<close>): clusters as in the linear table, but
  the oldest pair of a full cluster gets a second chance at the head of another cluster,
  marked by the top bit of its value, before it is evicted.
\<close>

section \<open>State and operations\<close>

record cp_table =
  cp_capacity :: nat
  cp_dict :: "Pair list"
  cp_size :: u64

definition CuckooProbingHash :: "nat \<Rightarrow> cp_table" where
  "CuckooProbingHash capacity =
     \<lparr>cp_capacity = capacity, cp_dict = replicate capacity fresh_pair, cp_size = 0\<rparr>"

definition cuckooBit :: u64 where
  "cuckooBit = push_bit 63 1"

definition cp_first :: "(bytes \<Rightarrow> u64 \<Rightarrow> u64) \<Rightarrow> cp_table \<Rightarrow> Key_t \<Rightarrow> nat" where
  "cp_first std t key = first_index (cp_capacity t) (unat (h std key))"

definition cp_next :: "(bytes \<Rightarrow> u64 \<Rightarrow> u64) \<Rightarrow> cp_table \<Rightarrow> Key_t \<Rightarrow> nat" where
  "cp_next std t key =
     first_index (cp_capacity t) (unat ((hash_funcs std ! 0) (bytes_of_u64 key) 951125))"

text \<open>The last part of \<open>Insert\<close>: put the displaced pair at the head of the next cluster.\<close>

definition cp_displace ::
  "cp_table \<Rightarrow> Pair list \<Rightarrow> nat \<Rightarrow> Pair \<Rightarrow> (cp_table \<times> Key_t) option" where
  "cp_displace t d firstIndex cuckooPair =
     (let marked = \<lparr>pkey = pkey cuckooPair, pvalue = pvalue cuckooPair OR cuckooBit\<rparr>
      in do {
        r \<leftarrow> scan (\<lambda>q. pkey q = INVALID) d firstIndex (locksize - 1);
        case r of
          Some slot \<Rightarrow> do {
            d1 \<leftarrow> shift_right d firstIndex (slot - firstIndex);
            d2 \<leftarrow> wr d1 firstIndex marked;
            Some (t\<lparr>cp_dict := d2, cp_size := cp_size t + 1\<rparr>, INVALID) }
        | None \<Rightarrow> do {
            q \<leftarrow> rd d firstIndex;
            d1 \<leftarrow> wr d firstIndex marked;
            Some (t\<lparr>cp_dict := d1\<rparr>, pkey q) } })"

definition cp_Insert ::
  "(bytes \<Rightarrow> u64 \<Rightarrow> u64) \<Rightarrow> cp_table \<Rightarrow> Key_t \<Rightarrow> Value_t \<Rightarrow> (cp_table \<times> Key_t) option" where
  "cp_Insert std t key value =
     (if cp_capacity t = 0 then None
      else let firstIndex = cp_first std t key; p = \<lparr>pkey = key, pvalue = value\<rparr>
      in do {
        r \<leftarrow> scan (\<lambda>q. pkey q = INVALID \<or> pkey q = key) (cp_dict t) firstIndex (locksize - 1);
        case r of
          Some slot \<Rightarrow> do {
            d \<leftarrow> wr (cp_dict t) slot p;
            Some (t\<lparr>cp_dict := d, cp_size := cp_size t + 1\<rparr>, INVALID) }
        | None \<Rightarrow> do {
            p0 \<leftarrow> rd (cp_dict t) firstIndex;
            d \<leftarrow> shift_left (cp_dict t) firstIndex (locksize - 1);
            d' \<leftarrow> wr d (firstIndex + (locksize - 1)) p;
            if pvalue p0 AND cuckooBit \<noteq> 0 then Some (t\<lparr>cp_dict := d'\<rparr>, pkey p0)
            else cp_displace t d' (cp_next std t key) p0 } })"

definition cp_getLocation :: "nat \<Rightarrow> nat \<Rightarrow> Pair list \<Rightarrow> nat \<Rightarrow> (nat \<times> Pair list) option option" where
  "cp_getLocation limit capacity d hash_value = do {
     r \<leftarrow> probe capacity d hash_value limit;
     case r of None \<Rightarrow> Some None
     | Some cur \<Rightarrow> do { d' \<leftarrow> claim_slot d cur; Some (Some (cur, d')) } }"

definition cp_InsertOnly ::
  "(bytes \<Rightarrow> u64 \<Rightarrow> u64) \<Rightarrow> cp_table \<Rightarrow> Key_t \<Rightarrow> Value_t \<Rightarrow> (cp_table \<times> bool) option" where
  "cp_InsertOnly std t key value =
     (if cp_capacity t = 0 then None
      else do {
        r \<leftarrow> cp_getLocation (cp_capacity t) (cp_capacity t) (cp_dict t)
              (unat (h std key) mod cp_capacity t);
        case r of None \<Rightarrow> Some (t, False)
        | Some (loc, d) \<Rightarrow> do {
            d' \<leftarrow> wr d loc \<lparr>pkey = key, pvalue = value\<rparr>;
            Some (t\<lparr>cp_dict := d', cp_size := cp_size t + 1\<rparr>, True) } })"

definition cp_Delete :: "cp_table \<Rightarrow> Key_t \<Rightarrow> bool" where
  "cp_Delete t key = False"

definition cp_Get :: "(bytes \<Rightarrow> u64 \<Rightarrow> u64) \<Rightarrow> cp_table \<Rightarrow> Key_t \<Rightarrow> Value_t option" where
  "cp_Get std t key =
     (if cp_capacity t = 0 then None
      else do {
        r \<leftarrow> scan (\<lambda>q. pkey q = key) (cp_dict t) (cp_first std t key) (locksize - 1);
        case r of Some ix \<Rightarrow> do { p \<leftarrow> rd (cp_dict t) ix; Some (pvalue p) }
        | None \<Rightarrow> do {
            r' \<leftarrow> scan (\<lambda>q. pkey q = key) (cp_dict t) (cp_next std t key) (locksize - 1);
            case r' of Some ix \<Rightarrow> do { p \<leftarrow> rd (cp_dict t) ix; Some (pvalue p AND NOT cuckooBit) }
            | None \<Rightarrow> Some NONE } })"

definition cp_Insert_extent :: "cp_table \<Rightarrow> Key_t \<Rightarrow> u64 \<Rightarrow> u64 \<Rightarrow> Value_t \<Rightarrow> cp_table" where
  "cp_Insert_extent t key left len value = t"

definition cp_Get_extent :: "cp_table \<Rightarrow> Key_t \<Rightarrow> u64 \<Rightarrow> Value_t" where
  "cp_Get_extent t key base = NONE"

definition cp_FindAnyway :: "cp_table \<Rightarrow> Key_t \<Rightarrow> Value_t" where
  "cp_FindAnyway t key = NONE"

definition cp_used :: "cp_table \<Rightarrow> nat" where
  "cp_used t = length (filter (\<lambda>p. pkey p \<noteq> INVALID) (take (cp_capacity t) (cp_dict t)))"

definition cp_resize :: "(bytes \<Rightarrow> u64 \<Rightarrow> u64) \<Rightarrow> cp_table \<Rightarrow> nat \<Rightarrow> cp_table option" where
  "cp_resize std t capacity' =
     (if capacity' = 0 \<and> cp_used t \<noteq> 0 then None
      else do {
        d \<leftarrow> rehash (\<lambda>k. unat (h std k)) (cp_capacity t) capacity'
              (take (cp_capacity t) (cp_dict t)) (replicate capacity' fresh_pair);
        Some (t\<lparr>cp_capacity := capacity', cp_dict := d\<rparr>) })"

section \<open>Invariant and conservation of keys\<close>

definition cp_wf :: "cp_table \<Rightarrow> bool" where
  "cp_wf t \<longleftrightarrow> 0 < cp_capacity t \<and> 16 dvd cp_capacity t \<and> length (cp_dict t) = cp_capacity t"

abbreviation cp_keys :: "cp_table \<Rightarrow> Key_t multiset" where
  "cp_keys t \<equiv> keys_of (cp_dict t)"

lemma cp_wf_new: "0 < c \<Longrightarrow> 16 dvd c \<Longrightarrow> cp_wf (CuckooProbingHash c)"
  by (simp add: cp_wf_def CuckooProbingHash_def)

lemma cp_bounds:
  assumes "cp_wf t"
  shows "cp_first std t key + 16 \<le> length (cp_dict t)" "cp_next std t key + 16 \<le> length (cp_dict t)"
  using first_index_bounds assms by (simp_all add: cp_wf_def cp_first_def cp_next_def)

lemma cp_displace_step:
  assumes "cp_wf t" "length d = length (cp_dict t)" "f + 16 \<le> length d" "pkey p0 \<noteq> INVALID"
  shows "\<exists>t' e. cp_displace t d f p0 = Some (t', e) \<and> cp_wf t' \<and>
     cp_keys t' + evicted e = add_mset (pkey p0) (keys_of d)"
proof -
  let ?m = "\<lparr>pkey = pkey p0, pvalue = pvalue p0 OR cuckooBit\<rparr>"
  have "f + 15 \<le> length d" using assms(3) by simp
  then show ?thesis
  proof (cases rule: scan_cases [where P = "\<lambda>q. pkey q = INVALID"])
    case (found j)
    have "f + (j - f) < length d" using found assms(3) by simp
    from push_front [OF this, of ?m] obtain ys where
      ys: "shift_right d f (j - f) = Some ys" "length ys = length d" "wr ys f ?m = Some (ys[f := ?m])"
      and ms: "add_mset (d ! j) (mset (ys[f := ?m])) = add_mset ?m (mset d)"
      using found by auto
    from keys_of_exchange [OF ms] found assms(4)
    have "keys_of (ys[f := ?m]) = add_mset (pkey p0) (keys_of d)" by simp
    with found ys assms(1,2) show ?thesis
      by (simp add: cp_displace_def Let_def locksize_def cp_wf_def)
  next
    case none
    have f: "f < length d" using assms(3) by simp
    have "pkey (d ! f) \<noteq> INVALID" using none(2) [of f] by simp
    moreover from keys_of_exchange [OF mset_exchange [OF f, of ?m]] assms(4) this
    have "keys_of (d[f := ?m]) + {#pkey (d ! f)#} = add_mset (pkey p0) (keys_of d)" by simp
    ultimately show ?thesis
      using none f assms(1,2)
      by (simp add: cp_displace_def Let_def locksize_def cp_wf_def rd_ok wr_ok)
  qed
qed

lemma cp_Insert_step:
  assumes "cp_wf t" "key \<noteq> INVALID"
  shows "\<exists>t' e. cp_Insert std t key v = Some (t', e) \<and> cp_wf t' \<and>
     cp_keys t' + evicted e \<subseteq># add_mset key (cp_keys t)"
proof -
  let ?f = "cp_first std t key" and ?p = "\<lparr>pkey = key, pvalue = v\<rparr>"
  have nz: "cp_capacity t \<noteq> 0" using assms(1) by (simp add: cp_wf_def)
  note b = cp_bounds [OF assms(1), of std key]
  then have "?f + 15 \<le> length (cp_dict t)" by simp
  then show ?thesis
  proof (cases rule: scan_cases [where P = "\<lambda>q. pkey q = INVALID \<or> pkey q = key"])
    case (found j)
    have j: "j < length (cp_dict t)" using found b by simp
    have "keys_of ((cp_dict t)[j := ?p]) \<subseteq># add_mset key (cp_keys t)"
      using keys_of_exchange [OF mset_exchange [OF j, of ?p]] found(4) assms(2) by auto
    with found j nz assms(1) show ?thesis
      by (simp add: cp_Insert_def Let_def locksize_def wr_ok cp_wf_def)
  next
    case none
    obtain ys where ys: "shift_left (cp_dict t) ?f 15 = Some ys" "length ys = length (cp_dict t)"
      "wr ys (?f + 15) ?p = Some (ys[?f + 15 := ?p])"
      and ms: "add_mset (cp_dict t ! ?f) (mset (ys[?f + 15 := ?p])) = add_mset ?p (mset (cp_dict t))"
      using evict_first [of ?f 15 "cp_dict t" ?p] b by auto
    let ?d = "ys[?f + 15 := ?p]" and ?p0 = "cp_dict t ! ?f"
    have p0: "pkey ?p0 \<noteq> INVALID" using none(2) [of ?f] by simp
    from keys_of_exchange [OF ms] p0 assms(2)
    have keys: "add_mset (pkey ?p0) (keys_of ?d) = add_mset key (cp_keys t)" by simp
    have ins: "cp_Insert std t key v =
        (if pvalue ?p0 AND cuckooBit \<noteq> 0 then Some (t\<lparr>cp_dict := ?d\<rparr>, pkey ?p0)
         else cp_displace t ?d (cp_next std t key) ?p0)"
      using none nz ys b by (simp add: cp_Insert_def Let_def locksize_def rd_ok)
    have "\<exists>t' e. cp_displace t ?d (cp_next std t key) ?p0 = Some (t', e) \<and> cp_wf t' \<and>
        cp_keys t' + evicted e = add_mset key (cp_keys t)"
      using cp_displace_step [OF assms(1) _ _ p0, of ?d "cp_next std t key"] b ys(2) keys by simp
    then show ?thesis
      using ins keys p0 assms(1) ys(2) by (auto simp: cp_wf_def)
  qed
qed

section \<open>Lookups\<close>

lemma cp_Get_total: "cp_wf t \<Longrightarrow> \<exists>v. cp_Get std t key = Some v"
proof -
  assume wf: "cp_wf t"
  have b: "cp_first std t key + 15 \<le> length (cp_dict t)" "cp_next std t key + 15 \<le> length (cp_dict t)"
    using cp_bounds [OF wf, of std key] by simp_all
  have nz: "cp_capacity t \<noteq> 0" using wf by (simp add: cp_wf_def)
  show ?thesis
    using b(1)
  proof (cases rule: scan_cases [where P = "\<lambda>q. pkey q = key"])
    case found
    with nz b show ?thesis by (simp add: cp_Get_def locksize_def rd_ok)
  next
    case none
    note outer = this
    show ?thesis
      using b(2)
      by (cases rule: scan_cases [where P = "\<lambda>q. pkey q = key"])
        (use outer nz b in \<open>simp_all add: cp_Get_def locksize_def rd_ok\<close>)
  qed
qed

lemma cp_Get_stored:
  assumes "cp_wf t" "key \<noteq> INVALID" "cp_Get std t key = Some v" "v \<noteq> NONE"
  shows "key \<in># cp_keys t"
proof (rule ccontr)
  assume absent: "key \<notin># cp_keys t"
  have b: "cp_first std t key + 15 \<le> length (cp_dict t)" "cp_next std t key + 15 \<le> length (cp_dict t)"
    using cp_bounds [OF assms(1), of std key] by simp_all
  have no: "pkey (cp_dict t ! m) \<noteq> key" if "m < length (cp_dict t)" for m
    using absent that assms(2) by (auto simp: in_keys_of)
  have "scan (\<lambda>q. pkey q = key) (cp_dict t) i 15 = Some None" if "i + 15 \<le> length (cp_dict t)" for i
    using that no by (subst scan_None_iff) auto
  with b assms show False
    by (simp add: cp_Get_def locksize_def split: if_splits)
qed

interpretation cp: evicting_table "cp_Insert std" "cp_Get std" cp_wf cp_keys "\<lambda>_ _. True" for std
proof
  fix s k v s' d
  show "cp_wf s \<Longrightarrow> k \<noteq> INVALID \<Longrightarrow> \<exists>s' d. cp_Insert std s k v = Some (s', d)"
    using cp_Insert_step [of s k std v] by blast
  show "cp_wf s \<Longrightarrow> k \<noteq> INVALID \<Longrightarrow> cp_Insert std s k v = Some (s', d) \<Longrightarrow> cp_wf s'"
    using cp_Insert_step [of s k std v] by auto
  show "cp_wf s \<Longrightarrow> k \<noteq> INVALID \<Longrightarrow> cp_Insert std s k v = Some (s', d) \<Longrightarrow>
      cp_keys s' + evicted d \<subseteq># add_mset k (cp_keys s)"
    using cp_Insert_step [of s k std v] by auto
  show "cp_wf s \<Longrightarrow> \<exists>v. cp_Get std s k = Some v"
    by (rule cp_Get_total)
  show "cp_wf s \<Longrightarrow> k \<noteq> INVALID \<Longrightarrow> cp_Get std s k = Some v \<Longrightarrow> v \<noteq> NONE \<Longrightarrow> k \<in># cp_keys s"
    by (rule cp_Get_stored)
qed

section \<open>Properties\<close>



definition cp_has_room :: "(bytes \<Rightarrow> u64 \<Rightarrow> u64) \<Rightarrow> cp_table \<Rightarrow> Key_t \<Rightarrow> bool" where
  "cp_has_room std t key \<longleftrightarrow>
     (\<exists>m<15. pkey (cp_dict t ! (cp_first std t key + m)) = INVALID \<or>
             pkey (cp_dict t ! (cp_first std t key + m)) = key)"

text \<open>
  While the key's cluster has a free slot or already holds the key in its first 15 slots,
  an insertion makes the lookup of the key return the new value (replacing an old one) and
  leaves the lookup of every other key unchanged.
\<close>

lemma cp_insert_then_get:
  assumes "cp_wf t" "key \<noteq> INVALID" "cp_has_room std t key"
  shows "\<exists>t'. cp_Insert std t key v = Some (t', INVALID) \<and> cp_Get std t' key = Some v \<and>
     (\<forall>k. k \<noteq> key \<and> k \<noteq> INVALID \<longrightarrow> cp_Get std t' k = cp_Get std t k)"
proof -
  let ?f = "cp_first std t key" and ?p = "\<lparr>pkey = key, pvalue = v\<rparr>"
  have nz: "cp_capacity t \<noteq> 0" using assms(1) by (simp add: cp_wf_def)
  have b: "?f + 15 \<le> length (cp_dict t)" using cp_bounds(1) [OF assms(1), of std key] by simp
  then show ?thesis
  proof (cases rule: scan_cases [where P = "\<lambda>q. pkey q = INVALID \<or> pkey q = key"])
    case (found j)
    let ?t = "t\<lparr>cp_dict := (cp_dict t)[j := ?p], cp_size := cp_size t + 1\<rparr>"
    have j: "j < length (cp_dict t)" using found(3) b by simp
    have ins: "cp_Insert std t key v = Some (?t, INVALID)"
      using found j nz by (simp add: cp_Insert_def Let_def locksize_def wr_ok)
    have "scan (\<lambda>q. pkey q = key) ((cp_dict t)[j := ?p]) ?f 15 = Some (Some j)"
      using b found(2,3) found(5) j by (subst scan_Some_iff) (auto simp: nth_list_update)
    moreover have "cp_first std ?t key = ?f" by (simp add: cp_first_def)
    ultimately have get: "cp_Get std ?t key = Some v"
      using nz j by (simp add: cp_Get_def locksize_def rd_ok)
    have "cp_Get std ?t k = cp_Get std t k" if k: "k \<noteq> key" "k \<noteq> INVALID" for k
    proof -
      have old: "pkey (cp_dict t ! j) \<noteq> k" using found(4) k by auto
      have upd: "scan (\<lambda>q. pkey q = k) ((cp_dict t)[j := ?p]) i n =
          scan (\<lambda>q. pkey q = k) (cp_dict t) i n" for i n
        using k old j by (intro scan_update_other) simp_all
      have same: "rd ((cp_dict t)[j := ?p]) ix = rd (cp_dict t) ix"
        if "scan (\<lambda>q. pkey q = k) (cp_dict t) i 15 = Some (Some ix)" "i + 15 \<le> length (cp_dict t)" for i ix
        using that old by (cases "ix = j") (auto simp: scan_Some_iff rd_def)
      have bk: "cp_first std t k + 15 \<le> length (cp_dict t)" "cp_next std t k + 15 \<le> length (cp_dict t)"
        using cp_bounds [OF assms(1), of std k] by simp_all
      show ?thesis
        using same [OF _ bk(1)] same [OF _ bk(2)]
        by (auto simp: cp_Get_def locksize_def cp_first_def cp_next_def upd split: option.splits bind_splits)
    qed
    with ins get show ?thesis by blast
  next
    case none
    with assms(3) show ?thesis by (auto simp: cp_has_room_def)
  qed
qed

lemma cp_insert_then_get_witness:
  "\<exists>t'. cp_Insert (\<lambda>_ _. 21) (CuckooProbingHash 32) 5 77 = Some (t', INVALID) \<and>
     cp_Get (\<lambda>_ _. 21) t' 5 = Some 77 \<and>
     (\<forall>k. k \<noteq> 5 \<and> k \<noteq> INVALID \<longrightarrow>
        cp_Get (\<lambda>_ _. 21) t' k = cp_Get (\<lambda>_ _. 21) (CuckooProbingHash 32) k)"
proof -
  have f: "cp_first (\<lambda>_ _. 21) (CuckooProbingHash 32) 5 = 16"
    by (simp add: cp_first_def CuckooProbingHash_def first_index_def locksize_def h_def hash_funcs_def)
  have "cp_has_room (\<lambda>_ _. 21) (CuckooProbingHash 32) 5"
    by (auto simp: cp_has_room_def f)
      (auto simp: CuckooProbingHash_def fresh_pair_def intro: exI [of _ 0])
  then show ?thesis
    by (intro cp_insert_then_get) (simp_all add: cp_wf_new INVALID_def)
qed

text \<open>
  A displacement puts the old pair into the second cluster of the \<^emph>\<open>new\<close> key, while lookups
  search the second cluster of the key itself. In the table below every key has cluster 0
  first; key 100 has cluster 2 next and all others cluster 1.
\<close>

definition split_std :: "bytes \<Rightarrow> u64 \<Rightarrow> u64" where
  "split_std bs seed = (if seed = 951125 then if hd bs = 100 then 32 else 16 else 0)"

definition full_cluster :: cp_table where
  "full_cluster = \<lparr>cp_capacity = 48,
     cp_dict = map (\<lambda>i. \<lparr>pkey = of_nat i, pvalue = of_nat (i + 1)\<rparr>) [0..<15] @ replicate 33 fresh_pair,
     cp_size = 15\<rparr>"


end
