(* ===== verification/Extents.thy ===== *)
theory Extents
  imports Prelude
begin

text \<open>
  How \<open>Insert_extent\<close> of the server's tables (\<^verbatim>\<open>server/src/cceh.cpp\<close>, \<^verbatim>\<open>server/src/static_hash.cpp\<close>)
  cuts a run of pages into aligned pieces, and that the rest of the run gets shorter.
\<close>

text \<open>
  \<^verbatim>\<open>ffs\<close> takes an \<^verbatim>\<open>int\<close> and \<^verbatim>\<open>__builtin_ctz\<close> an \<^verbatim>\<open>unsigned int\<close>: both see the low 32 bits.
  \<open>low_bit\<close> is the position of the lowest set bit, if there is one.
\<close>

definition low_bit :: "u64 \<Rightarrow> nat option" where
  "low_bit w = find (\<lambda>i. bit w i) [0..<32]"

text \<open>The size of the next piece of an extent of \<open>len > 1\<close> pages at \<open>current_key\<close>.\<close>

definition subextent :: "Key_t \<Rightarrow> u64 \<Rightarrow> u64 option" where
  "subextent current_key len =
     (if current_key mod 2 = 1 then Some 1
      else if current_key \<noteq> 0 then do {
        order \<leftarrow> low_bit current_key;
        n \<leftarrow> low_bit (min len (push_bit order 1));
        if n < 31 then Some (push_bit n 1) else None }
      else Some (len div 2))"

lemma low_bit_le: "low_bit w = Some n \<Longrightarrow> 2 ^ n \<le> unat w \<and> n < 32"
proof -
  assume "low_bit w = Some n"
  then have "bit w n" "n < 32" by (auto simp: low_bit_def find_Some_iff)
  then have "bit (unat w) n" by (simp add: bit_unsigned_iff)
  then have "odd (unat w div 2 ^ n)" by (simp add: bit_iff_odd)
  then have "unat w div 2 ^ n \<noteq> 0" by (metis even_zero)
  then show ?thesis using \<open>n < 32\<close> by (simp add: div_eq_0_iff not_less)
qed

lemma subextent_bounds:
  assumes "len \<noteq> 0" "len \<noteq> 1" "subextent current_key len = Some n"
  shows "0 < n \<and> n \<le> len"
proof -
  have len: "2 \<le> unat len"
    using assms(1,2) by (metis One_nat_def less_2_cases not_less unat_1 unat_eq_zero word_unat_eq_iff)
  consider "n = 1" | m k where "n = push_bit m 1" "m < 31" "low_bit (min len k) = Some m"
    | "n = len div 2"
    using assms(3) by (auto simp: subextent_def split: if_splits bind_splits)
  then show ?thesis
  proof cases
    case 1
    with len show ?thesis by (simp add: word_le_nat_alt)
  next
    case 2
    have "unat (push_bit m 1 :: u64) = 2 ^ m"
      using \<open>m < 31\<close> by (simp add: push_bit_eq_mult unat_pow2)
    moreover have "unat (min len k) \<le> unat len"
      by (simp add: word_le_nat_alt [symmetric])
    with low_bit_le [OF 2(3)] have "2 ^ m \<le> unat len" by simp
    ultimately show ?thesis using 2(1) by (simp add: word_le_nat_alt word_less_nat_alt)
  next
    case 3
    with len show ?thesis by (simp add: word_le_nat_alt word_less_nat_alt unat_div)
  qed
qed

lemma subextent_decreases:
  "len \<noteq> 0 \<Longrightarrow> len \<noteq> 1 \<Longrightarrow> subextent current_key len = Some n \<Longrightarrow> unat (len - n) < unat len"
  using subextent_bounds [of len current_key n] by (auto simp: word_le_nat_alt word_less_nat_alt unat_sub)

end
