(* ===== verification/CCEH_Table.thy ===== *)
theory CCEH_Table
  imports Hash_Functions Table_Interface Extents
begin

text \<open>
  \<^verbatim>\<open>CCEH\<close> (\<^verbatim>\<open>server/src/cceh.cpp\<close>), cacheline-conscious extendible hashing, the table of the
  default server build. A directory of \<open>2 ^ depth\<close> entries, indexed by the leading bits of the
  hash, points to segments of 1024 slots; several entries share a segment whose local depth is
  smaller. A full probe window splits the segment and, if needed, doubles the directory.

  Segments live in an explicit store and are named by their position in it, so that directory
  entries can share them. The build does not define \<^verbatim>\<open>INPLACE\<close>: a split allocates two new
  segments. An operation is one step; the locks are the subject of \<^verbatim>\<open>Segment_Lock\<close>. The
  \<^verbatim>\<open>RETRY\<close> loop of \<open>Insert\<close> is recursion on fuel.
\<close>

section \<open>State\<close>

definition kSegmentBits :: nat where "kSegmentBits = 8"
definition kMask :: u64 where "kMask = push_bit kSegmentBits 1 - 1"
definition kSegmentSize :: nat where "kSegmentSize = 2 ^ kSegmentBits * 16 * 4"
definition kNumPairPerCacheLine :: nat where "kNumPairPerCacheLine = 4"
definition kNumCacheLine :: nat where "kNumCacheLine = 8"

text \<open>A \<^verbatim>\<open>Pair\<close> is 16 bytes.\<close>

definition kNumSlot :: nat where "kNumSlot = kSegmentSize div 16"

definition window :: nat where "window = kNumPairPerCacheLine * kNumCacheLine"

lemma kNumSlot_eq: "kNumSlot = 1024"
  by (simp add: kNumSlot_def kSegmentSize_def kSegmentBits_def)

lemma window_eq: "window = 32"
  by (simp add: window_def kNumPairPerCacheLine_def kNumCacheLine_def)

record Segment =
  slots :: "Pair list"
  local_depth :: nat

definition new_Segment :: "nat \<Rightarrow> Segment" where
  "new_Segment d = \<lparr>slots = replicate kNumSlot fresh_pair, local_depth = d\<rparr>"

record cceh =
  depth :: nat
  dirs :: "nat list"
  segs :: "Segment list"

section \<open>Operations\<close>

text \<open>
  \<^verbatim>\<open>key_hash >> (64 - n)\<close>. A shift count of 64, or a wrapped-around one, is undefined
  behaviour; the definitions below check \<open>1 \<le> n \<le> 64\<close> where the code shifts.
\<close>

definition top_bits :: "u64 \<Rightarrow> nat \<Rightarrow> nat" where
  "top_bits w n = unat (drop_bit (64 - n) w)"

definition slot_of :: "u64 \<Rightarrow> nat" where
  "slot_of key_hash = unat (key_hash AND kMask) * kNumPairPerCacheLine"

text \<open>The probe loop \<^verbatim>\<open>loc = (y + i) % kNumSlot\<close> over the offsets that are left.\<close>

fun cscan :: "(Pair \<Rightarrow> bool) \<Rightarrow> Pair list \<Rightarrow> nat \<Rightarrow> nat list \<Rightarrow> nat option option" where
  "cscan P ps y [] = Some None"
| "cscan P ps y (i # is) = do {
     p \<leftarrow> rd ps ((y + i) mod kNumSlot);
     if P p then Some (Some ((y + i) mod kNumSlot)) else cscan P ps y is }"

text \<open>\<open>Insert4split\<close> drops the pair, with a message, when the window is full.\<close>

definition Insert4split :: "Pair list \<Rightarrow> Pair \<Rightarrow> nat \<Rightarrow> Pair list option" where
  "Insert4split ps p loc = do {
     r \<leftarrow> cscan (\<lambda>q. pkey q = INVALID) ps loc [0..<window];
     case r of None \<Rightarrow> Some ps | Some slot \<Rightarrow> wr ps slot p }"

fun split_loop ::
  "(bytes \<Rightarrow> u64 \<Rightarrow> u64) \<Rightarrow> u64 \<Rightarrow> Pair list \<Rightarrow> Pair list \<Rightarrow> Pair list \<Rightarrow> (Pair list \<times> Pair list) option" where
  "split_loop std pattern [] s0 s1 = Some (s0, s1)"
| "split_loop std pattern (p # ps) s0 s1 =
     (let key_hash = h std (pkey p)
      in if key_hash AND pattern \<noteq> 0
         then do { s1' \<leftarrow> Insert4split s1 p (slot_of key_hash); split_loop std pattern ps s0 s1' }
         else do { s0' \<leftarrow> Insert4split s0 p (slot_of key_hash); split_loop std pattern ps s0' s1 })"

definition Split :: "(bytes \<Rightarrow> u64 \<Rightarrow> u64) \<Rightarrow> Segment \<Rightarrow> (Segment \<times> Segment) option" where
  "Split std seg =
     (if 64 \<le> local_depth seg then None
      else let d = local_depth seg + 1;
               pattern = push_bit (64 - local_depth seg - 1) 1
           in do {
             (s0, s1) \<leftarrow> split_loop std pattern (slots seg)
                (slots (new_Segment d)) (slots (new_Segment d));
             Some (\<lparr>slots = s0, local_depth = d\<rparr>, \<lparr>slots = s1, local_depth = d\<rparr>) })"

definition CCEH :: "nat \<Rightarrow> cceh option" where
  "CCEH initCap =
     (if initCap div kNumSlot = 0 then None
      else let d = ilog2 (initCap div kNumSlot)
           in Some \<lparr>depth = d, dirs = [0..<2 ^ d], segs = replicate (2 ^ d) (new_Segment d)\<rparr>)"

text \<open>The loop over the directory when it is doubled: entry \<open>x\<close> gets the two new segments.\<close>

definition double_dir :: "nat list \<Rightarrow> nat \<Rightarrow> nat \<Rightarrow> nat \<Rightarrow> nat list" where
  "double_dir d x s0 s1 =
     concat (map (\<lambda>i. if i = x then [s0, s1] else [d ! i, d ! i]) [0..<length d])"

text \<open>\<^verbatim>\<open>for (i = 0; i < n; ++i) d[loc + i] = s\<close>\<close>

fun fill :: "nat list \<Rightarrow> nat \<Rightarrow> nat \<Rightarrow> nat \<Rightarrow> nat list option" where
  "fill d loc 0 s = Some d"
| "fill d loc (Suc n) s = do { d' \<leftarrow> wr d loc s; fill d' (Suc loc) n s }"

text \<open>The directory update of a split that does not double the directory.\<close>

definition update_dir :: "nat list \<Rightarrow> nat \<Rightarrow> nat \<Rightarrow> nat \<Rightarrow> nat \<Rightarrow> nat \<Rightarrow> nat list option" where
  "update_dir d dp ld x s0 s1 =
     (if dp = ld + 1 then
        if x mod 2 = 0 then do { d1 \<leftarrow> wr d (x + 1) s1; wr d1 x s0 }
        else do { d1 \<leftarrow> wr d x s1; wr d1 (x - 1) s0 }
      else let stride = 2 ^ (dp - ld); loc = x - x mod stride
           in do {
             d1 \<leftarrow> fill d (loc + stride div 2) (stride div 2) s1;
             fill d1 loc (stride div 2) s0 })"

text \<open>A slot is taken if it is empty or its key does not belong to the segment.\<close>

definition free_slot :: "(bytes \<Rightarrow> u64 \<Rightarrow> u64) \<Rightarrow> nat \<Rightarrow> nat \<Rightarrow> Pair \<Rightarrow> bool" where
  "free_slot std ld pattern p \<longleftrightarrow>
     (top_bits (h std (pkey p)) ld \<noteq> pattern \<or> pkey p = INVALID) \<and> pkey p \<noteq> SENTINEL"

text \<open>
  What follows a full window: split the segment, then link the halves into the directory.
\<close>

definition cceh_grow :: "(bytes \<Rightarrow> u64 \<Rightarrow> u64) \<Rightarrow> cceh \<Rightarrow> u64 \<Rightarrow> Segment \<Rightarrow> cceh option" where
  "cceh_grow std t key_hash seg =
     (let x = top_bits key_hash (depth t); n = length (segs t); ld = local_depth seg
      in do {
        (s0, s1) \<leftarrow> Split std seg;
        if ld = depth t then
          Some \<lparr>depth = depth t + 1, dirs = double_dir (dirs t) x n (n + 1),
                segs = segs t @ [s0, s1]\<rparr>
        else do {
          d \<leftarrow> update_dir (dirs t) (depth t) ld x n (n + 1);
          Some (t\<lparr>dirs := d, segs := segs t @ [s0, s1]\<rparr>) } })"

definition shifts_ok :: "nat \<Rightarrow> nat \<Rightarrow> bool" where
  "shifts_ok dp ld \<longleftrightarrow> 1 \<le> dp \<and> dp \<le> 64 \<and> 1 \<le> ld \<and> ld \<le> dp"

fun cceh_Insert ::
  "(bytes \<Rightarrow> u64 \<Rightarrow> u64) \<Rightarrow> nat \<Rightarrow> cceh \<Rightarrow> Key_t \<Rightarrow> Value_t \<Rightarrow> (cceh \<times> Key_t) option" where
  "cceh_Insert std 0 t key value = None"
| "cceh_Insert std (Suc fuel) t key value =
     (let key_hash = h std key; y = slot_of key_hash; x = top_bits key_hash (depth t)
      in do {
        sid \<leftarrow> rd (dirs t) x;
        seg \<leftarrow> rd (segs t) sid;
        if \<not> shifts_ok (depth t) (local_depth seg) then None
        else do {
          r \<leftarrow> cscan (free_slot std (local_depth seg) (x div 2 ^ (depth t - local_depth seg)))
                (slots seg) y [0..<window];
          case r of
            Some loc \<Rightarrow> do {
              ps \<leftarrow> wr (slots seg) loc \<lparr>pkey = key, pvalue = value\<rparr>;
              Some (t\<lparr>segs := (segs t)[sid := seg\<lparr>slots := ps\<rparr>]\<rparr>, INVALID) }
          | None \<Rightarrow> do {
              t' \<leftarrow> cceh_grow std t key_hash seg;
              cceh_Insert std fuel t' key value } } })"

definition cceh_Get :: "(bytes \<Rightarrow> u64 \<Rightarrow> u64) \<Rightarrow> cceh \<Rightarrow> Key_t \<Rightarrow> Value_t option" where
  "cceh_Get std t key =
     (let key_hash = h std key
      in if \<not> (1 \<le> depth t \<and> depth t \<le> 64) then None
      else do {
        sid \<leftarrow> rd (dirs t) (top_bits key_hash (depth t));
        seg \<leftarrow> rd (segs t) sid;
        r \<leftarrow> cscan (\<lambda>p. pkey p = key) (slots seg) (slot_of key_hash) [0..<window];
        case r of None \<Rightarrow> Some NONE
        | Some loc \<Rightarrow> do { p \<leftarrow> rd (slots seg) loc; Some (pvalue p) } })"

definition cceh_InsertOnly ::
  "(bytes \<Rightarrow> u64 \<Rightarrow> u64) \<Rightarrow> cceh \<Rightarrow> Key_t \<Rightarrow> Value_t \<Rightarrow> (cceh \<times> bool) option" where
  "cceh_InsertOnly std t key value =
     (let key_hash = h std key; x = top_bits key_hash (depth t)
      in do {
        sid \<leftarrow> rd (dirs t) x;
        seg \<leftarrow> rd (segs t) sid;
        if \<not> shifts_ok (depth t) (local_depth seg) then None
        else do {
          r \<leftarrow> cscan (\<lambda>p. top_bits (h std (pkey p)) (local_depth seg) \<noteq>
                             x div 2 ^ (depth t - local_depth seg) \<or> pkey p = INVALID)
                (slots seg) (slot_of key_hash) [0..<window];
          case r of None \<Rightarrow> Some (t, False)
          | Some loc \<Rightarrow> do {
              ps \<leftarrow> wr (slots seg) loc \<lparr>pkey = key, pvalue = value\<rparr>;
              Some (t\<lparr>segs := (segs t)[sid := seg\<lparr>slots := ps\<rparr>]\<rparr>, True) } } })"

definition cceh_Delete :: "cceh \<Rightarrow> Key_t \<Rightarrow> bool" where
  "cceh_Delete t key = False"

definition numElem :: "Segment \<Rightarrow> nat" where
  "numElem seg = length (filter (\<lambda>p. pkey p \<noteq> INVALID) (slots seg))"

definition cceh_Capacity :: "cceh \<Rightarrow> nat" where
  "cceh_Capacity t = length (remdups (dirs t)) * kNumSlot"

text \<open>
  \<open>Recovery\<close>: walk over the blocks of the directory and point stray entries of a block to its
  first segment. The last block is skipped by the \<^verbatim>\<open>break\<close>; the result is always false,
  because \<^verbatim>\<open>recovered\<close> is never set.
\<close>

fun recover_block :: "Segment list \<Rightarrow> nat list \<Rightarrow> nat \<Rightarrow> nat \<Rightarrow> nat list \<Rightarrow> nat list option" where
  "recover_block ss d i dc [] = Some d"
| "recover_block ss d i dc (j # js) = do {
     sid \<leftarrow> rd d j;
     seg \<leftarrow> rd ss sid;
     d' \<leftarrow> (if local_depth seg \<noteq> dc then do { s \<leftarrow> rd d i; wr d j s } else Some d);
     recover_block ss d' i dc js }"

lemma recover_block_length: "recover_block ss d i dc js = Some d' \<Longrightarrow> length d' = length d"
  by (induction js arbitrary: d)
    (auto split: bind_splits if_splits dest!: wr_length)

function recover_loop :: "Segment list \<Rightarrow> nat \<Rightarrow> nat list \<Rightarrow> nat \<Rightarrow> nat list option" where
  "recover_loop ss dp d i =
     (if i < length d then do {
        sid \<leftarrow> rd d i;
        seg \<leftarrow> rd ss sid;
        if dp < local_depth seg then None
        else let stride = 2 ^ (dp - local_depth seg); buddy = i + stride
             in if buddy = length d then Some d
                else do {
                  d' \<leftarrow> recover_block ss d i (local_depth seg) (rev [i + 1..<buddy]);
                  recover_loop ss dp d' (i + stride) } }
      else Some d)"
  by pat_completeness auto
termination
  by (relation "measure (\<lambda>(ss, dp, d, i). length d - i)")
    (auto dest!: recover_block_length simp: diff_less_mono2)

declare recover_loop.simps [simp del]

definition cceh_Recovery :: "cceh \<Rightarrow> (cceh \<times> bool) option" where
  "cceh_Recovery t = do {
     d \<leftarrow> recover_loop (segs t) (depth t) (dirs t) 0;
     Some (t\<lparr>dirs := d\<rparr>, False) }"

text \<open>\<open>FindAnyway\<close>: every slot of every directory entry, in order.\<close>

fun find_anyway :: "Segment list \<Rightarrow> nat list \<Rightarrow> Key_t \<Rightarrow> Value_t option" where
  "find_anyway ss [] key = Some NONE"
| "find_anyway ss (sid # ds) key = do {
     seg \<leftarrow> rd ss sid;
     r \<leftarrow> scan (\<lambda>p. pkey p = key) (slots seg) 0 kNumSlot;
     case r of Some j \<Rightarrow> do { p \<leftarrow> rd (slots seg) j; Some (pvalue p) }
     | None \<Rightarrow> find_anyway ss ds key }"

definition cceh_FindAnyway :: "cceh \<Rightarrow> Key_t \<Rightarrow> Value_t option" where
  "cceh_FindAnyway t key = find_anyway (segs t) (dirs t) key"

section \<open>Extents\<close>

function cceh_Insert_extent ::
  "(bytes \<Rightarrow> u64 \<Rightarrow> u64) \<Rightarrow> nat \<Rightarrow> cceh \<Rightarrow> Key_t \<Rightarrow> u64 \<Rightarrow> u64 \<Rightarrow> Value_t \<Rightarrow> cceh option" where
  "cceh_Insert_extent std fuel t key cluster_num len value =
     (if len = 0 then Some t
      else let current_key = key + cluster_num
           in do {
             (t', _) \<leftarrow> cceh_Insert std fuel t current_key value;
             if len = 1 then Some t'
             else do {
               n \<leftarrow> subextent current_key len;
               cceh_Insert_extent std fuel t' key (cluster_num + n) (len - n) value } })"
  by pat_completeness auto
termination
  by (relation "measure (\<lambda>(std, fuel, t, key, cluster_num, len, value). unat len)")
    (auto intro: subextent_decreases)

declare cceh_Insert_extent.simps [simp del]

text \<open>The loop of \<open>Get_extent\<close> returns in its first turn. \<^verbatim>\<open>__builtin_ctz(0)\<close> is undefined.\<close>

definition cceh_Get_extent :: "(bytes \<Rightarrow> u64 \<Rightarrow> u64) \<Rightarrow> cceh \<Rightarrow> Key_t \<Rightarrow> u64 \<Rightarrow> Value_t option" where
  "cceh_Get_extent std t key cluster_num = do {
     _ \<leftarrow> low_bit (key + cluster_num);
     cceh_Get std t (key + cluster_num) }"

text \<open>
  \<open>Utilization\<close>: the pairs that belong to their segment, and the segments, counted by walking the
  directory in strides. The result of the code is \<open>100 * sum / (cnt * kNumSlot)\<close>.
\<close>

definition belongs :: "(bytes \<Rightarrow> u64 \<Rightarrow> u64) \<Rightarrow> nat \<Rightarrow> nat \<Rightarrow> Pair \<Rightarrow> bool" where
  "belongs std ld pattern p \<longleftrightarrow> top_bits (h std (pkey p)) ld = pattern \<and> pkey p \<noteq> INVALID"

function cceh_Utilization_loop ::
  "(bytes \<Rightarrow> u64 \<Rightarrow> u64) \<Rightarrow> cceh \<Rightarrow> nat \<Rightarrow> nat \<Rightarrow> nat \<Rightarrow> (nat \<times> nat) option" where
  "cceh_Utilization_loop std t i cnt used =
     (if i < length (dirs t) then do {
        seg \<leftarrow> Option.bind (rd (dirs t) i) (rd (segs t));
        if \<not> shifts_ok (depth t) (local_depth seg) then None
        else let stride = 2 ^ (depth t - local_depth seg)
             in cceh_Utilization_loop std t (i + stride) (cnt + 1)
                  (used + length (filter (belongs std (local_depth seg) (i div stride)) (slots seg))) }
      else Some (cnt, used))"
  by pat_completeness auto
termination
  by (relation "measure (\<lambda>(std, t, i, cnt, used). length (dirs t) - i)") (auto simp: diff_less_mono2)

declare cceh_Utilization_loop.simps [simp del]

definition cceh_Utilization :: "(bytes \<Rightarrow> u64 \<Rightarrow> u64) \<Rightarrow> cceh \<Rightarrow> (nat \<times> nat) option" where
  "cceh_Utilization std t = cceh_Utilization_loop std t 0 0 0"

section \<open>Hash prefixes and probe windows\<close>

lemma top_bits_div: "top_bits w n = unat w div 2 ^ (64 - n)"
  by (simp only: top_bits_def unat_drop_bit_eq) (simp only: drop_bit_eq_div)

lemma top_bits_shorter:
  assumes "ld \<le> dp" "dp \<le> 64"
  shows "top_bits w ld = top_bits w dp div 2 ^ (dp - ld)"
proof -
  have "64 - ld = (64 - dp) + (dp - ld)" using assms by simp
  then have "unat w div 2 ^ (64 - ld) = unat w div 2 ^ (64 - dp) div 2 ^ (dp - ld)"
    by (simp only: power_add div_mult2_eq)
  then show ?thesis
    using assms by (simp add: top_bits_div)
qed

lemma top_bits_less: "n \<le> 64 \<Longrightarrow> top_bits w n < 2 ^ n"
proof -
  assume n: "n \<le> 64"
  have "unat w < 2 ^ (64 - n) * 2 ^ n"
    using unat_bound [of w] n by (simp add: power_add [symmetric])
  then show ?thesis
    using n by (simp add: top_bits_div less_mult_imp_div_less mult.commute)
qed

lemma top_bits_extend:
  assumes "ld < 64"
  shows "top_bits w (Suc ld) = 2 * top_bits w ld + (if w AND push_bit (64 - ld - 1) 1 \<noteq> 0 then 1 else 0)"
proof -
  have "w AND push_bit (63 - ld) 1 \<noteq> 0 \<longleftrightarrow> bit w (63 - ld)"
    using assms by (simp add: and_exp_eq_0_iff_not_bit push_bit_eq_mult)
  also have "\<dots> \<longleftrightarrow> odd (unat w div 2 ^ (63 - ld))"
    using bit_unsigned_iff [of w "63 - ld", where ?'a = nat] by (simp add: bit_iff_odd)
  finally have odd: "w AND push_bit (63 - ld) 1 \<noteq> 0 \<longleftrightarrow> odd (top_bits w (Suc ld))"
    using assms by (simp add: top_bits_div)
  have "top_bits w ld = top_bits w (Suc ld) div 2"
    using top_bits_shorter [of ld "Suc ld" w] assms by simp
  with odd show ?thesis
    by (cases "odd (top_bits w (Suc ld))") auto
qed

definition in_window :: "nat \<Rightarrow> nat \<Rightarrow> bool" where
  "in_window y loc \<longleftrightarrow> (\<exists>i<window. loc = (y + i) mod kNumSlot)"

lemma window_slot [simp]: "(y + i) mod kNumSlot < kNumSlot"
  by (simp add: kNumSlot_eq)

lemma cscan_cases:
  assumes "length ps = kNumSlot"
  obtains (found) is1 i is2 where "ofs = is1 @ i # is2"
      "cscan P ps y ofs = Some (Some ((y + i) mod kNumSlot))" "P (ps ! ((y + i) mod kNumSlot))"
      "\<And>j. j \<in> set is1 \<Longrightarrow> \<not> P (ps ! ((y + j) mod kNumSlot))"
  | (none) "cscan P ps y ofs = Some None"
      "\<And>j. j \<in> set ofs \<Longrightarrow> \<not> P (ps ! ((y + j) mod kNumSlot))"
proof (induction ofs arbitrary: thesis)
  case Nil
  then show ?case by simp
next
  case (Cons a ofs)
  show ?case
  proof (cases "P (ps ! ((y + a) mod kNumSlot))")
    case True
    then show ?thesis
      using Cons.prems(1) [of "[]" a ofs] assms by (simp add: rd_ok)
  next
    case False
    then have step: "cscan P ps y (a # ofs) = cscan P ps y ofs"
      using assms by (simp add: rd_ok)
    show ?thesis
    proof (rule Cons.IH)
      fix is1 i is2
      assume "ofs = is1 @ i # is2" "cscan P ps y ofs = Some (Some ((y + i) mod kNumSlot))"
        "P (ps ! ((y + i) mod kNumSlot))" "\<And>j. j \<in> set is1 \<Longrightarrow> \<not> P (ps ! ((y + j) mod kNumSlot))"
      then show thesis
        using Cons.prems(1) [of "a # is1" i is2] False step by auto
    next
      assume "cscan P ps y ofs = Some None" "\<And>j. j \<in> set ofs \<Longrightarrow> \<not> P (ps ! ((y + j) mod kNumSlot))"
      then show thesis
        using Cons.prems(2) False step by auto
    qed
  qed
qed

text \<open>The outcome of a probe of the whole window.\<close>

lemma probe_cases:
  assumes "length ps = kNumSlot"
  obtains (found) loc where "cscan P ps y [0..<window] = Some (Some loc)" "in_window y loc"
      "loc < kNumSlot" "P (ps ! loc)"
  | (none) "cscan P ps y [0..<window] = Some None"
      "\<And>loc. in_window y loc \<Longrightarrow> \<not> P (ps ! loc)"
  using assms
proof (cases rule: cscan_cases [where P = P and y = y and ofs = "[0..<window]"])
  case (found is1 i is2)
  then have "i \<in> set [0..<window]" by simp
  then have "in_window y ((y + i) mod kNumSlot)" by (auto simp: in_window_def)
  with found that(1) show ?thesis by simp
next
  case none
  with that(2) show ?thesis by (auto simp: in_window_def)
qed

section \<open>Invariants\<close>

text \<open>
  Every key of a segment has the segment's prefix and lies in its own probe window. The second
  part takes the array alone, since a split fills two arrays before they become segments.
\<close>

definition placed :: "(bytes \<Rightarrow> u64 \<Rightarrow> u64) \<Rightarrow> nat \<Rightarrow> nat \<Rightarrow> Pair list \<Rightarrow> bool" where
  "placed std ld pattern ps \<longleftrightarrow> length ps = kNumSlot \<and>
     (\<forall>j<kNumSlot. pkey (ps ! j) \<noteq> INVALID \<longrightarrow>
        top_bits (h std (pkey (ps ! j))) ld = pattern \<and>
        in_window (slot_of (h std (pkey (ps ! j)))) j)"

definition seg_ok :: "(bytes \<Rightarrow> u64 \<Rightarrow> u64) \<Rightarrow> nat \<Rightarrow> Segment \<Rightarrow> bool" where
  "seg_ok std pattern seg \<longleftrightarrow> placed std (local_depth seg) pattern (slots seg)"

abbreviation seg_at :: "cceh \<Rightarrow> nat \<Rightarrow> Segment" where
  "seg_at t i \<equiv> segs t ! (dirs t ! i)"

abbreviation prefix_at :: "cceh \<Rightarrow> nat \<Rightarrow> nat" where
  "prefix_at t i \<equiv> i div 2 ^ (depth t - local_depth (seg_at t i))"

text \<open>
  The directory: two entries share a segment exactly when they agree in the leading bits that
  the local depth of the segment counts.
\<close>

definition dir_ok :: "cceh \<Rightarrow> bool" where
  "dir_ok t \<longleftrightarrow> 1 \<le> depth t \<and> depth t \<le> 64 \<and> length (dirs t) = 2 ^ depth t \<and>
     (\<forall>i<2 ^ depth t. dirs t ! i < length (segs t) \<and>
        1 \<le> local_depth (seg_at t i) \<and> local_depth (seg_at t i) \<le> depth t \<and>
        (\<forall>j<2 ^ depth t. dirs t ! j = dirs t ! i \<longleftrightarrow>
           j div 2 ^ (depth t - local_depth (seg_at t i)) = prefix_at t i))"

definition cceh_ok :: "(bytes \<Rightarrow> u64 \<Rightarrow> u64) \<Rightarrow> cceh \<Rightarrow> bool" where
  "cceh_ok std t \<longleftrightarrow> dir_ok t \<and> (\<forall>i<2 ^ depth t. seg_ok std (prefix_at t i) (seg_at t i))"

definition cceh_keys :: "cceh \<Rightarrow> Key_t multiset" where
  "cceh_keys t = (\<Sum>s\<in>set (dirs t). keys_of (slots (segs t ! s)))"

lemma dir_okD:
  assumes "dir_ok t" "i < 2 ^ depth t"
  shows "dirs t ! i < length (segs t)" "1 \<le> local_depth (seg_at t i)"
    "local_depth (seg_at t i) \<le> depth t"
    "j < 2 ^ depth t \<Longrightarrow> dirs t ! j = dirs t ! i \<longleftrightarrow>
       j div 2 ^ (depth t - local_depth (seg_at t i)) = prefix_at t i"
  using assms by (simp_all add: dir_ok_def)

lemma cceh_okD:
  assumes "cceh_ok std t"
  shows "dir_ok t" "1 \<le> depth t" "depth t \<le> 64" "length (dirs t) = 2 ^ depth t"
    "i < 2 ^ depth t \<Longrightarrow> seg_ok std (prefix_at t i) (seg_at t i)"
  using assms by (simp_all add: cceh_ok_def dir_ok_def)

lemma placed_length [simp]: "placed std ld pattern ps \<Longrightarrow> length ps = kNumSlot"
  by (simp add: placed_def)

lemma placed_new: "placed std ld pattern (slots (new_Segment d))"
  by (simp add: placed_def new_Segment_def fresh_pair_def)

lemma placed_update:
  assumes "placed std ld pattern ps" "pkey p \<noteq> INVALID \<Longrightarrow>
     top_bits (h std (pkey p)) ld = pattern \<and> in_window (slot_of (h std (pkey p))) loc"
  shows "placed std ld pattern (ps[loc := p])"
  unfolding placed_def
proof (intro conjI allI impI)
  show "length (ps[loc := p]) = kNumSlot" using assms(1) by simp
  fix j assume j: "j < kNumSlot" "pkey (ps[loc := p] ! j) \<noteq> INVALID"
  have "top_bits (h std (pkey (ps[loc := p] ! j))) ld = pattern \<and>
      in_window (slot_of (h std (pkey (ps[loc := p] ! j)))) j"
    using assms j by (cases "j = loc") (simp_all add: placed_def)
  then show "top_bits (h std (pkey (ps[loc := p] ! j))) ld = pattern"
    "in_window (slot_of (h std (pkey (ps[loc := p] ! j)))) j"
    by simp_all
qed

text \<open>In a segment with the invariant only empty slots count as free.\<close>

lemma free_slot_empty:
  assumes "placed std ld pattern ps" "j < kNumSlot"
  shows "free_slot std ld pattern (ps ! j) \<longleftrightarrow> pkey (ps ! j) = INVALID"
  using assms by (auto simp: placed_def free_slot_def INVALID_def SENTINEL_def)

section \<open>Splitting a segment\<close>

lemma Insert4split_step:
  assumes "placed std ld pattern ps"
    "pkey p \<noteq> INVALID \<Longrightarrow> top_bits (h std (pkey p)) ld = pattern"
  shows "\<exists>ps'. Insert4split ps p (slot_of (h std (pkey p))) = Some ps' \<and>
     placed std ld pattern ps' \<and> keys_of ps' \<subseteq># keys_of ps + key_live p"
proof -
  have "length ps = kNumSlot" using assms(1) by simp
  then show ?thesis
  proof (cases rule: probe_cases [where P = "\<lambda>q. pkey q = INVALID" and y = "slot_of (h std (pkey p))"])
    case (found loc)
    with assms have "placed std ld pattern (ps[loc := p])"
      by (intro placed_update) simp_all
    moreover have "keys_of (ps[loc := p]) = keys_of ps + key_live p"
      using keys_of_exchange [OF mset_exchange [of loc ps p]] found assms(1) by simp
    ultimately show ?thesis
      using found assms(1) by (simp add: Insert4split_def wr_ok)
  next
    case none
    with assms(1) show ?thesis by (simp add: Insert4split_def)
  qed
qed

lemma split_loop_step:
  assumes "ld < 64" "placed std (Suc ld) (2 * pattern) s0" "placed std (Suc ld) (2 * pattern + 1) s1"
    "\<forall>p\<in>set ps. pkey p \<noteq> INVALID \<longrightarrow> top_bits (h std (pkey p)) ld = pattern"
  shows "\<exists>s0' s1'. split_loop std (push_bit (64 - ld - 1) 1) ps s0 s1 = Some (s0', s1') \<and>
     placed std (Suc ld) (2 * pattern) s0' \<and> placed std (Suc ld) (2 * pattern + 1) s1' \<and>
     keys_of s0' + keys_of s1' \<subseteq># keys_of s0 + keys_of s1 + keys_of ps"
  using assms(2-4)
proof (induction ps arbitrary: s0 s1)
  case (Cons p ps)
  let ?pat = "push_bit (64 - ld - 1) 1 :: u64" and ?h = "h std (pkey p)"
  have keys: "keys_of (p # ps) = key_live p + keys_of ps"
    by (simp add: key_live_def)
  show ?case
  proof (cases "?h AND ?pat \<noteq> 0")
    case True
    have "top_bits ?h (Suc ld) = 2 * pattern + 1" if "pkey p \<noteq> INVALID"
      using Cons.prems(3) that True top_bits_extend [OF assms(1), of ?h] by simp
    then obtain s1a where s1a: "Insert4split s1 p (slot_of ?h) = Some s1a"
      "placed std (Suc ld) (2 * pattern + 1) s1a" "keys_of s1a \<subseteq># keys_of s1 + key_live p"
      using Insert4split_step [OF Cons.prems(2), of p] by blast
    then obtain s0' s1' where r: "split_loop std ?pat ps s0 s1a = Some (s0', s1')"
      "placed std (Suc ld) (2 * pattern) s0'" "placed std (Suc ld) (2 * pattern + 1) s1'"
      "keys_of s0' + keys_of s1' \<subseteq># keys_of s0 + keys_of s1a + keys_of ps"
      using Cons.IH [OF Cons.prems(1) s1a(2)] Cons.prems(3) by auto
    note r(4)
    also have "keys_of s0 + keys_of s1a + keys_of ps \<subseteq># keys_of s0 + (keys_of s1 + key_live p) + keys_of ps"
      using s1a(3) by simp
    also have "\<dots> = keys_of s0 + keys_of s1 + keys_of (p # ps)"
      unfolding keys by (simp add: ac_simps)
    finally show ?thesis
      using r s1a(1) True by (simp del: keys_of_Cons)
  next
    case False
    have "top_bits ?h (Suc ld) = 2 * pattern" if "pkey p \<noteq> INVALID"
      using Cons.prems(3) that False top_bits_extend [OF assms(1), of ?h] by simp
    then obtain s0a where s0a: "Insert4split s0 p (slot_of ?h) = Some s0a"
      "placed std (Suc ld) (2 * pattern) s0a" "keys_of s0a \<subseteq># keys_of s0 + key_live p"
      using Insert4split_step [OF Cons.prems(1), of p] by blast
    then obtain s0' s1' where r: "split_loop std ?pat ps s0a s1 = Some (s0', s1')"
      "placed std (Suc ld) (2 * pattern) s0'" "placed std (Suc ld) (2 * pattern + 1) s1'"
      "keys_of s0' + keys_of s1' \<subseteq># keys_of s0a + keys_of s1 + keys_of ps"
      using Cons.IH [OF s0a(2) Cons.prems(2)] Cons.prems(3) by auto
    note r(4)
    also have "keys_of s0a + keys_of s1 + keys_of ps \<subseteq># (keys_of s0 + key_live p) + keys_of s1 + keys_of ps"
      using s0a(3) by simp
    also have "\<dots> = keys_of s0 + keys_of s1 + keys_of (p # ps)"
      unfolding keys by (simp add: ac_simps)
    finally show ?thesis
      using r s0a(1) False by (simp del: keys_of_Cons)
  qed
qed simp

lemma Split_step:
  assumes "seg_ok std pattern seg" "local_depth seg < 64"
  shows "\<exists>s0 s1. Split std seg = Some (s0, s1) \<and> local_depth s0 = Suc (local_depth seg) \<and>
     local_depth s1 = Suc (local_depth seg) \<and> seg_ok std (2 * pattern) s0 \<and>
     seg_ok std (2 * pattern + 1) s1 \<and> keys_of (slots s0) + keys_of (slots s1) \<subseteq># keys_of (slots seg)"
proof -
  have "\<forall>p\<in>set (slots seg). pkey p \<noteq> INVALID \<longrightarrow>
      top_bits (h std (pkey p)) (local_depth seg) = pattern"
    using assms(1) unfolding seg_ok_def placed_def by (metis in_set_conv_nth)
  from split_loop_step [OF assms(2) placed_new placed_new this]
  show ?thesis
    using assms(2) by (fastforce simp: Split_def seg_ok_def new_Segment_def)
qed

section \<open>Linking the halves into the directory\<close>

lemma block_iff: "0 < m \<Longrightarrow> j div m = k \<longleftrightarrow> k * m \<le> j \<and> j < k * m + m" for j m k :: nat
proof -
  assume "0 < m"
  then have "k \<le> j div m \<longleftrightarrow> k * m \<le> j" "j div m < Suc k \<longleftrightarrow> j < Suc k * m"
    by (rule less_eq_div_iff_mult_less_eq, rule div_less_iff_less_mult)
  then show ?thesis by (auto simp: add.commute)
qed

lemma halves: "j div m div 2 = q \<longleftrightarrow> j div m = 2 * q \<or> j div m = 2 * q + 1" for j m q :: nat
  by auto

lemma fill_eq:
  assumes "loc + n \<le> length d"
  shows "\<exists>d'. fill d loc n s = Some d' \<and> length d' = length d \<and>
     (\<forall>j<length d. d' ! j = (if loc \<le> j \<and> j < loc + n then s else d ! j))"
  using assms
proof (induction n arbitrary: d loc)
  case (Suc n)
  from Suc.IH [of "Suc loc" "d[loc := s]"] Suc.prems obtain d' where
    d': "fill (d[loc := s]) (Suc loc) n s = Some d'" "length d' = length d"
    "\<forall>j<length d. d' ! j = (if Suc loc \<le> j \<and> j < Suc loc + n then s else d[loc := s] ! j)"
    by auto
  have "d' ! j = (if loc \<le> j \<and> j < loc + Suc n then s else d ! j)" if "j < length d" for j
    using d'(3) that by (cases "j = loc") auto
  with d' Suc.prems show ?case by (auto simp: wr_ok)
qed simp

lemma concat_pairs:
  "length (concat (map (\<lambda>i. [f i, g i]) [0..<n])) = 2 * n \<and>
   (\<forall>j<2 * n. concat (map (\<lambda>i. [f i, g i]) [0..<n]) ! j = (if even j then f (j div 2) else g (j div 2)))"
proof (induction n)
  case (Suc n)
  let ?L = "concat (map (\<lambda>i. [f i, g i]) [0..<n])"
  have split: "concat (map (\<lambda>i. [f i, g i]) [0..<Suc n]) = ?L @ [f n, g n]" by simp
  have "(?L @ [f n, g n]) ! j = (if even j then f (j div 2) else g (j div 2))" if "j < 2 * Suc n" for j
  proof -
    have "j < 2 * n \<or> j = 2 * n \<or> j = 2 * n + 1"
      using that by presburger
    then consider "j < 2 * n" | "j = 2 * n" | "j = 2 * n + 1" by blast
    then show ?thesis
      using Suc by cases (simp_all add: nth_append)
  qed
  with Suc split show ?case by simp
qed simp

text \<open>
  In all branches the entries of the split segment are the two halves of a block of the
  directory; \<open>q\<close> is the prefix of the block and \<open>m\<close> the size of a half.
\<close>

definition linked :: "nat list \<Rightarrow> nat \<Rightarrow> nat \<Rightarrow> nat \<Rightarrow> nat \<Rightarrow> (nat \<Rightarrow> nat) \<Rightarrow> bool" where
  "linked d q m s0 s1 old \<longleftrightarrow> (\<forall>j<length d. d ! j =
     (if j div m = 2 * q then s0 else if j div m = 2 * q + 1 then s1 else old j))"

lemma double_dir_linked:
  "length (double_dir d x s0 s1) = 2 * length d \<and>
   linked (double_dir d x s0 s1) x 1 s0 s1 (\<lambda>j. d ! (j div 2))"
proof -
  have "double_dir d x s0 s1 =
      concat (map (\<lambda>i. [if i = x then s0 else d ! i, if i = x then s1 else d ! i]) [0..<length d])"
    unfolding double_dir_def by (rule arg_cong [of _ _ concat]) simp
  moreover have "j = 2 * x \<longleftrightarrow> even j \<and> j div 2 = x" "j = 2 * x + 1 \<longleftrightarrow> odd j \<and> j div 2 = x" for j
    by auto
  ultimately show ?thesis
    using concat_pairs [of "\<lambda>i. if i = x then s0 else d ! i" "\<lambda>i. if i = x then s1 else d ! i" "length d"]
    by (auto simp: linked_def)
qed

lemma update_dir_linked:
  assumes "ld < dp" "length d = 2 ^ dp" "x < 2 ^ dp"
  shows "\<exists>d'. update_dir d dp ld x s0 s1 = Some d' \<and> length d' = length d \<and>
     linked d' (x div 2 ^ (dp - ld)) (2 ^ (dp - ld - 1)) s0 s1 (\<lambda>j. d ! j)"
proof (cases "dp = ld + 1")
  case True
  let ?q = "x div 2"
  have "length d = 2 * 2 ^ (dp - 1)"
    using assms(1,2) by (metis Suc_diff_1 gr_implies_not0 not_gr_zero power_Suc)
  moreover from this have "?q < 2 ^ (dp - 1)"
    using assms(2,3) by (intro less_mult_imp_div_less) simp
  ultimately have lt: "2 * ?q < length d" "2 * ?q + 1 < length d"
    by linarith+
  show ?thesis
  proof (cases "even x")
    case True
    then have "update_dir d dp ld x s0 s1 = Some (d[2 * ?q + 1 := s1, 2 * ?q := s0])"
      using \<open>dp = ld + 1\<close> lt by (simp add: update_dir_def wr_ok)
    with \<open>dp = ld + 1\<close> lt show ?thesis
      by (auto simp: linked_def nth_list_update)
  next
    case False
    then have "x mod 2 \<noteq> 0" "Suc (2 * ?q) = x" "x - Suc 0 = 2 * ?q" by presburger+
    then have "update_dir d dp ld x s0 s1 = Some (d[2 * ?q + 1 := s1, 2 * ?q := s0])"
      using \<open>dp = ld + 1\<close> lt by (simp add: update_dir_def wr_ok)
    with \<open>dp = ld + 1\<close> lt show ?thesis
      by (auto simp: linked_def nth_list_update)
  qed
next
  case False
  define q m loc where "q = x div 2 ^ (dp - ld)" and "m = (2 :: nat) ^ (dp - ld - 1)"
    and "loc = x - x mod 2 ^ (dp - ld)"
  have D: "(2 :: nat) ^ (dp - ld) = 2 * m"
    using assms(1) unfolding m_def by (metis Suc_diff_1 power_Suc zero_less_diff)
  then have half: "(2 :: nat) ^ (dp - ld) div 2 = m" by simp
  have loc: "loc = 2 * q * m"
    unfolding loc_def q_def minus_mod_eq_mult_div D by simp
  have m: "0 < m" by (simp add: m_def)
  have "q < 2 ^ ld"
    unfolding q_def using assms by (intro less_mult_imp_div_less) (simp add: power_add [symmetric])
  then have "Suc q * 2 ^ (dp - ld) \<le> 2 ^ ld * 2 ^ (dp - ld)" by (intro mult_le_mono1) simp
  also have "\<dots> = length d" using assms by (simp add: power_add [symmetric])
  finally have top: "loc + m + m \<le> length d"
    unfolding D loc by (simp add: algebra_simps)
  then obtain d1 where d1: "fill d (loc + m) m s1 = Some d1" "length d1 = length d"
    "\<forall>j<length d. d1 ! j = (if loc + m \<le> j \<and> j < loc + m + m then s1 else d ! j)"
    using fill_eq [of "loc + m" m d s1] by auto
  then obtain d2 where d2: "fill d1 loc m s0 = Some d2" "length d2 = length d"
    "\<forall>j<length d. d2 ! j = (if loc \<le> j \<and> j < loc + m then s0 else d1 ! j)"
    using fill_eq [of loc m d1 s0] top by auto
  have first: "j div m = 2 * q \<longleftrightarrow> loc \<le> j \<and> j < loc + m" for j
    unfolding block_iff [OF m] loc ..
  have second: "j div m = 2 * q + 1 \<longleftrightarrow> loc + m \<le> j \<and> j < loc + m + m" for j
    unfolding block_iff [OF m] loc by (simp add: algebra_simps)
  have "linked d2 q m s0 s1 (\<lambda>j. d ! j)"
    unfolding linked_def first second using d1(2,3) d2(2,3) by auto
  moreover have "update_dir d dp ld x s0 s1 = Some d2"
    using False d1(1) d2(1) by (simp add: update_dir_def Let_def half loc_def)
  ultimately show ?thesis using d2(2) unfolding q_def m_def by blast
qed

text \<open>
  The directory after a split, by the old one: \<open>e\<close> is 1 if it was doubled and 0 otherwise.
\<close>

lemma div_pow_add: "j div 2 ^ a div 2 ^ b = j div 2 ^ (a + b)" for j :: nat
  by (simp add: power_add div_mult2_eq)

lemma link_cases:
  assumes "dir_ok t" "x < 2 ^ depth t" "length d' = 2 ^ (depth t + e)"
    "local_depth (seg_at t x) < depth t + e"
    "linked d' (prefix_at t x) (2 ^ (depth t + e - local_depth (seg_at t x) - 1)) n (n + 1)
       (\<lambda>j. dirs t ! (j div 2 ^ e))"
    "j < 2 ^ (depth t + e)"
  obtains (left) "j div 2 ^ (depth t + e - local_depth (seg_at t x) - 1) = 2 * prefix_at t x"
      "d' ! j = n" "dirs t ! (j div 2 ^ e) = dirs t ! x"
  | (right) "j div 2 ^ (depth t + e - local_depth (seg_at t x) - 1) = 2 * prefix_at t x + 1"
      "d' ! j = n + 1" "dirs t ! (j div 2 ^ e) = dirs t ! x"
  | (old) "d' ! j = dirs t ! (j div 2 ^ e)" "dirs t ! (j div 2 ^ e) \<noteq> dirs t ! x"
      "j div 2 ^ (depth t + e - local_depth (seg_at t x) - 1) \<noteq> 2 * prefix_at t x"
      "j div 2 ^ (depth t + e - local_depth (seg_at t x) - 1) \<noteq> 2 * prefix_at t x + 1"
proof -
  define ld where "ld = local_depth (seg_at t x)"
  define q where "q = x div 2 ^ (depth t - ld)"
  define m where "m = (2 :: nat) ^ (depth t + e - ld - 1)"
  note ld = dir_okD(2,3) [OF assms(1,2), folded ld_def]
  have j': "j div 2 ^ e < 2 ^ depth t"
    using assms(6) by (intro less_mult_imp_div_less) (simp add: power_add)
  have "dirs t ! (j div 2 ^ e) = dirs t ! x \<longleftrightarrow> j div 2 ^ e div 2 ^ (depth t - ld) = q"
    using dir_okD(4) [OF assms(1,2) j'] by (simp add: ld_def q_def)
  also have "j div 2 ^ e div 2 ^ (depth t - ld) = j div m div 2"
  proof -
    have "e + (depth t - ld) = (depth t + e - ld - 1) + 1" using ld assms(4) ld_def by simp
    then show ?thesis
      using div_pow_add [of j e "depth t - ld"] div_pow_add [of j "depth t + e - ld - 1" 1]
      by (simp add: m_def)
  qed
  also have "j div m div 2 = q \<longleftrightarrow> j div m = 2 * q \<or> j div m = 2 * q + 1" by (rule halves)
  finally have A: "dirs t ! (j div 2 ^ e) = dirs t ! x \<longleftrightarrow> j div m = 2 * q \<or> j div m = 2 * q + 1" .
  have L: "d' ! j = (if j div m = 2 * q then n else if j div m = 2 * q + 1 then n + 1
      else dirs t ! (j div 2 ^ e))"
    using assms(3,5,6) by (simp add: linked_def ld_def q_def m_def)
  show thesis
    using left [folded ld_def, folded q_def m_def] right [folded ld_def, folded q_def m_def]
      old [folded ld_def, folded q_def m_def] A L
    by (metis (full_types))
qed

lemma three_way:
  fixes a q v n w :: nat
  assumes "a = 2 * q \<and> v = n \<or> a = 2 * q + 1 \<and> v = n + 1 \<or>
     a \<noteq> 2 * q \<and> a \<noteq> 2 * q + 1 \<and> v = w \<and> w < n"
  shows "v = n \<longleftrightarrow> a = 2 * q" "v = n + 1 \<longleftrightarrow> a = 2 * q + 1"
  using assms by auto

lemma link_dir_ok:
  assumes "dir_ok t" "x < 2 ^ depth t" "length d' = 2 ^ (depth t + e)" "depth t + e \<le> 64"
    "local_depth (seg_at t x) < depth t + e"
    "linked d' (prefix_at t x) (2 ^ (depth t + e - local_depth (seg_at t x) - 1))
       (length (segs t)) (length (segs t) + 1) (\<lambda>j. dirs t ! (j div 2 ^ e))"
    "local_depth s0 = Suc (local_depth (seg_at t x))" "local_depth s1 = Suc (local_depth (seg_at t x))"
  shows "dir_ok \<lparr>depth = depth t + e, dirs = d', segs = segs t @ [s0, s1]\<rparr>" (is "dir_ok ?t")
proof -
  let ?n = "length (segs t)" and ?ld = "local_depth (seg_at t x)" and ?q = "prefix_at t x"
  let ?m = "2 ^ (depth t + e - ?ld - 1)"
  have low: "dirs t ! (j div 2 ^ e) < ?n" "j div 2 ^ e < 2 ^ depth t" if "j < 2 ^ (depth t + e)" for j
  proof -
    show "j div 2 ^ e < 2 ^ depth t"
      using that by (intro less_mult_imp_div_less) (simp add: power_add)
    with dir_okD(1) [OF assms(1)] show "dirs t ! (j div 2 ^ e) < ?n" by blast
  qed
  have "j div ?m = 2 * ?q \<and> d' ! j = ?n \<or> j div ?m = 2 * ?q + 1 \<and> d' ! j = ?n + 1 \<or>
      j div ?m \<noteq> 2 * ?q \<and> j div ?m \<noteq> 2 * ?q + 1 \<and> d' ! j = dirs t ! (j div 2 ^ e) \<and>
      dirs t ! (j div 2 ^ e) < ?n" if "j < 2 ^ (depth t + e)" for j
    using assms(1-3,5,6) that
  proof (cases rule: link_cases)
    case left
    from left(1,2) show ?thesis by iprover
  next
    case right
    from right(1,2) show ?thesis by iprover
  next
    case old
    from old(1,3,4) low(1) [OF that] show ?thesis by iprover
  qed
  note iff_left = three_way(1) [OF this] and iff_right = three_way(2) [OF this]
  have entry: "d' ! i < Suc (Suc ?n) \<and> 1 \<le> local_depth (seg_at ?t i) \<and>
      local_depth (seg_at ?t i) \<le> depth t + e \<and>
      (\<forall>j<2 ^ (depth t + e). d' ! j = d' ! i \<longleftrightarrow>
         j div 2 ^ (depth t + e - local_depth (seg_at ?t i)) = i div 2 ^ (depth t + e - local_depth (seg_at ?t i)))"
    if i: "i < 2 ^ (depth t + e)" for i
    using assms(1-3,5,6) i
  proof (cases rule: link_cases)
    case left
    then have "seg_at ?t i = s0" by (simp add: nth_append)
    with left assms(5,7) iff_left show ?thesis by simp
  next
    case right
    then have "seg_at ?t i = s1" by (simp add: nth_append)
    with right assms(5,8) iff_right show ?thesis by simp
  next
    case old
    let ?i = "i div 2 ^ e" and ?li = "local_depth (seg_at t (i div 2 ^ e))"
    have seg: "seg_at ?t i = seg_at t ?i" using old(1) low(1) [OF i] by (simp add: nth_append)
    note li = dir_okD(2,3) [OF assms(1) low(2) [OF i]]
    have "depth t + e - ?li = e + (depth t - ?li)" using li(2) by simp
    then have div: "j div 2 ^ (depth t + e - ?li) = j div 2 ^ e div 2 ^ (depth t - ?li)" for j :: nat
      by (simp only: div_pow_add)
    have "d' ! j = d' ! i \<longleftrightarrow> j div 2 ^ (depth t + e - ?li) = i div 2 ^ (depth t + e - ?li)"
      if j: "j < 2 ^ (depth t + e)" for j
    proof -
      have olddir: "dirs t ! (j div 2 ^ e) = dirs t ! ?i \<longleftrightarrow>
          j div 2 ^ (depth t + e - ?li) = i div 2 ^ (depth t + e - ?li)"
        unfolding div by (rule dir_okD(4) [OF assms(1) low(2) [OF i] low(2) [OF j]])
      show ?thesis
        by (cases rule: link_cases [OF assms(1-3,5,6) j]) (use old low(1) [OF i] olddir in auto)
    qed
    with old(1) low(1) [OF i] li show ?thesis unfolding seg by simp
  qed
  have "1 \<le> depth t + e" using assms(1) by (simp add: dir_ok_def)
  with entry assms(3,4) show ?thesis by (simp add: dir_ok_def)
qed

end
