(* ===== verification/CCEH_Correct.thy ===== *)
theory CCEH_Correct
  imports CCEH_Table
begin

text \<open>
  Correctness of the table of \<^verbatim>\<open>CCEH_Table\<close>: growing the table keeps its invariant and never
  duplicates a key, \<open>Insert\<close> makes its key retrievable, \<open>Get\<close> answers from the segment of the key.
\<close>

section \<open>Growing the table\<close>

lemma link_set:
  assumes "dir_ok t" "x < 2 ^ depth t" "length d' = 2 ^ (depth t + e)"
    "local_depth (seg_at t x) < depth t + e"
    "linked d' (prefix_at t x) (2 ^ (depth t + e - local_depth (seg_at t x) - 1)) n (n + 1)
       (\<lambda>j. dirs t ! (j div 2 ^ e))"
  shows "set d' = insert n (insert (n + 1) (set (dirs t) - {dirs t ! x}))"
proof -
  define ld where "ld = local_depth (seg_at t x)"
  define q where "q = x div 2 ^ (depth t - ld)"
  define m where "m = (2 :: nat) ^ (depth t + e - ld - 1)"
  have len: "length (dirs t) = 2 ^ depth t" using assms(1) by (simp add: dir_ok_def)
  have L: "linked d' q m n (n + 1) (\<lambda>j. dirs t ! (j div 2 ^ e))"
    using assms(5) by (simp add: ld_def q_def m_def)
  have "q < 2 ^ ld"
    using assms(2) dir_okD(3) [OF assms(1,2)] unfolding q_def
    by (intro less_mult_imp_div_less) (simp add: ld_def power_add [symmetric])
  then have "Suc (2 * q) < 2 * 2 ^ ld" by linarith
  moreover have m: "0 < m" by (simp add: m_def)
  ultimately have "Suc (2 * q) * m < 2 * 2 ^ ld * m" by (rule mult_strict_right_mono)
  also have "2 * 2 ^ ld * m = 2 ^ (1 + ld + (depth t + e - ld - 1))"
    by (simp only: m_def power_add power_one_right)
  also have "1 + ld + (depth t + e - ld - 1) = depth t + e" using assms(4) ld_def by simp
  finally have top: "Suc (2 * q) * m < length d'" unfolding assms(3) .
  have "2 * q * m \<le> Suc (2 * q) * m" by (rule mult_le_mono1) simp
  then have low: "2 * q * m < length d'" using top by (rule le_less_trans)
  with m have "d' ! (2 * q * m) = n" "d' ! (Suc (2 * q) * m) = n + 1"
    using L [unfolded linked_def, rule_format, OF low] L [unfolded linked_def, rule_format, OF top]
    by simp_all
  then have new: "n \<in> set d'" "n + 1 \<in> set d'"
    using nth_mem [OF low] nth_mem [OF top] by simp_all
  have kept: "s \<in> set d'" if s: "s \<in> set (dirs t)" "s \<noteq> dirs t ! x" for s
  proof -
    obtain i where i: "i < 2 ^ depth t" "s = dirs t ! i"
      using s(1) by (auto simp: in_set_conv_nth len)
    have j: "i * 2 ^ e < 2 ^ (depth t + e)" using i(1) by (simp add: power_add)
    have "i * 2 ^ e div 2 ^ e = i" by simp
    then have "d' ! (i * 2 ^ e) = s"
      using link_cases [OF assms j] s(2) i(2) by metis
    moreover have "d' ! (i * 2 ^ e) \<in> set d'" using j assms(3) by (intro nth_mem) simp
    ultimately show ?thesis by simp
  qed
  have sub: "s \<in> insert n (insert (n + 1) (set (dirs t) - {dirs t ! x}))" if s: "s \<in> set d'" for s
  proof -
    obtain j where j: "j < 2 ^ (depth t + e)" "s = d' ! j"
      using s by (auto simp: in_set_conv_nth assms(3))
    have "j div 2 ^ e < length (dirs t)"
      unfolding len using j(1) by (intro less_mult_imp_div_less) (simp add: power_add)
    then have "dirs t ! (j div 2 ^ e) \<in> set (dirs t)" by (rule nth_mem)
    with j(2) show ?thesis
      using link_cases [OF assms j(1)] by (metis Diff_iff insert_iff empty_iff)
  qed
  from new kept sub show ?thesis by blast
qed

text \<open>What a split and its linking do to the whole table.\<close>

lemma link_step:
  assumes ok: "cceh_ok std t" and x: "x < 2 ^ depth t" and e: "depth t + e \<le> 64"
    "local_depth (seg_at t x) < depth t + e" "length d' = 2 ^ (depth t + e)"
    and link: "linked d' (prefix_at t x) (2 ^ (depth t + e - local_depth (seg_at t x) - 1))
      (length (segs t)) (length (segs t) + 1) (\<lambda>j. dirs t ! (j div 2 ^ e))"
    and s: "local_depth s0 = Suc (local_depth (seg_at t x))"
      "local_depth s1 = Suc (local_depth (seg_at t x))"
      "seg_ok std (2 * prefix_at t x) s0" "seg_ok std (2 * prefix_at t x + 1) s1"
      "keys_of (slots s0) + keys_of (slots s1) \<subseteq># keys_of (slots (seg_at t x))"
    and t': "t' = \<lparr>depth = depth t + e, dirs = d', segs = segs t @ [s0, s1]\<rparr>"
  shows "cceh_ok std t'"
    and "cceh_keys t' \<subseteq># cceh_keys t"
    and "y div 2 ^ e = x \<Longrightarrow> y < 2 ^ (depth t + e) \<Longrightarrow>
      local_depth (seg_at t' y) = Suc (local_depth (seg_at t x))"
proof -
  note dir = cceh_okD(1) [OF ok]
  let ?n = "length (segs t)"
  have seg: "seg_ok std (prefix_at t' i) (seg_at t' i)" if i: "i < 2 ^ (depth t + e)" for i
    using dir x e(3,2) link i
  proof (cases rule: link_cases)
    case left
    then have "seg_at t' i = s0" by (simp add: t' nth_append)
    with left(1) s(1,3) show ?thesis by (simp add: t')
  next
    case right
    then have "seg_at t' i = s1" by (simp add: t' nth_append)
    with right(1) s(2,4) show ?thesis by (simp add: t')
  next
    case old
    let ?i = "i div 2 ^ e"
    have i': "?i < 2 ^ depth t"
      using i by (intro less_mult_imp_div_less) (simp add: power_add)
    have at: "seg_at t' i = seg_at t ?i"
      using old(1) dir_okD(1) [OF dir i'] by (simp add: t' nth_append)
    have "depth t + e - local_depth (seg_at t ?i) = e + (depth t - local_depth (seg_at t ?i))"
      using dir_okD(3) [OF dir i'] by simp
    then have "prefix_at t' i = prefix_at t ?i"
      unfolding at by (simp add: t' div_pow_add)
    with cceh_okD(5) [OF ok i'] show ?thesis unfolding at by simp
  qed
  with link_dir_ok [OF dir x e(3,1,2) link s(1,2)] show "cceh_ok std t'"
    by (simp add: t' cceh_ok_def)
  have in_dirs: "dirs t ! x \<in> set (dirs t)"
    using x cceh_okD(4) [OF ok] by (intro nth_mem) simp
  have low: "s < ?n" if "s \<in> set (dirs t)" for s
    using that dir_okD(1) [OF dir] cceh_okD(4) [OF ok] by (auto simp: in_set_conv_nth)
  let ?rest = "\<Sum>s\<in>set (dirs t) - {dirs t ! x}. keys_of (slots (segs t ! s))"
  have "cceh_keys t' = (\<Sum>s\<in>insert ?n (insert (?n + 1) (set (dirs t) - {dirs t ! x})).
      keys_of (slots ((segs t @ [s0, s1]) ! s)))"
    unfolding cceh_keys_def using link_set [OF dir x e(3,2) link] by (simp add: t')
  also have "\<dots> = keys_of (slots s0) + (keys_of (slots s1) +
      (\<Sum>s\<in>set (dirs t) - {dirs t ! x}. keys_of (slots ((segs t @ [s0, s1]) ! s))))"
  proof -
    have "?n + 1 \<notin> set (dirs t) - {dirs t ! x}"
      "?n \<notin> insert (?n + 1) (set (dirs t) - {dirs t ! x})" using low by force+
    then show ?thesis by (simp add: nth_append)
  qed
  also have "(\<Sum>s\<in>set (dirs t) - {dirs t ! x}. keys_of (slots ((segs t @ [s0, s1]) ! s))) = ?rest"
    using low by (intro sum.cong) (simp_all add: nth_append)
  finally have "cceh_keys t' = (keys_of (slots s0) + keys_of (slots s1)) + ?rest"
    by (simp add: add.assoc)
  moreover have "cceh_keys t = keys_of (slots (seg_at t x)) + ?rest"
    unfolding cceh_keys_def using in_dirs by (intro sum.remove) simp_all
  ultimately show "cceh_keys t' \<subseteq># cceh_keys t" using s(5) by simp
  show "local_depth (seg_at t' y) = Suc (local_depth (seg_at t x))"
    if "y div 2 ^ e = x" "y < 2 ^ (depth t + e)"
    using dir x e(3,2) link that(2)
    by (cases rule: link_cases) (use that(1) s(1,2) in \<open>simp_all add: t' nth_append\<close>)
qed

lemma cceh_grow_step:
  assumes ok: "cceh_ok std t"
    and seg: "seg = seg_at t (top_bits w (depth t))" "local_depth seg < 64"
  shows "\<exists>t'. cceh_grow std t w seg = Some t' \<and> cceh_ok std t' \<and> cceh_keys t' \<subseteq># cceh_keys t \<and>
     local_depth (seg_at t' (top_bits w (depth t'))) = Suc (local_depth seg)"
proof -
  let ?x = "top_bits w (depth t)" and ?n = "length (segs t)"
  note bounds = cceh_okD(2-4) [OF ok]
  have x: "?x < 2 ^ depth t" using bounds by (intro top_bits_less)
  have ld: "local_depth seg \<le> depth t" using dir_okD(3) [OF cceh_okD(1) [OF ok] x] seg(1) by simp
  obtain s0 s1 where S: "Split std seg = Some (s0, s1)" "local_depth s0 = Suc (local_depth seg)"
    "local_depth s1 = Suc (local_depth seg)" "seg_ok std (2 * prefix_at t ?x) s0"
    "seg_ok std (2 * prefix_at t ?x + 1) s1"
    "keys_of (slots s0) + keys_of (slots s1) \<subseteq># keys_of (slots seg)"
    using Split_step [OF cceh_okD(5) [OF ok x, folded seg(1)] seg(2)] by (auto simp: seg(1))
  note S' = S(2-6) [unfolded seg(1)]
  show ?thesis
  proof (cases "local_depth seg = depth t")
    case True
    let ?d = "double_dir (dirs t) ?x ?n (?n + 1)"
    define t' where "t' = \<lparr>depth = depth t + 1, dirs = ?d, segs = segs t @ [s0, s1]\<rparr>"
    have d: "length ?d = 2 ^ (depth t + 1)" "linked ?d ?x 1 ?n (?n + 1) (\<lambda>j. dirs t ! (j div 2 ^ 1))"
      using double_dir_linked [of "dirs t" ?x ?n "?n + 1"] bounds(3) by simp_all
    have "depth t + 1 \<le> 64" "local_depth (seg_at t ?x) < depth t + 1"
      using True seg by simp_all
    moreover have "linked ?d (prefix_at t ?x) (2 ^ (depth t + 1 - local_depth (seg_at t ?x) - 1))
       ?n (?n + 1) (\<lambda>j. dirs t ! (j div 2 ^ 1))"
      using d(2) True seg(1) by simp
    ultimately have step: "cceh_ok std t'" "cceh_keys t' \<subseteq># cceh_keys t"
      "\<And>y. y div 2 ^ 1 = ?x \<Longrightarrow> y < 2 ^ (depth t + 1) \<Longrightarrow>
         local_depth (seg_at t' y) = Suc (local_depth (seg_at t ?x))"
      using link_step [OF ok x _ _ d(1) _ S' t'_def] by blast+
    have "top_bits w (depth t + 1) div 2 ^ 1 = ?x"
      using top_bits_shorter [of "depth t" "depth t + 1" w] \<open>depth t + 1 \<le> 64\<close> by simp
    then have "local_depth (seg_at t' (top_bits w (depth t + 1))) = Suc (local_depth seg)"
      using step(3) top_bits_less [OF \<open>depth t + 1 \<le> 64\<close>] seg(1) by simp
    moreover have "cceh_grow std t w seg = Some t'" "depth t' = depth t + 1"
      using S(1) True by (simp_all add: cceh_grow_def t'_def Let_def)
    ultimately show ?thesis using step(1,2) by simp
  next
    case False
    then have less: "local_depth (seg_at t ?x) < depth t" using ld seg(1) by simp
    obtain d where d: "update_dir (dirs t) (depth t) (local_depth seg) ?x ?n (?n + 1) = Some d"
      "length d = 2 ^ depth t"
      "linked d (?x div 2 ^ (depth t - local_depth seg)) (2 ^ (depth t - local_depth seg - 1)) ?n (?n + 1) (\<lambda>j. dirs t ! j)"
      using update_dir_linked [OF less bounds(3) x, of ?n "?n + 1"] bounds(3) seg(1) by auto
    define t' where "t' = \<lparr>depth = depth t + 0, dirs = d, segs = segs t @ [s0, s1]\<rparr>"
    have "linked d (prefix_at t ?x) (2 ^ (depth t + 0 - local_depth (seg_at t ?x) - 1))
       ?n (?n + 1) (\<lambda>j. dirs t ! (j div 2 ^ 0))"
      using d(3) seg(1) by simp
    moreover have "depth t + 0 \<le> 64" "local_depth (seg_at t ?x) < depth t + 0" "length d = 2 ^ (depth t + 0)"
      using bounds less d(2) by simp_all
    ultimately have step: "cceh_ok std t'" "cceh_keys t' \<subseteq># cceh_keys t"
      "\<And>y. y div 2 ^ 0 = ?x \<Longrightarrow> y < 2 ^ (depth t + 0) \<Longrightarrow>
         local_depth (seg_at t' y) = Suc (local_depth (seg_at t ?x))"
      using link_step [OF ok x _ _ _ _ S' t'_def] by blast+
    have "local_depth (seg_at t' ?x) = Suc (local_depth seg)"
      using step(3) [of ?x] x seg(1) by simp
    moreover have "cceh_grow std t w seg = Some t'" "depth t' = depth t"
      using S(1) d(1) False by (simp_all add: cceh_grow_def t'_def Let_def)
    ultimately show ?thesis using step(1,2) by simp
  qed
qed

section \<open>Lookup\<close>

lemma in_window_less: "in_window y j \<Longrightarrow> j < kNumSlot"
  by (auto simp: in_window_def)

text \<open>A key the table holds is in the segment its hash selects.\<close>

abbreviation home :: "(bytes \<Rightarrow> u64 \<Rightarrow> u64) \<Rightarrow> cceh \<Rightarrow> Key_t \<Rightarrow> Segment" where
  "home std t key \<equiv> seg_at t (top_bits (h std key) (depth t))"

lemma home_bounds:
  assumes "cceh_ok std t"
  shows "top_bits w (depth t) < 2 ^ depth t" "dirs t ! top_bits w (depth t) < length (segs t)"
    "length (slots (seg_at t (top_bits w (depth t)))) = kNumSlot"
    "shifts_ok (depth t) (local_depth (seg_at t (top_bits w (depth t))))"
    "top_bits w (local_depth (seg_at t (top_bits w (depth t)))) = prefix_at t (top_bits w (depth t))"
proof -
  note b = cceh_okD(2-4) [OF assms]
  show x: "top_bits w (depth t) < 2 ^ depth t" using b by (intro top_bits_less)
  note d = dir_okD(1-3) [OF cceh_okD(1) [OF assms] x]
  show "dirs t ! top_bits w (depth t) < length (segs t)" by (rule d(1))
  show "length (slots (seg_at t (top_bits w (depth t)))) = kNumSlot"
    using cceh_okD(5) [OF assms x] by (simp add: seg_ok_def)
  show "shifts_ok (depth t) (local_depth (seg_at t (top_bits w (depth t))))"
    using b d by (simp add: shifts_ok_def)
  show "top_bits w (local_depth (seg_at t (top_bits w (depth t)))) = prefix_at t (top_bits w (depth t))"
    using d(3) b(2) by (rule top_bits_shorter)
qed

lemma home_slot:
  assumes "cceh_ok std t" "j < kNumSlot" "pkey (slots (home std t key) ! j) = key" "key \<noteq> INVALID"
  shows "in_window (slot_of (h std key)) j"
  using cceh_okD(5) [OF assms(1) home_bounds(1) [OF assms(1)], of "h std key"] assms(2-4)
  by (auto simp: seg_ok_def placed_def)

lemma key_home:
  assumes "cceh_ok std t"
  shows "key \<in># cceh_keys t \<longleftrightarrow> key \<in># keys_of (slots (home std t key))"
proof
  let ?x = "top_bits (h std key) (depth t)"
  note x = home_bounds(1) [OF assms, of "h std key"]
  note dir = cceh_okD(1) [OF assms]
  show "key \<in># cceh_keys t" if "key \<in># keys_of (slots (home std t key))"
    using that x cceh_okD(4) [OF assms] unfolding cceh_keys_def
    by (auto simp: set_mset_sum intro!: bexI [of _ "dirs t ! ?x"] nth_mem)
  assume "key \<in># cceh_keys t"
  then obtain s where s: "s \<in> set (dirs t)" "key \<in># keys_of (slots (segs t ! s))"
    by (auto simp: cceh_keys_def set_mset_sum)
  then obtain i where i: "i < 2 ^ depth t" "s = dirs t ! i"
    by (auto simp: in_set_conv_nth cceh_okD(4) [OF assms])
  with s(2) have "key \<noteq> INVALID" and "\<exists>j<kNumSlot. pkey (slots (seg_at t i) ! j) = key"
    using cceh_okD(5) [OF assms i(1)] by (auto simp: in_keys_of seg_ok_def)
  then have "top_bits (h std key) (local_depth (seg_at t i)) = prefix_at t i"
    using cceh_okD(5) [OF assms i(1)] by (auto simp: seg_ok_def placed_def)
  then have "?x div 2 ^ (depth t - local_depth (seg_at t i)) = prefix_at t i"
    using top_bits_shorter [OF dir_okD(3) [OF dir i(1)] cceh_okD(3) [OF assms]] by simp
  then have "dirs t ! ?x = dirs t ! i"
    using dir_okD(4) [OF dir i(1) x] by simp
  with s(2) i(2) show "key \<in># keys_of (slots (home std t key))" by simp
qed

lemma cceh_Get_cases:
  assumes "cceh_ok std t" "key \<noteq> INVALID"
  obtains (hit) loc where "loc < kNumSlot" "pkey (slots (home std t key) ! loc) = key"
      "cceh_Get std t key = Some (pvalue (slots (home std t key) ! loc))" "key \<in># cceh_keys t"
  | (miss) "cceh_Get std t key = Some NONE" "key \<notin># cceh_keys t"
proof -
  let ?seg = "home std t key"
  note b = home_bounds [OF assms(1), of "h std key"] and d = cceh_okD(2-4) [OF assms(1)]
  have "rd (dirs t) (top_bits (h std key) (depth t)) = Some (dirs t ! top_bits (h std key) (depth t))"
    using b(1) d(3) by (intro rd_ok) simp
  moreover have "rd (segs t) (dirs t ! top_bits (h std key) (depth t)) = Some ?seg"
    using b(2) by (rule rd_ok)
  ultimately have get: "cceh_Get std t key = do {
        r \<leftarrow> cscan (\<lambda>p. pkey p = key) (slots ?seg) (slot_of (h std key)) [0..<window];
        case r of None \<Rightarrow> Some NONE
        | Some loc \<Rightarrow> do { p \<leftarrow> rd (slots ?seg) loc; Some (pvalue p) } }"
    using d(1,2) by (simp add: cceh_Get_def Let_def)
  from b(3) show thesis
  proof (cases rule: probe_cases [where P = "\<lambda>p. pkey p = key" and y = "slot_of (h std key)"])
    case (found loc)
    have "key \<in># keys_of (slots ?seg)"
      using found(3,4) b(3) assms(2) by (auto simp: in_keys_of)
    then show ?thesis
      using found get b(3) key_home [OF assms(1)] by (intro hit [of loc]) (simp_all add: rd_ok)
  next
    case none
    have "key \<notin># keys_of (slots ?seg)"
      using none(2) home_slot [OF assms(1)] assms(2) b(3) by (auto simp: in_keys_of)
    then show ?thesis
      using none(1) get key_home [OF assms(1)] by (intro miss) simp_all
  qed
qed

lemma cceh_Get_absent:
  "cceh_ok std t \<Longrightarrow> key \<noteq> INVALID \<Longrightarrow> key \<notin># cceh_keys t \<Longrightarrow> cceh_Get std t key = Some NONE"
  by (cases rule: cceh_Get_cases) simp_all

section \<open>Insertion\<close>

definition put_slot :: "(bytes \<Rightarrow> u64 \<Rightarrow> u64) \<Rightarrow> cceh \<Rightarrow> Key_t \<Rightarrow> Value_t \<Rightarrow> nat \<Rightarrow> cceh" where
  "put_slot std t key v loc = t\<lparr>segs := (segs t)[dirs t ! top_bits (h std key) (depth t) :=
     (home std t key)\<lparr>slots := (slots (home std t key))[loc := \<lparr>pkey = key, pvalue = v\<rparr>]\<rparr>]\<rparr>"

lemma cceh_Insert_unfold:
  assumes "cceh_ok std t"
  shows "cceh_Insert std (Suc f) t key v = do {
          r \<leftarrow> cscan (free_slot std (local_depth (home std t key)) (prefix_at t (top_bits (h std key) (depth t))))
                (slots (home std t key)) (slot_of (h std key)) [0..<window];
          case r of
            Some loc \<Rightarrow> Some (put_slot std t key v loc, INVALID)
          | None \<Rightarrow> do {
              t' \<leftarrow> cceh_grow std t (h std key) (home std t key);
              cceh_Insert std f t' key v } }"
proof -
  let ?x = "top_bits (h std key) (depth t)" and ?seg = "home std t key"
  let ?P = "free_slot std (local_depth ?seg) (prefix_at t ?x)"
  note b = home_bounds [OF assms, of "h std key"]
  have rds: "rd (dirs t) ?x = Some (dirs t ! ?x)" "rd (segs t) (dirs t ! ?x) = Some ?seg"
    using b(1,2) cceh_okD(4) [OF assms] by (simp_all add: rd_ok)
  from b(3) show ?thesis
    by (cases rule: probe_cases [where P = ?P and y = "slot_of (h std key)"])
      (use rds b(3,4) in \<open>simp_all add: Let_def put_slot_def wr_ok\<close>)
qed

lemma home_free:
  assumes "cceh_ok std t" "j < kNumSlot"
  shows "free_slot std (local_depth (home std t key)) (prefix_at t (top_bits (h std key) (depth t)))
     (slots (home std t key) ! j) \<longleftrightarrow> pkey (slots (home std t key) ! j) = INVALID"
  using cceh_okD(5) [OF assms(1) home_bounds(1) [OF assms(1)]] assms(2)
  by (intro free_slot_empty) (simp_all add: seg_ok_def)

lemma cceh_Insert_cases:
  assumes "cceh_ok std t"
  obtains (store) loc where "loc < kNumSlot" "in_window (slot_of (h std key)) loc"
      "pkey (slots (home std t key) ! loc) = INVALID"
      "\<And>f. cceh_Insert std (Suc f) t key v = Some (put_slot std t key v loc, INVALID)"
  | (full) "\<And>j. in_window (slot_of (h std key)) j \<Longrightarrow> pkey (slots (home std t key) ! j) \<noteq> INVALID"
      "\<And>f. cceh_Insert std (Suc f) t key v =
         Option.bind (cceh_grow std t (h std key) (home std t key)) (\<lambda>t'. cceh_Insert std f t' key v)"
proof -
  let ?x = "top_bits (h std key) (depth t)" and ?seg = "home std t key"
  note b = home_bounds [OF assms, of "h std key"]
  let ?P = "free_slot std (local_depth ?seg) (prefix_at t ?x)"
  note P = home_free [OF assms, of _ key] and step = cceh_Insert_unfold [OF assms, of _ key v]
  from b(3) show thesis
  proof (cases rule: probe_cases [where P = ?P and y = "slot_of (h std key)"])
    case (found loc)
    show ?thesis
    proof (rule store)
      show "loc < kNumSlot" "in_window (slot_of (h std key)) loc" by (fact found)+
      show "pkey (slots ?seg ! loc) = INVALID" using found P by simp
      show "cceh_Insert std (Suc f) t key v = Some (put_slot std t key v loc, INVALID)" for f
        using found(1) unfolding step by simp
    qed
  next
    case none
    with P show ?thesis
      by (intro full) (auto simp: step dest: in_window_less simp del: cceh_Insert.simps)
  qed
qed

lemma put_slot_simps:
  assumes "cceh_ok std t"
  shows "depth (put_slot std t key v loc) = depth t" "dirs (put_slot std t key v loc) = dirs t"
    "length (segs (put_slot std t key v loc)) = length (segs t)"
    "local_depth (segs (put_slot std t key v loc) ! s) = local_depth (segs t ! s)"
    "s \<noteq> dirs t ! top_bits (h std key) (depth t) \<Longrightarrow> segs (put_slot std t key v loc) ! s = segs t ! s"
    "slots (home std (put_slot std t key v loc) key) = (slots (home std t key))[loc := \<lparr>pkey = key, pvalue = v\<rparr>]"
  using home_bounds(2) [OF assms, of "h std key"]
  by (simp_all add: put_slot_def nth_list_update)

lemma put_slot_step:
  assumes ok: "cceh_ok std t" and key: "key \<noteq> INVALID" and loc: "loc < kNumSlot"
    "in_window (slot_of (h std key)) loc" "pkey (slots (home std t key) ! loc) = INVALID"
  shows "cceh_ok std (put_slot std t key v loc)"
    and "cceh_keys (put_slot std t key v loc) = add_mset key (cceh_keys t)"
proof -
  let ?t = "put_slot std t key v loc" and ?x = "top_bits (h std key) (depth t)"
    and ?p = "\<lparr>pkey = key, pvalue = v\<rparr>"
  note simps = put_slot_simps [OF ok, where key = key and v = v and loc = loc]
  note b = home_bounds [OF ok, of "h std key"] and dir = cceh_okD(1) [OF ok]
  have "dir_ok ?t" using dir by (simp add: dir_ok_def simps)
  moreover have "seg_ok std (prefix_at ?t i) (seg_at ?t i)" if i: "i < 2 ^ depth t" for i
  proof (cases "dirs t ! i = dirs t ! ?x")
    case True
    have "prefix_at t ?x = prefix_at t i"
      using dir_okD(4) [OF dir b(1) i] True by simp
    moreover have "placed std (local_depth (home std t key)) (prefix_at t ?x) (slots (home std t key))"
      using cceh_okD(5) [OF ok b(1)] by (simp add: seg_ok_def)
    then have "placed std (local_depth (home std t key)) (prefix_at t ?x) ((slots (home std t key))[loc := ?p])"
      using b(5) loc(2) by (intro placed_update) simp_all
    ultimately show ?thesis
      using True simps(6) by (simp add: seg_ok_def simps(1,2,4))
  next
    case False
    then show ?thesis using cceh_okD(5) [OF ok i] by (simp add: simps(1,2,4,5))
  qed
  ultimately show "cceh_ok std ?t" by (simp add: cceh_ok_def simps(1))
  have in_dirs: "dirs t ! ?x \<in> set (dirs t)"
    using b(1) cceh_okD(4) [OF ok] by (intro nth_mem) simp
  let ?rest = "\<Sum>s\<in>set (dirs t) - {dirs t ! ?x}. keys_of (slots (segs t ! s))"
  have "cceh_keys ?t = keys_of ((slots (home std t key))[loc := ?p]) +
      (\<Sum>s\<in>set (dirs t) - {dirs t ! ?x}. keys_of (slots (segs ?t ! s)))"
    unfolding cceh_keys_def simps(2) using in_dirs simps(6)
    by (subst sum.remove [of _ "dirs t ! ?x"]) (simp_all add: simps(1,2))
  also have "(\<Sum>s\<in>set (dirs t) - {dirs t ! ?x}. keys_of (slots (segs ?t ! s))) = ?rest"
    by (intro sum.cong) (simp_all add: simps(5))
  also have "keys_of ((slots (home std t key))[loc := ?p]) = add_mset key (keys_of (slots (home std t key)))"
    using keys_of_exchange [OF mset_exchange [of loc "slots (home std t key)" ?p]] loc b(3) key
    by (simp add: key_live_def live_def)
  also have "add_mset key (keys_of (slots (home std t key))) + ?rest = add_mset key (cceh_keys t)"
    unfolding cceh_keys_def using in_dirs by (subst sum.remove [of _ "dirs t ! ?x"]) simp_all
  finally show "cceh_keys ?t = add_mset key (cceh_keys t)" .
qed

lemma put_slot_Get:
  assumes ok: "cceh_ok std t" and key: "key \<noteq> INVALID" and loc: "loc < kNumSlot"
    "in_window (slot_of (h std key)) loc" "pkey (slots (home std t key) ! loc) = INVALID"
    and new: "key \<notin># cceh_keys t"
  shows "cceh_Get std (put_slot std t key v loc) key = Some v"
proof -
  let ?t = "put_slot std t key v loc"
  note b = home_bounds(3) [OF ok, of "h std key"]
  have absent: "pkey (slots (home std t key) ! j) \<noteq> key" if "j < kNumSlot" for j
    using new that b key unfolding key_home [OF ok] by (auto simp: in_keys_of)
  have slots: "slots (home std ?t key) = (slots (home std t key))[loc := \<lparr>pkey = key, pvalue = v\<rparr>]"
    by (rule put_slot_simps(6) [OF ok])
  show ?thesis
    using put_slot_step(1) [OF ok key loc, of v] key
  proof (cases rule: cceh_Get_cases)
    case (hit j)
    then have "j = loc" using absent b unfolding slots by (cases "j = loc") simp_all
    with hit loc(1) b show ?thesis unfolding slots by simp
  next
    case miss
    then show ?thesis using put_slot_step(2) [OF ok key loc, of v] by simp
  qed
qed

lemma local_depth_le_64:
  assumes "cceh_ok std t"
  shows "local_depth (home std t key) \<le> 64"
  using home_bounds(4) [OF assms, of "h std key"] by (simp add: shifts_ok_def)

lemma grow_full_depth: "64 \<le> local_depth seg \<Longrightarrow> cceh_grow std t w seg = None"
  by (simp add: cceh_grow_def Split_def Let_def)

text \<open>What an insertion that returns has done.\<close>

lemma cceh_Insert_step:
  assumes "key \<noteq> INVALID"
  shows "cceh_ok std t \<Longrightarrow> cceh_Insert std f t key v = Some (t', d) \<Longrightarrow>
    d = INVALID \<and> cceh_ok std t' \<and> cceh_keys t' \<subseteq># add_mset key (cceh_keys t) \<and> key \<in># cceh_keys t' \<and>
    (key \<notin># cceh_keys t \<longrightarrow> cceh_Get std t' key = Some v)"
proof (induction f arbitrary: t)
  case (Suc f)
  from Suc.prems(1) show ?case
  proof (cases rule: cceh_Insert_cases [where key = key and v = v])
    case (store loc)
    then have "t' = put_slot std t key v loc" "d = INVALID"
      using Suc.prems(2) by (simp_all del: cceh_Insert.simps)
    with put_slot_step [OF Suc.prems(1) assms store(1-3)] put_slot_Get [OF Suc.prems(1) assms store(1-3)]
    show ?thesis by simp
  next
    case full
    with Suc.prems(2) obtain t1 where t1: "cceh_grow std t (h std key) (home std t key) = Some t1"
      "cceh_Insert std f t1 key v = Some (t', d)"
      by (auto simp: bind_eq_Some_conv simp del: cceh_Insert.simps)
    then have "local_depth (home std t key) < 64"
      using grow_full_depth not_le by fastforce
    then have g: "cceh_ok std t1" "cceh_keys t1 \<subseteq># cceh_keys t"
      using cceh_grow_step [OF Suc.prems(1) refl, of "h std key"] t1(1) by auto
    from Suc.IH [OF g(1) t1(2)] g(2) show ?thesis
      by (auto dest: mset_subset_eqD intro: subset_mset.order_trans)
  qed
qed simp

text \<open>
  Every turn of the \<^verbatim>\<open>RETRY\<close> loop deepens the segment of the key, so at most 64 turns decide.
\<close>

lemma cceh_Insert_fuel:
  assumes "64 < local_depth (home std t key) + f" "cceh_ok std t"
  shows "cceh_Insert std (f + n) t key v = cceh_Insert std f t key v"
  using assms
proof (induction f arbitrary: t)
  case 0
  then show ?case using local_depth_le_64 [of std t key] by simp
next
  case (Suc f)
  from Suc.prems(2) show ?case
  proof (cases rule: cceh_Insert_cases [where key = key and v = v])
    case (store loc)
    then show ?thesis by (simp del: cceh_Insert.simps)
  next
    case full
    show ?thesis
    proof (cases "local_depth (home std t key) < 64")
      case True
      obtain t1 where t1: "cceh_grow std t (h std key) (home std t key) = Some t1" "cceh_ok std t1"
        "local_depth (home std t1 key) = Suc (local_depth (home std t key))"
        using cceh_grow_step [OF Suc.prems(2) refl True] by blast
      then have "cceh_Insert std (f + n) t1 key v = cceh_Insert std f t1 key v"
        using Suc.prems(1) by (intro Suc.IH) simp_all
      with full(2) t1(1) show ?thesis by (simp del: cceh_Insert.simps)
    next
      case False
      with full(2) grow_full_depth show ?thesis by (simp del: cceh_Insert.simps)
    qed
  qed
qed

definition same_hash :: "(bytes \<Rightarrow> u64 \<Rightarrow> u64) \<Rightarrow> cceh \<Rightarrow> Key_t \<Rightarrow> nat" where
  "same_hash std t key = size (filter_mset (\<lambda>k. h std k = h std key) (cceh_keys t))"

lemma same_hash_mono: "cceh_keys t' \<subseteq># cceh_keys t \<Longrightarrow> same_hash std t' key \<le> same_hash std t key"
  unfolding same_hash_def by (intro size_mset_mono multiset_filter_mono)

lemma window_card: "card {j. in_window y j} = window"
proof -
  have "{j. in_window y j} = (\<lambda>i. (y + i) mod kNumSlot) ` {..<window}"
    by (auto simp: in_window_def)
  moreover have "inj_on (\<lambda>i. (y + i) mod kNumSlot) {..<window}"
  proof (rule linorder_inj_onI')
    fix i j assume ij: "i \<in> {..<window}" "j \<in> {..<window}" "i < j"
    then have "\<not> kNumSlot dvd y + j - (y + i)"
      by (auto simp: window_eq kNumSlot_eq dest: dvd_imp_le)
    then show "(y + i) mod kNumSlot \<noteq> (y + j) mod kNumSlot"
      using mod_eq_dvd_iff_nat [of "y + i" "y + j" kNumSlot] ij(3) by auto
  qed
  ultimately show ?thesis by (simp add: card_image)
qed

lemma top_bits_64: "top_bits w 64 = unat w"
  by (simp add: top_bits_div)

lemma full_window_same_hash:
  assumes "cceh_ok std t" "local_depth (home std t key) = 64"
    "\<And>j. in_window (slot_of (h std key)) j \<Longrightarrow> pkey (slots (home std t key) ! j) \<noteq> INVALID"
  shows "window \<le> same_hash std t key"
proof -
  let ?ps = "slots (home std t key)" and ?x = "top_bits (h std key) (depth t)"
  let ?P = "\<lambda>p. live p \<and> h std (pkey p) = h std key"
  note b = home_bounds [OF assms(1), of "h std key"]
  have "placed std 64 (top_bits (h std key) 64) ?ps"
    using cceh_okD(5) [OF assms(1) b(1)] b(5) assms(2) by (simp add: seg_ok_def)
  then have "h std (pkey (?ps ! j)) = h std key" if "j < kNumSlot" "pkey (?ps ! j) \<noteq> INVALID" for j
    using that unfolding placed_def top_bits_64 by (metis word_unat_eq_iff)
  then have "{j. in_window (slot_of (h std key)) j} \<subseteq> {j. j < length ?ps \<and> ?P (?ps ! j)}"
    using assms(3) b(3) in_window_less by (auto simp: live_def)
  then have "window \<le> card {j. j < length ?ps \<and> ?P (?ps ! j)}"
    unfolding window_card [of "slot_of (h std key)", symmetric] by (intro card_mono) simp_all
  also have "\<dots> = size (filter_mset (\<lambda>k. h std k = h std key) (keys_of ?ps))"
  proof -
    have "card {j. j < length ?ps \<and> ?P (?ps ! j)} = size (filter_mset ?P (mset ?ps))"
      using length_filter_conv_card [of ?P ?ps] by (simp flip: mset_filter)
    then show ?thesis
      by (simp add: keys_of_mset filter_mset_image_mset filter_filter_mset conj_commute)
  qed
  also have "\<dots> \<le> same_hash std t key"
  proof -
    have "dirs t ! ?x \<in> set (dirs t)"
      using b(1) cceh_okD(4) [OF assms(1)] by (intro nth_mem) simp
    then have "keys_of ?ps \<subseteq># cceh_keys t"
      unfolding cceh_keys_def by (subst sum.remove [of _ "dirs t ! ?x"]) simp_all
    then show ?thesis
      unfolding same_hash_def by (intro size_mset_mono multiset_filter_mono)
  qed
  finally show ?thesis .
qed

lemma cceh_Insert_returns:
  assumes "64 < local_depth (home std t key) + f" "cceh_ok std t" "same_hash std t key < window"
  shows "\<exists>t'. cceh_Insert std f t key v = Some (t', INVALID)"
  using assms
proof (induction f arbitrary: t)
  case 0
  then show ?case using local_depth_le_64 [of std t key] by simp
next
  case (Suc f)
  from Suc.prems(2) show ?case
  proof (cases rule: cceh_Insert_cases [where key = key and v = v])
    case (store loc)
    then show ?thesis by blast
  next
    case full
    have "local_depth (home std t key) \<noteq> 64"
      using full_window_same_hash [OF Suc.prems(2) _ full(1)] Suc.prems(3) by auto
    then have "local_depth (home std t key) < 64"
      using local_depth_le_64 [OF Suc.prems(2), of key] by simp
    then obtain t1 where t1: "cceh_grow std t (h std key) (home std t key) = Some t1" "cceh_ok std t1"
      "cceh_keys t1 \<subseteq># cceh_keys t" "local_depth (home std t1 key) = Suc (local_depth (home std t key))"
      using cceh_grow_step [OF Suc.prems(2) refl] by blast
    then have "\<exists>t'. cceh_Insert std f t1 key v = Some (t', INVALID)"
      using Suc.prems(1,3) same_hash_mono [OF t1(3), of std key] by (intro Suc.IH) simp_all
    with full(2) t1(1) show ?thesis by (simp del: cceh_Insert.simps)
  qed
qed

lemma ilog2_le: "0 < n \<Longrightarrow> 2 ^ ilog2 n \<le> n"
proof (induction n rule: ilog2.induct)
  case (1 n)
  then show ?case
    by (cases "n < 2") (simp_all add: ilog2.simps [of n] Suc_le_eq)
qed

lemma CCEH_new:
  assumes "CCEH initCap = Some t" "2 * kNumSlot \<le> initCap" "initCap < 2 ^ 64"
  shows "cceh_ok std t" "cceh_keys t = {#}"
proof -
  let ?d = "ilog2 (initCap div kNumSlot)"
  have t: "t = \<lparr>depth = ?d, dirs = [0..<2 ^ ?d], segs = replicate (2 ^ ?d) (new_Segment ?d)\<rparr>"
    using assms(1) by (auto simp: CCEH_def Let_def split: if_splits)
  have "1 \<le> ?d" using assms(2) by (subst ilog2.simps) (simp add: kNumSlot_eq)
  moreover have "2 ^ ?d < (2 :: nat) ^ 64"
    using ilog2_le [of "initCap div kNumSlot"] assms(2,3) div_le_dividend [of initCap kNumSlot]
    by (simp only: div_greater_zero_iff) (simp add: kNumSlot_eq)
  then have "?d \<le> 64" by (simp add: power_strict_increasing_iff del: power_numeral)
  ultimately show "cceh_ok std t"
    by (simp add: t cceh_ok_def dir_ok_def seg_ok_def placed_new) (simp add: new_Segment_def)
  show "cceh_keys t = {#}"
    by (simp add: t cceh_keys_def new_Segment_def)
qed

section \<open>Splits that lose nothing\<close>

text \<open>
  A split re-inserts the pairs in slot order. If no pair sits behind the wrap-around of its
  window, every pair finds a free slot no later than its old one.
\<close>

definition unwrapped :: "(bytes \<Rightarrow> u64 \<Rightarrow> u64) \<Rightarrow> Segment \<Rightarrow> bool" where
  "unwrapped std seg \<longleftrightarrow> (\<forall>j<kNumSlot. pkey (slots seg ! j) \<noteq> INVALID \<longrightarrow> slot_of (h std (pkey (slots seg ! j))) \<le> j)"

definition filled_below :: "nat \<Rightarrow> Pair list \<Rightarrow> bool" where
  "filled_below j ps \<longleftrightarrow> length ps = kNumSlot \<and> (\<forall>l<kNumSlot. j \<le> l \<longrightarrow> pkey (ps ! l) = INVALID)"

lemma in_window_unwrapped:
  assumes "in_window y j" "y \<le> j" "j < kNumSlot" "y < kNumSlot"
  shows "j < y + window"
proof (rule ccontr)
  assume "\<not> j < y + window"
  obtain i where i: "i < window" "j = (y + i) mod kNumSlot" using assms(1) by (auto simp: in_window_def)
  then have "j = y + i \<or> j + kNumSlot = y + i"
    using assms(4) by (cases "y + i < kNumSlot") (simp_all add: le_mod_geq window_eq kNumSlot_eq)
  then show False using \<open>\<not> j < y + window\<close> assms(2,4) i(1) by (auto simp: kNumSlot_eq window_eq)
qed

lemma upt_prefix:
  assumes "[0..<n] = xs @ i # ys"
  shows "xs = [0..<i]"
proof -
  have "length xs < n" using arg_cong [OF assms, of length] by simp
  then have "i = length xs" using arg_cong [OF assms, of "\<lambda>l. l ! length xs"] by simp
  moreover have "xs = take (length xs) [0..<n]" unfolding assms by simp
  ultimately show ?thesis using \<open>length xs < n\<close> by (simp add: take_upt)
qed

lemma Insert4split_keeps:
  assumes "filled_below j ps" "j < kNumSlot" "pkey p \<noteq> INVALID \<Longrightarrow> y \<le> j \<and> j < y + window"
  shows "\<exists>ps'. Insert4split ps p y = Some ps' \<and> filled_below (Suc j) ps' \<and>
     live_pairs ps' = live_pairs ps + live_pairs [p]"
proof -
  have len: "length ps = kNumSlot" using assms(1) by (simp add: filled_below_def)
  then show ?thesis
  proof (cases rule: cscan_cases [where P = "\<lambda>q. pkey q = INVALID" and y = y and ofs = "[0..<window]"])
    case (found is1 i is2)
    let ?l = "(y + i) mod kNumSlot"
    have ins: "Insert4split ps p y = Some (ps[?l := p])"
      using found(2) len by (simp add: Insert4split_def wr_ok)
    show ?thesis
    proof (cases "pkey p = INVALID")
      case True
      then show ?thesis
        using ins assms(1) live_pairs_blank [OF _ found(3) True] len
        by (auto simp: filled_below_def nth_list_update live_pairs_def live_def)
    next
      case False
      note y = assms(3) [OF False]
      have "i \<le> j - y"
      proof (rule ccontr)
        assume "\<not> i \<le> j - y"
        moreover have "is1 = [0..<i]" using found(1) by (rule upt_prefix)
        ultimately have "j - y \<in> set is1" by simp
        from found(4) [OF this] y assms(1,2) show False by (simp add: filled_below_def)
      qed
      with y have "y + i \<le> j" by linarith
      then have "?l \<le> j" using assms(2) by simp
      then show ?thesis
        using ins assms(1) live_pairs_place [OF _ found(3) False] len
        by (auto simp: filled_below_def nth_list_update live_pairs_def live_def False)
    qed
  next
    case none
    have "pkey p = INVALID"
    proof (rule ccontr)
      assume "pkey p \<noteq> INVALID"
      then have y: "y \<le> j" "j < y + window" using assms(3) by simp_all
      then have "j - y \<in> set [0..<window]" by auto
      from none(2) [OF this] y assms(1,2) show False by (simp add: filled_below_def)
    qed
    with none(1) assms(1) show ?thesis
      by (auto simp: Insert4split_def filled_below_def live_pairs_def live_def)
  qed
qed

lemma split_loop_keeps:
  assumes "filled_below j s0" "filled_below j s1" "j + length ps = kNumSlot"
    "\<And>l. l < length ps \<Longrightarrow> pkey (ps ! l) \<noteq> INVALID \<Longrightarrow>
       slot_of (h std (pkey (ps ! l))) \<le> j + l \<and> j + l < slot_of (h std (pkey (ps ! l))) + window"
  shows "\<exists>s0' s1'. split_loop std pattern ps s0 s1 = Some (s0', s1') \<and>
     live_pairs s0' + live_pairs s1' = live_pairs s0 + live_pairs s1 + live_pairs ps"
  using assms
proof (induction ps arbitrary: j s0 s1)
  case (Cons p ps)
  let ?y = "slot_of (h std (pkey p))"
  have j: "j < kNumSlot" using Cons.prems(3) by simp
  have p: "?y \<le> j \<and> j < ?y + window" if "pkey p \<noteq> INVALID"
    using Cons.prems(4) [of 0] that by simp
  have rest: "slot_of (h std (pkey (ps ! l))) \<le> Suc j + l \<and> Suc j + l < slot_of (h std (pkey (ps ! l))) + window"
    if "l < length ps" "pkey (ps ! l) \<noteq> INVALID" for l
    using Cons.prems(4) [of "Suc l"] that by simp
  have weaken: "filled_below (Suc j) s" if "filled_below j s" for s
    using that by (simp add: filled_below_def)
  have split: "live_pairs (p # ps) = live_pairs [p] + live_pairs ps"
    by (simp add: live_pairs_def)
  show ?case
  proof (cases "h std (pkey p) AND pattern \<noteq> 0")
    case True
    obtain s where s: "Insert4split s1 p ?y = Some s" "filled_below (Suc j) s"
      "live_pairs s = live_pairs s1 + live_pairs [p]"
      using Insert4split_keeps [OF Cons.prems(2) j p] by blast
    from Cons.IH [OF weaken [OF Cons.prems(1)] s(2) _ rest] Cons.prems(3) s(1,3) True
    show ?thesis unfolding split by (simp add: ac_simps)
  next
    case False
    obtain s where s: "Insert4split s0 p ?y = Some s" "filled_below (Suc j) s"
      "live_pairs s = live_pairs s0 + live_pairs [p]"
      using Insert4split_keeps [OF Cons.prems(1) j p] by blast
    from Cons.IH [OF s(2) weaken [OF Cons.prems(2)] _ rest] Cons.prems(3) s(1,3) False
    show ?thesis unfolding split by (simp add: ac_simps)
  qed
qed (simp add: live_pairs_def)

lemma slot_of_less: "slot_of w < kNumSlot"
proof -
  have "unat (w AND kMask) \<le> unat kMask" by (simp add: word_and_le1 flip: word_le_nat_alt)
  also have "unat kMask = 255" by (simp add: kMask_def kSegmentBits_def push_bit_eq_mult)
  finally show ?thesis by (simp add: slot_of_def kNumPairPerCacheLine_def kNumSlot_eq)
qed

lemma CCEH_2048: "\<exists>t. CCEH 2048 = Some t \<and> cceh_ok std t \<and> cceh_keys t = {#} \<and>
  (\<forall>key v. \<exists>t'. cceh_Insert std 64 t key v = Some (t', INVALID))"
proof -
  obtain t where t: "CCEH 2048 = Some t" by (simp add: CCEH_def kNumSlot_eq Let_def)
  have ok: "cceh_ok std t" and empty: "cceh_keys t = {#}"
    using CCEH_new [OF t] by (simp_all add: kNumSlot_eq)
  then have "\<exists>t'. cceh_Insert std 64 t key v = Some (t', INVALID)" for key v
    using home_bounds(4) [OF ok, of "h std key"]
    by (intro cceh_Insert_returns) (simp_all add: same_hash_def window_eq shifts_ok_def)
  with t ok empty show ?thesis by blast
qed

section \<open>The contract of the table\<close>

lemma cceh_Insert_64:
  assumes "cceh_ok std t" "same_hash std t key < window"
  shows "\<exists>t'. \<forall>n. cceh_Insert std (64 + n) t key v = Some (t', INVALID)"
    and "\<exists>t'. cceh_Insert std 64 t key v = Some (t', INVALID)"
proof -
  have ld: "64 < local_depth (home std t key) + 64"
    using home_bounds(4) [OF assms(1), of "h std key"] by (simp add: shifts_ok_def)
  show ins: "\<exists>t'. cceh_Insert std 64 t key v = Some (t', INVALID)"
    by (rule cceh_Insert_returns [OF ld assms])
  with cceh_Insert_fuel [OF ld assms(1)]
  show "\<exists>t'. \<forall>n. cceh_Insert std (64 + n) t key v = Some (t', INVALID)" by auto
qed

lemma cceh_Get_total:
  assumes "cceh_ok std t"
  shows "\<exists>v. cceh_Get std t key = Some v"
proof -
  note b = home_bounds [OF assms, of "h std key"] and d = cceh_okD(2-4) [OF assms]
  from b(3) show ?thesis
    by (cases rule: probe_cases [where P = "\<lambda>p. pkey p = key" and y = "slot_of (h std key)"])
      (use b d in \<open>simp_all add: cceh_Get_def Let_def rd_ok\<close>)
qed

text \<open>
  The table meets the contract of the key-value layer. It has room for a key as long as fewer
  keys share its hash than a probe window has slots.
\<close>

interpretation ct: evicting_table "cceh_Insert std 64" "cceh_Get std" "cceh_ok std" cceh_keys
  "\<lambda>t k. same_hash std t k < window" for std
proof
  fix s k v s' d
  show "cceh_ok std s \<Longrightarrow> k \<noteq> INVALID \<Longrightarrow> same_hash std s k < window \<Longrightarrow>
      \<exists>s' d. cceh_Insert std 64 s k v = Some (s', d)"
    using cceh_Insert_64 by blast
  show "cceh_ok std s \<Longrightarrow> k \<noteq> INVALID \<Longrightarrow> cceh_Insert std 64 s k v = Some (s', d) \<Longrightarrow> cceh_ok std s'"
    using cceh_Insert_step [of k std s 64 v s' d] by blast
  show "cceh_ok std s \<Longrightarrow> k \<noteq> INVALID \<Longrightarrow> cceh_Insert std 64 s k v = Some (s', d) \<Longrightarrow>
      cceh_keys s' + evicted d \<subseteq># add_mset k (cceh_keys s)"
    using cceh_Insert_step [of k std s 64 v s' d] by simp
  show "\<exists>v. cceh_Get std s k = Some v" if "cceh_ok std s"
    by (rule cceh_Get_total [OF that])
  show "k \<in># cceh_keys s" if "cceh_ok std s" "k \<noteq> INVALID" "cceh_Get std s k = Some v" "v \<noteq> NONE"
    using that(1,2) by (cases rule: cceh_Get_cases) (use that(3,4) in simp_all)
qed

text \<open>A sequence that repeats no hash more often than a window has slots is accepted.\<close>

lemma cceh_accepts:
  assumes "cceh_ok std t" "INVALID \<notin> fst ` set kvs"
    "\<And>k. k \<in> fst ` set kvs \<Longrightarrow>
      size (filter_mset (\<lambda>k'. h std k' = h std k) (cceh_keys t + mset (map fst kvs))) \<le> window"
  shows "accepts (\<lambda>t k. same_hash std t k < window) (cceh_Insert std 64) t kvs"
  using assms
proof (induction kvs arbitrary: t)
  case (Cons kv kvs)
  obtain k v where kv: "kv = (k, v)" by force
  have "same_hash std t k < window"
    using Cons.prems(3) [of k] by (simp add: kv same_hash_def)
  moreover have "accepts (\<lambda>t k. same_hash std t k < window) (cceh_Insert std 64) t' kvs"
    if "cceh_Insert std 64 t k v = Some (t', d)" for t' d
  proof (rule Cons.IH)
    have "k \<noteq> INVALID" using Cons.prems(2) kv by auto
    from cceh_Insert_step [OF this Cons.prems(1) that] have t': "cceh_ok std t'"
      "cceh_keys t' \<subseteq># add_mset k (cceh_keys t)" by simp_all
    show "cceh_ok std t'" by (rule t'(1))
    show "INVALID \<notin> fst ` set kvs" using Cons.prems(2) by auto
    fix k1 assume "k1 \<in> fst ` set kvs"
    then have "k1 \<in> fst ` set (kv # kvs)" by simp
    note Cons.prems(3) [OF this]
    moreover have "cceh_keys t' + mset (map fst kvs) \<subseteq># cceh_keys t + mset (map fst (kv # kvs))"
      using t'(2) by (simp add: kv)
    from size_mset_mono [OF multiset_filter_mono [OF this, of "\<lambda>k'. h std k' = h std k1"]]
    have "size (filter_mset (\<lambda>k'. h std k' = h std k1) (cceh_keys t' + mset (map fst kvs))) \<le>
      size (filter_mset (\<lambda>k'. h std k' = h std k1) (cceh_keys t + mset (map fst (kv # kvs))))" .
    ultimately show "size (filter_mset (\<lambda>k'. h std k' = h std k1) (cceh_keys t' + mset (map fst kvs))) \<le> window"
      by (rule order.trans [rotated])
  qed
  ultimately show ?case by (auto simp: kv split: option.split)
qed simp

section \<open>Values are never made up\<close>

definition cceh_pairs :: "cceh \<Rightarrow> (Key_t \<times> Value_t) set" where
  "cceh_pairs t = (\<Union>seg\<in>set (segs t). pair_set (slots seg))"

lemma cscan_holds: "cscan P ps y is = Some (Some j) \<Longrightarrow> rd ps j = Some p \<Longrightarrow> P p"
  by (induction "is") (auto split: bind_splits if_splits)

lemma Insert4split_set: "Insert4split ps p loc = Some qs \<Longrightarrow> set qs \<subseteq> insert p (set ps)"
  by (auto simp: Insert4split_def split: bind_splits option.splits dest!: wr_set)

lemma split_loop_set:
  "split_loop std pattern ps s0 s1 = Some (s0', s1') \<Longrightarrow> set s0' \<union> set s1' \<subseteq> set s0 \<union> set s1 \<union> set ps"
proof (induction ps arbitrary: s0 s1)
  case (Cons p ps)
  then show ?case
    by (auto simp: Let_def split: if_splits bind_splits dest!: Insert4split_set) blast+
qed simp

lemma Split_pairs:
  assumes "Split std seg = Some (a, b)"
  shows "pair_set (slots a) \<union> pair_set (slots b) \<subseteq> pair_set (slots seg)"
proof -
  let ?n = "slots (new_Segment (local_depth seg + 1))"
  have "set (slots a) \<union> set (slots b) \<subseteq> set ?n \<union> set ?n \<union> set (slots seg)"
    using assms split_loop_set by (fastforce simp: Split_def Let_def split: if_splits bind_splits)
  moreover have "p \<in> set ?n \<Longrightarrow> pvalue p = NONE" for p
    by (simp add: new_Segment_def fresh_pair_def)
  ultimately show ?thesis by (fastforce simp: pair_set_def)
qed

lemma cceh_grow_pairs:
  assumes "cceh_grow std t w seg = Some t'" "seg \<in> set (segs t)"
  shows "cceh_pairs t' \<subseteq> cceh_pairs t"
proof -
  from assms(1) obtain a b where "Split std seg = Some (a, b)" "segs t' = segs t @ [a, b]"
    by (auto simp: cceh_grow_def Let_def split: bind_splits if_splits)
  with Split_pairs [OF this(1)] assms(2) show ?thesis by (fastforce simp: cceh_pairs_def)
qed

lemma cceh_Insert_pairs:
  "cceh_Insert std f t k v = Some (t', d) \<Longrightarrow> cceh_pairs t' \<subseteq> insert (k, v) (cceh_pairs t)"
proof (induction f arbitrary: t)
  case (Suc f)
  then obtain sid seg r where seg: "rd (segs t) sid = Some seg"
    and rest: "(case r of
            Some loc \<Rightarrow> do {
              ps \<leftarrow> wr (slots seg) loc \<lparr>pkey = k, pvalue = v\<rparr>;
              Some (t\<lparr>segs := (segs t)[sid := seg\<lparr>slots := ps\<rparr>]\<rparr>, INVALID) }
          | None \<Rightarrow> do {
              t1 \<leftarrow> cceh_grow std t (h std k) seg;
              cceh_Insert std f t1 k v }) = Some (t', d)"
    by (auto simp: Let_def split: bind_splits if_splits)
  note mem = rd_set [OF seg]
  show ?case
  proof (cases r)
    case None
    with rest obtain t1 where "cceh_grow std t (h std k) seg = Some t1" "cceh_Insert std f t1 k v = Some (t', d)"
      by (auto split: bind_splits)
    with Suc.IH cceh_grow_pairs mem show ?thesis by blast
  next
    case (Some loc)
    with rest obtain ps where ps: "wr (slots seg) loc \<lparr>pkey = k, pvalue = v\<rparr> = Some ps"
      "t' = t\<lparr>segs := (segs t)[sid := seg\<lparr>slots := ps\<rparr>]\<rparr>"
      by (auto split: bind_splits)
    have "pair_set ps \<subseteq> insert (k, v) (pair_set (slots seg))" by (rule pair_set_mono [OF wr_set [OF ps(1)]])
    moreover have "set (segs t') \<subseteq> insert (seg\<lparr>slots := ps\<rparr>) (set (segs t))"
      using ps(2) set_update_subset_insert by fastforce
    ultimately show ?thesis using mem by (fastforce simp: cceh_pairs_def)
  qed
qed simp

interpretation ctv: honest_table "cceh_Insert std 64" "cceh_Get std" cceh_pairs for std
proof
  fix s k v s' d
  show "cceh_Insert std 64 s k v = Some (s', d) \<Longrightarrow> cceh_pairs s' \<subseteq> insert (k, v) (cceh_pairs s)"
    by (rule cceh_Insert_pairs)
next
  fix s k v
  assume "cceh_Get std s k = Some v" "v \<noteq> NONE"
  then obtain sid seg loc p where "rd (segs s) sid = Some seg"
    "cscan (\<lambda>p. pkey p = k) (slots seg) (slot_of (h std k)) [0..<window] = Some (Some loc)"
    "rd (slots seg) loc = Some p" "v = pvalue p"
    by (auto simp: cceh_Get_def Let_def split: if_splits bind_splits option.splits)
  with cscan_holds [OF this(2,3)] \<open>v \<noteq> NONE\<close> show "(k, v) \<in> cceh_pairs s"
    using pair_setI [of p "slots seg"] rd_set [of "slots seg" loc p] rd_set [of "segs s" sid seg]
    by (auto simp: cceh_pairs_def)
qed

section \<open>Properties\<close>

text \<open>
  C10: an insertion into a table with the invariant keeps the invariant (every directory entry
  points to the segment of its prefix, every key sits in its own probe window), reports no
  eviction, and afterwards the table holds the new key and, besides it, only keys it held before,
  none of them more often. This covers every number of segment splits and directory doublings.
\<close>

theorem cceh_insert_conserves:
  assumes "cceh_ok std t" "key \<noteq> INVALID" "cceh_Insert std fuel t key v = Some (t', d)"
  shows "cceh_ok std t' \<and> d = INVALID \<and> key \<in># cceh_keys t' \<and>
    cceh_keys t' \<subseteq># add_mset key (cceh_keys t)"
  using cceh_Insert_step [OF assms(2,1,3)] by simp

theorem cceh_insert_conserves_witness:
  "\<exists>t t'. CCEH 2048 = Some t \<and> cceh_Insert (\<lambda>_ _. 0) 64 t 5 7 = Some (t', INVALID) \<and>
     cceh_ok (\<lambda>_ _. 0) t' \<and> 5 \<in># cceh_keys t' \<and> cceh_keys t' \<subseteq># {#5#}"
proof -
  have key: "(5 :: Key_t) \<noteq> INVALID" by (simp add: INVALID_def)
  obtain t t' where t: "CCEH 2048 = Some t" "cceh_ok (\<lambda>_ _. 0) t" "cceh_keys t = {#}"
    "cceh_Insert (\<lambda>_ _. 0) 64 t 5 7 = Some (t', INVALID)"
    using CCEH_2048 [of "\<lambda>_ _. 0"] by blast
  from cceh_insert_conserves [OF t(2) key t(4)] t show ?thesis by auto
qed

text \<open>
  C12: after an insertion of a key the table did not hold, \<open>Get\<close> of that key returns the value
  that was inserted, whatever splits the insertion went through.
\<close>

theorem cceh_insert_then_get:
  assumes "cceh_ok std t" "key \<noteq> INVALID" "key \<notin># cceh_keys t"
    "cceh_Insert std fuel t key v = Some (t', d)"
  shows "cceh_Get std t' key = Some v"
  using cceh_Insert_step [OF assms(2,1,4)] assms(3) by simp

theorem cceh_insert_then_get_witness:
  "\<exists>t t'. CCEH 2048 = Some t \<and> cceh_Insert (\<lambda>_ _. 0) 64 t 5 7 = Some (t', INVALID) \<and>
     cceh_Get (\<lambda>_ _. 0) t' 5 = Some 7"
proof -
  have key: "(5 :: Key_t) \<noteq> INVALID" by (simp add: INVALID_def)
  obtain t t' where t: "CCEH 2048 = Some t" "cceh_ok (\<lambda>_ _. 0) t" "cceh_keys t = {#}"
    "cceh_Insert (\<lambda>_ _. 0) 64 t 5 7 = Some (t', INVALID)"
    using CCEH_2048 [of "\<lambda>_ _. 0"] by blast
  from cceh_insert_then_get [OF t(2) key _ t(4)] t show ?thesis by auto
qed

text \<open>
  C13: the \<^verbatim>\<open>RETRY\<close> loop of \<open>Insert\<close> ends. If fewer than 32 keys of the table share the full
  64-bit hash of the new key, 64 turns are enough for the insertion to return, and more turns
  give the same result.
\<close>

theorem cceh_insert_terminates:
  assumes "cceh_ok std t" "same_hash std t key < window"
  shows "\<exists>t'. \<forall>n. cceh_Insert std (64 + n) t key v = Some (t', INVALID)"
  by (rule cceh_Insert_64(1) [OF assms])

theorem cceh_insert_terminates_witness:
  "\<exists>t t'. CCEH 2048 = Some t \<and> (\<forall>n. cceh_Insert (\<lambda>_ _. 0) (64 + n) t 5 7 = Some (t', INVALID))"
proof -
  obtain t where t: "CCEH 2048 = Some t" "cceh_ok (\<lambda>_ _. 0) t" "cceh_keys t = {#}"
    using CCEH_2048 [of "\<lambda>_ _. 0"] by blast
  then have "same_hash (\<lambda>_ _. 0) t 5 < window" by (simp add: same_hash_def window_eq)
  from cceh_insert_terminates [OF t(2) this] t(1) show ?thesis by blast
qed

text \<open>
  C22: a split loses nothing if no pair sits behind the wrap-around of its probe window: the two
  new segments together hold exactly the pairs of the old one. (A pair behind the wrap-around is
  re-inserted first and can take the slot of another.)
\<close>

theorem cceh_split_lossless:
  assumes "seg_ok std pattern seg" "local_depth seg < 64" "unwrapped std seg"
  shows "\<exists>s0 s1. Split std seg = Some (s0, s1) \<and>
    live_pairs (slots s0) + live_pairs (slots s1) = live_pairs (slots seg)"
proof -
  let ?new = "slots (new_Segment (local_depth seg + 1))"
  have new: "filled_below 0 ?new" "live_pairs ?new = {#}"
    by (simp_all add: filled_below_def new_Segment_def live_pairs_def live_def fresh_pair_def
        filter_mset_eq_conv del: mset_replicate)
  have len: "length (slots seg) = kNumSlot" using assms(1) by (simp add: seg_ok_def)
  have "slot_of (h std (pkey (slots seg ! l))) \<le> 0 + l \<and>
      0 + l < slot_of (h std (pkey (slots seg ! l))) + window"
    if "l < length (slots seg)" "pkey (slots seg ! l) \<noteq> INVALID" for l
  proof -
    have "slot_of (h std (pkey (slots seg ! l))) \<le> l"
      using assms(3) that len by (simp add: unwrapped_def)
    moreover have "in_window (slot_of (h std (pkey (slots seg ! l)))) l"
      using assms(1) that len by (simp add: seg_ok_def placed_def)
    ultimately show ?thesis
      using in_window_unwrapped slot_of_less that(1) len by simp
  qed
  from split_loop_keeps [OF new(1) new(1) _ this, of "push_bit (64 - local_depth seg - 1) 1"] len obtain s0 s1 where
    "split_loop std (push_bit (64 - local_depth seg - 1) 1) (slots seg) ?new ?new = Some (s0, s1)"
    "live_pairs s0 + live_pairs s1 = live_pairs (slots seg)"
    using new(2) by auto
  with assms(2) show ?thesis by (auto simp: Split_def Let_def)
qed

theorem cceh_split_lossless_witness:
  "\<exists>seg s0 s1. live_pairs (slots seg) = {#\<lparr>pkey = 5, pvalue = 7\<rparr>#} \<and>
     Split (\<lambda>_ _. 0) seg = Some (s0, s1) \<and>
     live_pairs (slots s0) + live_pairs (slots s1) = {#\<lparr>pkey = 5, pvalue = 7\<rparr>#}"
proof -
  let ?h = "h (\<lambda>_ _. 0) 5" and ?p = "\<lparr>pkey = 5, pvalue = 7\<rparr>"
  define seg where "seg = \<lparr>slots = (slots (new_Segment 1))[slot_of ?h := ?p], local_depth = 1\<rparr>"
  have key: "(5 :: Key_t) \<noteq> INVALID" by (simp add: INVALID_def)
  have win: "in_window (slot_of ?h) (slot_of ?h)"
    unfolding in_window_def using slot_of_less [of ?h] by (intro exI [of _ 0]) (simp add: window_eq)
  have fresh: "live_pairs (slots (new_Segment 1)) = {#}"
    by (simp add: new_Segment_def live_pairs_def live_def fresh_pair_def filter_mset_eq_conv del: mset_replicate)
  have "live_pairs (slots seg) = {#?p#}"
    using live_pairs_place [of "slot_of ?h" "slots (new_Segment 1)" ?p] slot_of_less [of ?h] key fresh
    by (simp add: seg_def new_Segment_def fresh_pair_def)
  moreover have "seg_ok (\<lambda>_ _. 0) (top_bits ?h 1) seg"
    unfolding seg_ok_def seg_def using placed_new win by (auto intro: placed_update)
  moreover have "unwrapped (\<lambda>_ _. 0) seg"
    using slot_of_less [of ?h]
    by (auto simp: unwrapped_def seg_def new_Segment_def nth_list_update fresh_pair_def)
  moreover have "local_depth seg < 64" by (simp add: seg_def)
  ultimately show ?thesis
    using cceh_split_lossless [of "\<lambda>_ _. 0" "top_bits ?h 1" seg] by metis
qed

lemma new_table_slots:
  assumes "CCEH initCap = Some t" "2 * kNumSlot \<le> initCap" "initCap < 2 ^ 64" "j < kNumSlot"
  shows "pkey (slots (home std t key) ! j) = INVALID"
proof -
  note new = CCEH_new [OF assms(1-3)]
  have "keys_of (slots (home std t key)) \<subseteq># cceh_keys t"
    using home_bounds(1) [OF new(1), of "h std key"] cceh_okD(4) [OF new(1)] unfolding cceh_keys_def
    by (subst sum.remove [of _ "dirs t ! top_bits (h std key) (depth t)"]) simp_all
  then have "pkey (slots (home std t key) ! j) \<notin># keys_of (slots (home std t key))" using new(2) by auto
  then show ?thesis
    using assms(4) home_bounds(3) [OF new(1), of "h std key"] by (auto simp: in_keys_of)
qed

text \<open>
  C37: inserting a key a second time does not replace its value: in a new table, after
  \<open>Insert(key, v0)\<close> and \<open>Insert(key, v1)\<close>, \<open>Get(key)\<close> still returns \<open>v0\<close>.
\<close>

theorem cceh_reinsert_stale:
  assumes "CCEH initCap = Some t" "2 * kNumSlot \<le> initCap" "initCap < 2 ^ 64" "key \<noteq> INVALID"
  shows "\<exists>t1 t2. cceh_Insert std 64 t key v0 = Some (t1, INVALID) \<and>
    cceh_Insert std 64 t1 key v1 = Some (t2, INVALID) \<and> cceh_Get std t2 key = Some v0"
proof -
  let ?y = "slot_of (h std key)" let ?y1 = "Suc ?y mod kNumSlot"
  note ok = CCEH_new(1) [OF assms(1-3), of std] and blank = new_table_slots [OF assms(1-3), of _ std key]
  have y: "?y < kNumSlot" "?y1 < kNumSlot" "?y1 \<noteq> ?y"
    using slot_of_less [of "h std key"] by (auto simp: kNumSlot_eq mod_Suc)
  have win: "in_window ?y ?y" "in_window ?y ?y1"
    using y(1) window_eq by (auto simp: in_window_def intro: exI [of _ 0] exI [of _ 1])
  have upt: "[0..<window] = 0 # 1 # [2..<window]"
    by (simp add: window_eq upt_conv_Cons)
  have f: "(64 :: nat) = Suc 63" by simp
  define t1 where "t1 = put_slot std t key v0 ?y"
  define t2 where "t2 = put_slot std t1 key v1 ?y1"
  have ins1: "cceh_Insert std 64 t key v0 = Some (t1, INVALID)"
    unfolding f cceh_Insert_unfold [OF ok] upt
    using home_free [OF ok y(1), of key] blank [OF y(1)] home_bounds(3) [OF ok, of "h std key"] y(1)
    by (simp add: rd_ok t1_def)
  have ok1: "cceh_ok std t1"
    unfolding t1_def by (rule put_slot_step(1) [OF ok assms(4) y(1) win(1) blank [OF y(1)]])
  have slots1: "slots (home std t1 key) = (slots (home std t key))[?y := \<lparr>pkey = key, pvalue = v0\<rparr>]"
    unfolding t1_def by (rule put_slot_simps(6) [OF ok])
  then have at1: "pkey (slots (home std t1 key) ! ?y) = key" "pkey (slots (home std t1 key) ! ?y1) = INVALID"
    using y blank home_bounds(3) [OF ok, of "h std key"] by simp_all
  have ins2: "cceh_Insert std 64 t1 key v1 = Some (t2, INVALID)"
    unfolding f cceh_Insert_unfold [OF ok1] upt
    using home_free [OF ok1 y(1), of key] home_free [OF ok1 y(2), of key] at1 assms(4) y
      home_bounds(3) [OF ok1, of "h std key"]
    by (simp add: rd_ok t2_def)
  have ok2: "cceh_ok std t2"
    unfolding t2_def by (rule put_slot_step(1) [OF ok1 assms(4) y(2) win(2) at1(2)])
  have "slots (home std t2 key) ! ?y = \<lparr>pkey = key, pvalue = v0\<rparr>"
    using put_slot_simps(6) [OF ok1, of key v1 ?y1] slots1 y home_bounds(3) [OF ok, of "h std key"]
    by (simp add: t2_def)
  then have "cceh_Get std t2 key = Some v0"
    using home_bounds [OF ok2, of "h std key"] cceh_okD(2-4) [OF ok2] y(1)
    by (simp add: cceh_Get_def Let_def rd_ok upt)
  with ins1 ins2 show ?thesis by blast
qed

theorem cceh_reinsert_stale_witness:
  "\<exists>t t1 t2. CCEH 2048 = Some t \<and> cceh_Insert (\<lambda>_ _. 0) 64 t 5 7 = Some (t1, INVALID) \<and>
    cceh_Insert (\<lambda>_ _. 0) 64 t1 5 8 = Some (t2, INVALID) \<and> cceh_Get (\<lambda>_ _. 0) t2 5 = Some 7"
proof -
  obtain t where t: "CCEH 2048 = Some t" using CCEH_2048 by blast
  from cceh_reinsert_stale [OF t, of 5 "\<lambda>_ _. 0" 7 8] t show ?thesis
    by (simp add: kNumSlot_eq INVALID_def)
qed

text \<open>
  An extent of three pages at key 1 is stored under the keys 1 and 2 only, and
  \<open>Get_extent\<close> looks up nothing but the key itself: the third page of the extent is not found.
\<close>

lemma cceh_extent_hole:
  assumes "CCEH initCap = Some t" "2 * kNumSlot \<le> initCap" "initCap < 2 ^ 64"
    "cceh_Insert_extent std 64 t 1 0 3 v = Some t'"
  shows "cceh_Get_extent std t' 2 0 = Some v \<and> cceh_Get_extent std t' 3 0 = Some NONE"
proof -
  note ok = CCEH_new [OF assms(1-3)]
  have sub: "subextent 1 3 = Some 1" "subextent 2 2 = Some 2" by code_simp+
  have "low_bit 2 = Some 1" "low_bit 3 = Some 0" by code_simp+
  obtain t1 d1 d2 where t1: "cceh_Insert std 64 t 1 v = Some (t1, d1)"
    "cceh_Insert std 64 t1 2 v = Some (t', d2)"
    using assms(4) sub
    by (subst (asm) cceh_Insert_extent.simps, subst (asm) cceh_Insert_extent.simps,
        subst (asm) cceh_Insert_extent.simps) (auto split: bind_splits)
  have "(1 :: Key_t) \<noteq> INVALID" "(2 :: Key_t) \<noteq> INVALID" and three: "(3 :: Key_t) \<noteq> INVALID"
    by (simp_all add: INVALID_def)
  note step1 = cceh_Insert_step [OF \<open>1 \<noteq> INVALID\<close> ok(1) t1(1)]
  then have "cceh_keys t1 \<subseteq># {#1#}" using ok(2) by simp
  then have "2 \<notin># cceh_keys t1" by (auto dest: mset_subset_eqD)
  moreover note step2 = cceh_Insert_step [OF \<open>2 \<noteq> INVALID\<close> conjunct1 [OF conjunct2 [OF step1]] t1(2)]
  ultimately have "cceh_Get std t' 2 = Some v" "cceh_ok std t'" using step1 by auto
  moreover have "3 \<notin># cceh_keys t'"
  proof
    assume "3 \<in># cceh_keys t'"
    moreover have "cceh_keys t' \<subseteq># add_mset 2 (cceh_keys t1)" using step2 by simp
    ultimately have "3 \<in># cceh_keys t1" by (auto dest: mset_subset_eqD)
    with \<open>cceh_keys t1 \<subseteq># {#1#}\<close> show False by (auto dest: mset_subset_eqD)
  qed
  ultimately have "cceh_Get std t' 3 = Some NONE"
    using cceh_Get_absent three by blast
  with \<open>cceh_Get std t' 2 = Some v\<close> \<open>low_bit 2 = Some 1\<close> \<open>low_bit 3 = Some 0\<close> show ?thesis
    by (simp add: cceh_Get_extent_def)
qed

theorem cceh_extent_hole_witness:
  "\<exists>t t'. CCEH 2048 = Some t \<and> cceh_Insert_extent (\<lambda>_ _. 0) 64 t 1 0 3 7 = Some t' \<and>
    cceh_Get_extent (\<lambda>_ _. 0) t' 2 0 = Some 7 \<and> cceh_Get_extent (\<lambda>_ _. 0) t' 3 0 = Some NONE"
proof -
  have sub: "subextent 1 3 = Some 1" "subextent 2 2 = Some 2" by code_simp+
  obtain t t1 where t: "CCEH 2048 = Some t" "cceh_ok (\<lambda>_ _. 0) t" "cceh_keys t = {#}"
    "cceh_Insert (\<lambda>_ _. 0) 64 t 1 7 = Some (t1, INVALID)"
    using CCEH_2048 [of "\<lambda>_ _. 0"] by blast
  have "(1 :: Key_t) \<noteq> INVALID" by (simp add: INVALID_def)
  from cceh_Insert_step [OF this t(2,4)] t(3) have t1: "cceh_ok (\<lambda>_ _. 0) t1" "cceh_keys t1 \<subseteq># {#1#}"
    by simp_all
  then have "same_hash (\<lambda>_ _. 0) t1 2 \<le> size {#1 :: Key_t#}"
    unfolding same_hash_def by (meson multiset_filter_subset size_mset_mono subset_mset.order_trans)
  then obtain t' where "cceh_Insert (\<lambda>_ _. 0) 64 t1 2 7 = Some (t', INVALID)"
    using cceh_Insert_64(2) [OF t1(1)] by (fastforce simp: window_eq)
  then have ext: "cceh_Insert_extent (\<lambda>_ _. 0) 64 t 1 0 3 7 = Some t'"
    using t(4) sub by (simp add: cceh_Insert_extent.simps)
  from cceh_extent_hole [OF t(1) _ _ ext] t(1) ext show ?thesis by (auto simp: kNumSlot_eq)
qed

end
