(* ===== verification/KV_Store.thy ===== *)
theory KV_Store
  imports Client_Bloom Linear_Probing Cuckoo_Probing CCEH_Correct
begin

text \<open>
  The key-value layer of the server (\<^verbatim>\<open>server/KV.cpp\<close>): it sends every operation to the table
  chosen at compile time and keeps the counting Bloom filter in step with the keys the table
  holds. The table's operations are arguments of the definitions; the lemmas are proved once
  for every table that meets the contract \<open>evicting_table\<close>.
\<close>

section \<open>State and operations\<close>

record Extent =
  ext_key :: u64
  ext_len :: u64
  ext_value :: Value_t

record 's KV =
  kv_hash :: 's
  kv_bf :: "cbf option"
  kv_extents :: "Value_t \<rightharpoonup> Extent"
  kv_putcnt :: u32
  kv_getcnt :: u32
  deletecnt :: u32

definition new_KV :: "'s \<Rightarrow> cbf option \<Rightarrow> 's KV" where
  "new_KV hash bf = \<lparr>kv_hash = hash, kv_bf = bf, kv_extents = Map.empty,
     kv_putcnt = 0, kv_getcnt = 0, deletecnt = 0\<rparr>"

text \<open>What \<open>Insert\<close> does to the filter: count the new key, then uncount the evicted one.\<close>

definition bf_exchange :: "cbf option \<Rightarrow> Key_t \<Rightarrow> Key_t \<Rightarrow> cbf option option" where
  "bf_exchange bf key deletedKey =
     (case bf of None \<Rightarrow> Some None
      | Some b \<Rightarrow> do {
          b' \<leftarrow> bf_Insert b key;
          if deletedKey \<noteq> INVALID then do { (b'', _) \<leftarrow> bf_Delete b' deletedKey; Some (Some b'') }
          else Some (Some b') })"

definition KV_Insert ::
  "('s \<Rightarrow> Key_t \<Rightarrow> Value_t \<Rightarrow> ('s \<times> Key_t) option) \<Rightarrow> 's KV \<Rightarrow> Key_t \<Rightarrow> Value_t \<Rightarrow> ('s KV \<times> bool) option"
  where
  "KV_Insert ins kv key value = do {
     (hash, deletedKey) \<leftarrow> ins (kv_hash kv) key value;
     bf \<leftarrow> bf_exchange (kv_bf kv) key deletedKey;
     Some (kv\<lparr>kv_hash := hash, kv_bf := bf, kv_putcnt := kv_putcnt kv + 1,
              deletecnt := (if deletedKey \<noteq> INVALID then deletecnt kv + 1 else deletecnt kv)\<rparr>,
           deletedKey \<noteq> INVALID) }"

text \<open>\<open>addr\<close> is the address the allocator returns for the new \<^verbatim>\<open>Extent\<close>.\<close>

definition KV_InsertExtent ::
  "('s \<Rightarrow> Key_t \<Rightarrow> u64 \<Rightarrow> u64 \<Rightarrow> Value_t \<Rightarrow> 's option) \<Rightarrow> Value_t \<Rightarrow> 's KV \<Rightarrow> Key_t \<Rightarrow> Value_t \<Rightarrow> u64
     \<Rightarrow> 's KV option" where
  "KV_InsertExtent insext addr kv key value len = do {
     hash \<leftarrow> insext (kv_hash kv) key 0 len addr;
     Some (kv\<lparr>kv_hash := hash,
              kv_extents := (kv_extents kv)(addr \<mapsto> \<lparr>ext_key = key, ext_len = len, ext_value = value\<rparr>)\<rparr>) }"

definition KV_Get :: "('s \<Rightarrow> Key_t \<Rightarrow> Value_t option) \<Rightarrow> 's KV \<Rightarrow> Key_t \<Rightarrow> ('s KV \<times> Value_t) option" where
  "KV_Get get kv key = do {
     v \<leftarrow> get (kv_hash kv) key;
     Some (kv\<lparr>kv_getcnt := kv_getcnt kv + 1\<rparr>, v) }"

text \<open>
  The page of a key inside an extent is at a multiple of the page size from its start. An
  address that is not an extent faults.
\<close>

definition KV_GetExtent ::
  "('s \<Rightarrow> Key_t \<Rightarrow> u64 \<Rightarrow> Value_t option) \<Rightarrow> 's KV \<Rightarrow> Key_t \<Rightarrow> Value_t option" where
  "KV_GetExtent getext kv key = do {
     ret \<leftarrow> getext (kv_hash kv) key 0;
     if ret = NONE then Some ret
     else do {
       extent \<leftarrow> kv_extents kv ret;
       let key_diff = key - ext_key extent;
       Some (ext_value extent + 4096 * key_diff) } }"

definition KV_Delete :: "'s KV \<Rightarrow> Key_t \<Rightarrow> bool" where
  "KV_Delete kv key = False"

section \<open>The filter follows the table\<close>

text \<open>Every counter the key hits has room for its hits.\<close>

definition bf_room :: "cbf \<Rightarrow> Key_t \<Rightarrow> bool" where
  "bf_room bf key \<longleftrightarrow> (\<forall>p<unat (m_numBits bf).
     counter bf p + count (hits (m_numHashes bf) (m_numBits bf) key) p \<le> 255)"

definition kv_ok :: "('s \<Rightarrow> bool) \<Rightarrow> ('s \<Rightarrow> Key_t multiset) \<Rightarrow> 's KV \<Rightarrow> bool" where
  "kv_ok invar stored kv \<longleftrightarrow> invar (kv_hash kv) \<and>
     (\<exists>bf S. kv_bf kv = Some bf \<and> represents bf S \<and> stored (kv_hash kv) \<subseteq># S)"

lemma bf_room_unsaturated:
  "represents bf S \<Longrightarrow> bf_room bf key \<Longrightarrow> unsaturated bf (add_mset key S)"
  by (simp add: represents_def bf_room_def unsaturated_def add.commute)

lemma bf_exchange_represents:
  assumes "represents bf S" "bf_room bf key" "evicted d \<subseteq># add_mset key S"
  shows "\<exists>bf'. bf_exchange (Some bf) key d = Some (Some bf') \<and>
     represents bf' (add_mset key S - evicted d) \<and>
     m_numHashes bf' = m_numHashes bf \<and> m_numBits bf' = m_numBits bf"
proof -
  obtain b where b: "bf_Insert bf key = Some b" "represents b (add_mset key S)"
    "m_numHashes b = m_numHashes bf" "m_numBits b = m_numBits bf"
    using bf_Insert_represents [OF assms(1) bf_room_unsaturated [OF assms(1,2)]] by blast
  show ?thesis
  proof (cases "d = INVALID")
    case True
    with b show ?thesis by (simp add: bf_exchange_def)
  next
    case False
    then have "d \<in># add_mset key S"
      using mset_subset_eqD [OF assms(3), of d] by simp
    from bf_Delete_represents [OF b(2) this] obtain b' where "bf_Delete b d = Some (b', True)"
      "represents b' (add_mset key S - {#d#})" "m_numHashes b' = m_numHashes b" "m_numBits b' = m_numBits b"
      by blast
    with b False show ?thesis by (simp add: bf_exchange_def)
  qed
qed

text \<open>A sequence of insertions, and that each finds room in the counters.\<close>

fun kv_run ::
  "('s \<Rightarrow> Key_t \<Rightarrow> Value_t \<Rightarrow> ('s \<times> Key_t) option) \<Rightarrow> 's KV \<Rightarrow> (Key_t \<times> Value_t) list \<Rightarrow> 's KV option"
  where
  "kv_run ins kv [] = Some kv"
| "kv_run ins kv ((k, v) # kvs) = do { (kv', _) \<leftarrow> KV_Insert ins kv k v; kv_run ins kv' kvs }"

fun kv_rooms ::
  "('s \<Rightarrow> Key_t \<Rightarrow> Value_t \<Rightarrow> ('s \<times> Key_t) option) \<Rightarrow> 's KV \<Rightarrow> (Key_t \<times> Value_t) list \<Rightarrow> bool"
  where
  "kv_rooms ins kv [] = True"
| "kv_rooms ins kv ((k, v) # kvs) =
     ((case kv_bf kv of None \<Rightarrow> True | Some bf \<Rightarrow> bf_room bf k) \<and>
      (case KV_Insert ins kv k v of None \<Rightarrow> True | Some (kv', _) \<Rightarrow> kv_rooms ins kv' kvs))"

context evicting_table
begin

lemma KV_Insert_ok:
  assumes "kv_ok invar stored kv" "kv_bf kv = Some bf" "bf_room bf k" "k \<noteq> INVALID"
    "room (kv_hash kv) k"
  shows "\<exists>kv' bf' b d. KV_Insert ins kv k v = Some (kv', b) \<and> kv_ok invar stored kv' \<and>
     ins (kv_hash kv) k v = Some (kv_hash kv', d) \<and> kv_bf kv' = Some bf' \<and> m_numHashes bf' = m_numHashes bf \<and> m_numBits bf' = m_numBits bf"
proof -
  from assms(1,2) obtain S where inv: "invar (kv_hash kv)" and rep: "represents bf S"
    and sub: "stored (kv_hash kv) \<subseteq># S"
    by (auto simp: kv_ok_def)
  obtain s' d where step: "ins (kv_hash kv) k v = Some (s', d)"
    using ins_total [OF inv assms(4,5)] by blast
  have acc: "stored s' + evicted d \<subseteq># add_mset k (stored (kv_hash kv))"
    by (rule ins_stored [OF inv assms(4) step])
  also have "\<dots> \<subseteq># add_mset k S" using sub by simp
  finally have acc: "stored s' + evicted d \<subseteq># add_mset k S" .
  then have "evicted d \<subseteq># add_mset k S"
    by (meson mset_subset_eq_add_right subset_mset.order_trans)
  then obtain bf' where bf': "bf_exchange (Some bf) k d = Some (Some bf')"
    "represents bf' (add_mset k S - evicted d)" "m_numHashes bf' = m_numHashes bf"
    "m_numBits bf' = m_numBits bf"
    using bf_exchange_represents [OF rep assms(3)] by blast
  have "stored s' \<subseteq># add_mset k S - evicted d"
    using acc by (metis subset_mset.le_diff_conv2 mset_subset_eq_add_right subset_mset.order_trans)
  with bf' step ins_invar [OF inv assms(4) step] assms(2) show ?thesis
    by (auto simp: KV_Insert_def kv_ok_def)
qed

lemma kv_run_ok:
  assumes "kv_ok invar stored kv" "kv_rooms ins kv kvs" "INVALID \<notin> fst ` set kvs"
    "kv_bf kv = Some bf" "accepts room ins (kv_hash kv) kvs"
  shows "\<exists>kv' bf'. kv_run ins kv kvs = Some kv' \<and> kv_ok invar stored kv' \<and>
     kv_bf kv' = Some bf' \<and> m_numHashes bf' = m_numHashes bf \<and> m_numBits bf' = m_numBits bf"
  using assms
proof (induction kvs arbitrary: kv bf)
  case (Cons x kvs)
  obtain k v where x: "x = (k, v)" by force
  have k: "k \<noteq> INVALID" "INVALID \<notin> fst ` set kvs" using Cons.prems(3) x by auto
  have room: "bf_room bf k" using Cons.prems(2,4) x by simp
  have "room (kv_hash kv) k" using Cons.prems(5) x by simp
  then obtain kv1 bf1 b d where step: "KV_Insert ins kv k v = Some (kv1, b)" "kv_ok invar stored kv1"
    "ins (kv_hash kv) k v = Some (kv_hash kv1, d)" "kv_bf kv1 = Some bf1" "m_numHashes bf1 = m_numHashes bf" "m_numBits bf1 = m_numBits bf"
    using KV_Insert_ok [OF Cons.prems(1,4) room k(1)] by blast
  have "kv_rooms ins kv1 kvs" "accepts room ins (kv_hash kv1) kvs"
    using Cons.prems(2,5) step(1,3) x by simp_all
  from Cons.IH [OF step(2) this(1) k(2) step(4) this(2)] step x show ?case by auto
qed simp

text \<open>A key whose lookup returns a page is in the filter.\<close>

lemma kv_get_in_filter:
  assumes "kv_ok invar stored kv" "kv_bf kv = Some bf" "k \<noteq> INVALID"
    "KV_Get get kv k = Some (kv', v)" "v \<noteq> NONE"
  shows "bf_Query bf k = Some True"
proof -
  from assms(1,2) obtain S where inv: "invar (kv_hash kv)" and rep: "represents bf S"
    and sub: "stored (kv_hash kv) \<subseteq># S"
    by (auto simp: kv_ok_def)
  have "get (kv_hash kv) k = Some v"
    using assms(4) by (auto simp: KV_Get_def split: bind_splits)
  then have "k \<in># stored (kv_hash kv)"
    by (rule get_stored [OF inv assms(3) _ assms(5)])
  with sub have "k \<in># S" by (rule mset_subset_eqD)
  then show ?thesis by (rule dominates_Query [OF represents_dominates [OF rep]])
qed

text \<open>
  The client's filter, after the server's bit array is copied into it, answers true for every
  key whose lookup on the server returns a page.
\<close>

lemma kv_client_filter:
  assumes init: "invar s" "stored s = {#}"
    and bits: "0 < unat numBits" "unat numBits \<le> 2 ^ 31"
    and ops: "INVALID \<notin> fst ` set kvs" "kv_rooms ins (new_KV s (Some (new_cbf numHashes numBits))) kvs"
    and acc: "accepts room ins s kvs"
    and shape: "same_shape (new_cbf numHashes numBits) flt"
  shows "\<exists>kv bf bf' flt'. kv_run ins (new_KV s (Some (new_cbf numHashes numBits))) kvs = Some kv \<and>
     kv_bf kv = Some bf \<and> ToOrdinaryBloomFilter bf = Some bf' \<and>
     bloom_filter_set flt (m_boolbitarray bf') = Some flt' \<and>
     (\<forall>k kv' v. k \<noteq> INVALID \<and> KV_Get get kv k = Some (kv', v) \<and> v \<noteq> NONE \<longrightarrow>
        bloom_filter_check flt' (bytes_of_u64 k) = Some True)"
proof -
  let ?kv = "new_KV s (Some (new_cbf numHashes numBits))"
  have "kv_ok invar stored ?kv"
    using represents_new [OF bits, of numHashes] init by (auto simp: kv_ok_def new_KV_def)
  moreover have "kv_bf ?kv = Some (new_cbf numHashes numBits)" "kv_hash ?kv = s"
    by (simp_all add: new_KV_def)
  ultimately obtain kv bf where run: "kv_run ins ?kv kvs = Some kv" "kv_ok invar stored kv"
    "kv_bf kv = Some bf" "m_numHashes bf = numHashes" "m_numBits bf = numBits"
    using kv_run_ok [OF _ ops(2,1)] acc by (fastforce simp: new_cbf_def)
  have wf: "wf_cbf bf" using run(2,3) by (auto simp: kv_ok_def represents_def)
  have "m_numLongs bf = BITS_TO_LONGS numBits" using wf run(5) by (simp add: wf_cbf_def)
  then have "same_shape bf flt"
    using shape run(4,5) by (simp add: same_shape_def new_cbf_def)
  then obtain bf' flt' where tr: "ToOrdinaryBloomFilter bf = Some bf'"
    "bloom_filter_set flt (m_boolbitarray bf') = Some flt'"
    "\<forall>key. bloom_filter_check flt' (bytes_of_u64 key) = bf_Query bf key"
    using server_filter_transfer [OF wf] by blast
  with run kv_get_in_filter [OF run(2,3)] show ?thesis by metis
qed

end

end
