(* ===== verification/Cache_Policies.thy ===== *)
theory Cache_Policies
  imports Prelude
begin

text \<open>
  The caches of \<^verbatim>\<open>server/cache-replacement\<close>: \<^verbatim>\<open>fixed_sized_cache\<close> over a replacement policy
  (none, FIFO, LRU, LFU). A policy is a record of its four operations, as \<^verbatim>\<open>ICachePolicy\<close> is a
  table of virtual functions. \<open>None\<close> is undefined behaviour: \<^verbatim>\<open>back()\<close> of an empty list, a
  dereference of \<^verbatim>\<open>end()\<close>, an iterator that points nowhere. The mutex makes every operation one
  step. An \<^verbatim>\<open>unordered_map\<close> is a list of pairs with distinct keys; its order is arbitrary.
\<close>

section \<open>Policies\<close>

record ('p, 'k) ICachePolicy =
  p_Insert :: "'p \<Rightarrow> 'k \<Rightarrow> 'p option"
  p_Touch :: "'p \<Rightarrow> 'k \<Rightarrow> 'p option"
  p_Erase :: "'p \<Rightarrow> 'k \<Rightarrow> 'p option"
  p_ReplCandidate :: "'p \<Rightarrow> 'k option"

subsection \<open>No policy\<close>

text \<open>
  The candidate is whatever element the iteration of the \<^verbatim>\<open>unordered_set\<close> begins with: the first
  of the list here.
\<close>

definition none_Insert :: "'k list \<Rightarrow> 'k \<Rightarrow> 'k list option" where
  "none_Insert ks key = Some (List.insert key ks)"

definition none_Touch :: "'k list \<Rightarrow> 'k \<Rightarrow> 'k list option" where
  "none_Touch ks key = Some ks"

definition none_Erase :: "'k list \<Rightarrow> 'k \<Rightarrow> 'k list option" where
  "none_Erase ks key = Some (removeAll key ks)"

definition none_ReplCandidate :: "'k list \<Rightarrow> 'k option" where
  "none_ReplCandidate ks = (case ks of [] \<Rightarrow> None | k # _ \<Rightarrow> Some k)"

definition NoCachePolicy :: "('k list, 'k) ICachePolicy" where
  "NoCachePolicy = \<lparr>p_Insert = none_Insert, p_Touch = none_Touch, p_Erase = none_Erase,
     p_ReplCandidate = none_ReplCandidate\<rparr>"

subsection \<open>First in, first out\<close>

definition fifo_Insert :: "'k list \<Rightarrow> 'k \<Rightarrow> 'k list option" where
  "fifo_Insert fifo_queue key = Some (key # fifo_queue)"

definition fifo_Touch :: "'k list \<Rightarrow> 'k \<Rightarrow> 'k list option" where
  "fifo_Touch fifo_queue key = Some fifo_queue"

text \<open>\<open>Erase\<close> does not look at its key.\<close>

definition fifo_Erase :: "'k list \<Rightarrow> 'k \<Rightarrow> 'k list option" where
  "fifo_Erase fifo_queue key = (if fifo_queue = [] then None else Some (butlast fifo_queue))"

definition fifo_ReplCandidate :: "'k list \<Rightarrow> 'k option" where
  "fifo_ReplCandidate fifo_queue = (if fifo_queue = [] then None else Some (last fifo_queue))"

definition FIFOCachePolicy :: "('k list, 'k) ICachePolicy" where
  "FIFOCachePolicy = \<lparr>p_Insert = fifo_Insert, p_Touch = fifo_Touch, p_Erase = fifo_Erase,
     p_ReplCandidate = fifo_ReplCandidate\<rparr>"

subsection \<open>Least recently used\<close>

text \<open>
  A node of the \<^verbatim>\<open>std::list\<close> has an address, and \<^verbatim>\<open>key_finder\<close> maps a key to the address of a node.
\<close>

record 'k lru =
  lru_queue :: "(nat \<times> 'k) list"
  key_finder :: "'k \<rightharpoonup> nat"
  lru_fresh :: nat

definition lru_new :: "'k lru" where
  "lru_new = \<lparr>lru_queue = [], key_finder = Map.empty, lru_fresh = 0\<rparr>"

definition lru_Insert :: "'k lru \<Rightarrow> 'k \<Rightarrow> 'k lru option" where
  "lru_Insert q key = Some (q\<lparr>lru_queue := (lru_fresh q, key) # lru_queue q,
     key_finder := (key_finder q)(key \<mapsto> lru_fresh q), lru_fresh := Suc (lru_fresh q)\<rparr>)"

definition lru_Touch :: "'k lru \<Rightarrow> 'k \<Rightarrow> 'k lru option" where
  "lru_Touch q key = do {
     node \<leftarrow> key_finder q key;
     k \<leftarrow> map_of (lru_queue q) node;
     Some (q\<lparr>lru_queue := (node, k) # filter (\<lambda>x. fst x \<noteq> node) (lru_queue q)\<rparr>) }"

definition lru_Erase :: "'k lru \<Rightarrow> 'k \<Rightarrow> 'k lru option" where
  "lru_Erase q key =
     (if lru_queue q = [] then None
      else Some (q\<lparr>key_finder := (key_finder q)(snd (last (lru_queue q)) := None),
                   lru_queue := butlast (lru_queue q)\<rparr>))"

definition lru_ReplCandidate :: "'k lru \<Rightarrow> 'k option" where
  "lru_ReplCandidate q = (if lru_queue q = [] then None else Some (snd (last (lru_queue q))))"

definition LRUCachePolicy :: "('k lru, 'k) ICachePolicy" where
  "LRUCachePolicy = \<lparr>p_Insert = lru_Insert, p_Touch = lru_Touch, p_Erase = lru_Erase,
     p_ReplCandidate = lru_ReplCandidate\<rparr>"

subsection \<open>Least frequently used\<close>

text \<open>
  The \<^verbatim>\<open>multimap\<close> is a list sorted by frequency, its nodes have addresses. \<^verbatim>\<open>emplace_hint\<close> at
  \<^verbatim>\<open>cbegin()\<close> goes before the elements of the same frequency, at \<^verbatim>\<open>cend()\<close> behind them.
\<close>

record 'k lfu =
  frequency_storage :: "(nat \<times> u64 \<times> 'k) list"
  lfu_storage :: "'k \<rightharpoonup> nat"
  lfu_fresh :: nat

definition lfu_new :: "'k lfu" where
  "lfu_new = \<lparr>frequency_storage = [], lfu_storage = Map.empty, lfu_fresh = 0\<rparr>"

abbreviation node_freq :: "nat \<times> u64 \<times> 'k \<Rightarrow> u64" where
  "node_freq e \<equiv> fst (snd e)"

definition emplace_front :: "nat \<times> u64 \<times> 'k \<Rightarrow> (nat \<times> u64 \<times> 'k) list \<Rightarrow> (nat \<times> u64 \<times> 'k) list" where
  "emplace_front e es = takeWhile (\<lambda>x. node_freq x < node_freq e) es @ e # dropWhile (\<lambda>x. node_freq x < node_freq e) es"

definition emplace_back :: "nat \<times> u64 \<times> 'k \<Rightarrow> (nat \<times> u64 \<times> 'k) list \<Rightarrow> (nat \<times> u64 \<times> 'k) list" where
  "emplace_back e es = takeWhile (\<lambda>x. node_freq x \<le> node_freq e) es @ e # dropWhile (\<lambda>x. node_freq x \<le> node_freq e) es"

definition lfu_Insert :: "'k lfu \<Rightarrow> 'k \<Rightarrow> 'k lfu option" where
  "lfu_Insert q key = Some (q\<lparr>
     frequency_storage := emplace_front (lfu_fresh q, 1, key) (frequency_storage q),
     lfu_storage := (lfu_storage q)(key \<mapsto> lfu_fresh q), lfu_fresh := Suc (lfu_fresh q)\<rparr>)"

definition lfu_Touch :: "'k lfu \<Rightarrow> 'k \<Rightarrow> 'k lfu option" where
  "lfu_Touch q key = do {
     node \<leftarrow> lfu_storage q key;
     (freq, k) \<leftarrow> map_of (frequency_storage q) node;
     Some (q\<lparr>
       frequency_storage := emplace_back (lfu_fresh q, freq + 1, k)
         (filter (\<lambda>x. fst x \<noteq> node) (frequency_storage q)),
       lfu_storage := (lfu_storage q)(key \<mapsto> lfu_fresh q), lfu_fresh := Suc (lfu_fresh q)\<rparr>) }"

definition lfu_Erase :: "'k lfu \<Rightarrow> 'k \<Rightarrow> 'k lfu option" where
  "lfu_Erase q key = do {
     node \<leftarrow> lfu_storage q key;
     _ \<leftarrow> map_of (frequency_storage q) node;
     Some (q\<lparr>frequency_storage := filter (\<lambda>x. fst x \<noteq> node) (frequency_storage q),
             lfu_storage := (lfu_storage q)(key := None)\<rparr>) }"

definition lfu_ReplCandidate :: "'k lfu \<Rightarrow> 'k option" where
  "lfu_ReplCandidate q = (case frequency_storage q of [] \<Rightarrow> None | (_, _, k) # _ \<Rightarrow> Some k)"

definition LFUCachePolicy :: "('k lfu, 'k) ICachePolicy" where
  "LFUCachePolicy = \<lparr>p_Insert = lfu_Insert, p_Touch = lfu_Touch, p_Erase = lfu_Erase,
     p_ReplCandidate = lfu_ReplCandidate\<rparr>"

section \<open>The cache\<close>

text \<open>\<open>erased\<close> records the calls of \<^verbatim>\<open>OnEraseCallback\<close>, the last first.\<close>

record ('k, 'v, 'p) cache =
  cache_items_map :: "('k \<times> 'v) list"
  cache_policy :: 'p
  max_cache_size :: nat
  evict_queue :: "'k list"
  erased :: "('k \<times> 'v) list"

datatype cache_error = Range_error

definition fixed_sized_cache :: "nat \<Rightarrow> 'p \<Rightarrow> ('k, 'v, 'p) cache" where
  "fixed_sized_cache max_size policy = \<lparr>cache_items_map = [], cache_policy = policy,
     max_cache_size = (if max_size = 0 then 2 ^ 64 - 1 else max_size), evict_queue = [], erased = []\<rparr>"

definition cache_Insert :: "('p, 'k) ICachePolicy \<Rightarrow> ('k, 'v, 'p) cache \<Rightarrow> 'k \<Rightarrow> 'v \<Rightarrow> ('k, 'v, 'p) cache option" where
  "cache_Insert P c key value = do {
     p \<leftarrow> p_Insert P (cache_policy c) key;
     Some (c\<lparr>cache_policy := p, cache_items_map :=
       (if key \<in> fst ` set (cache_items_map c) then cache_items_map c
        else (key, value) # cache_items_map c)\<rparr>) }"

definition cache_Erase :: "('p, 'k) ICachePolicy \<Rightarrow> ('k, 'v, 'p) cache \<Rightarrow> 'k \<Rightarrow> ('k, 'v, 'p) cache option" where
  "cache_Erase P c key = do {
     p \<leftarrow> p_Erase P (cache_policy c) key;
     v \<leftarrow> map_of (cache_items_map c) key;
     Some (c\<lparr>cache_policy := p, erased := (key, v) # erased c,
             cache_items_map := filter (\<lambda>x. fst x \<noteq> key) (cache_items_map c)\<rparr>) }"

definition cache_Update :: "('p, 'k) ICachePolicy \<Rightarrow> ('k, 'v, 'p) cache \<Rightarrow> 'k \<Rightarrow> 'v \<Rightarrow> ('k, 'v, 'p) cache option" where
  "cache_Update P c key value = do {
     p \<leftarrow> p_Touch P (cache_policy c) key;
     Some (c\<lparr>cache_policy := p,
             cache_items_map := (key, value) # filter (\<lambda>x. fst x \<noteq> key) (cache_items_map c)\<rparr>) }"

definition cache_Put :: "('p, 'k) ICachePolicy \<Rightarrow> ('k, 'v, 'p) cache \<Rightarrow> 'k \<Rightarrow> 'v \<Rightarrow> ('k, 'v, 'p) cache option" where
  "cache_Put P c key value =
     (case map_of (cache_items_map c) key of
        None \<Rightarrow> do {
          c' \<leftarrow> (if max_cache_size c < length (cache_items_map c) + 1 then do {
                  cand \<leftarrow> p_ReplCandidate P (cache_policy c);
                  cache_Erase P (c\<lparr>evict_queue := cand # evict_queue c\<rparr>) cand }
                else Some c);
          cache_Insert P c' key value }
      | Some _ \<Rightarrow> cache_Update P c key value)"

definition cache_Get :: "('p, 'k) ICachePolicy \<Rightarrow> ('k, 'v, 'p) cache \<Rightarrow> 'k \<Rightarrow> (cache_error + ('k, 'v, 'p) cache \<times> 'v) option" where
  "cache_Get P c key =
     (case map_of (cache_items_map c) key of
        None \<Rightarrow> Some (Inl Range_error)
      | Some v \<Rightarrow> do {
          p \<leftarrow> p_Touch P (cache_policy c) key;
          Some (Inr (c\<lparr>cache_policy := p\<rparr>, v)) })"

definition cache_Cached :: "('k, 'v, 'p) cache \<Rightarrow> 'k \<Rightarrow> bool" where
  "cache_Cached c key \<longleftrightarrow> map_of (cache_items_map c) key \<noteq> None"

definition cache_Size :: "('k, 'v, 'p) cache \<Rightarrow> nat" where
  "cache_Size c = length (cache_items_map c)"

definition cache_Remove :: "('p, 'k) ICachePolicy \<Rightarrow> ('k, 'v, 'p) cache \<Rightarrow> 'k \<Rightarrow> (('k, 'v, 'p) cache \<times> bool) option" where
  "cache_Remove P c key =
     (if map_of (cache_items_map c) key = None then Some (c, False)
      else do { c' \<leftarrow> cache_Erase P c key; Some (c', True) })"

definition cache_ClearEvictQueue :: "('k, 'v, 'p) cache \<Rightarrow> ('k, 'v, 'p) cache" where
  "cache_ClearEvictQueue c = c\<lparr>evict_queue := []\<rparr>"

fun cache_clear_loop :: "('p, 'k) ICachePolicy \<Rightarrow> ('k \<times> 'v) list \<Rightarrow> 'p \<Rightarrow> ('k \<times> 'v) list \<Rightarrow> ('p \<times> ('k \<times> 'v) list) option" where
  "cache_clear_loop P [] p log = Some (p, log)"
| "cache_clear_loop P (kv # kvs) p log = do { p' \<leftarrow> p_Erase P p (fst kv); cache_clear_loop P kvs p' (kv # log) }"

definition cache_Clear :: "('p, 'k) ICachePolicy \<Rightarrow> ('k, 'v, 'p) cache \<Rightarrow> ('k, 'v, 'p) cache option" where
  "cache_Clear P c = do {
     (p, log) \<leftarrow> cache_clear_loop P (cache_items_map c) (cache_policy c) (erased c);
     Some (c\<lparr>cache_policy := p, erased := log, cache_items_map := []\<rparr>) }"

section \<open>What a cache needs from its policy\<close>

text \<open>
  The policy tracks a set of keys. It must accept a new key, a touch of a key it tracks, and name
  a candidate whose erasure removes exactly that key. Nothing is asked of the erasure of
  other keys: only \<open>Remove\<close> erases those, and FIFO and LRU do it wrongly.
\<close>

locale replacement_policy =
  fixes P :: "('p, 'k) ICachePolicy"
    and ok :: "'p \<Rightarrow> bool"
    and tracked :: "'p \<Rightarrow> 'k set"
  assumes insert_law: "ok p \<Longrightarrow> k \<notin> tracked p \<Longrightarrow>
      \<exists>p'. p_Insert P p k = Some p' \<and> ok p' \<and> tracked p' = insert k (tracked p)"
    and touch_law: "ok p \<Longrightarrow> k \<in> tracked p \<Longrightarrow> \<exists>p'. p_Touch P p k = Some p' \<and> ok p' \<and> tracked p' = tracked p"
    and cand_law: "ok p \<Longrightarrow> tracked p \<noteq> {} \<Longrightarrow> \<exists>k. p_ReplCandidate P p = Some k \<and> k \<in> tracked p \<and>
      (\<exists>p'. p_Erase P p k = Some p' \<and> ok p' \<and> tracked p' = tracked p - {k})"
begin

definition cache_ok :: "('k, 'v, 'p) cache \<Rightarrow> bool" where
  "cache_ok c \<longleftrightarrow> ok (cache_policy c) \<and> tracked (cache_policy c) = fst ` set (cache_items_map c) \<and>
     distinct (map fst (cache_items_map c)) \<and> length (cache_items_map c) \<le> max_cache_size c \<and>
     0 < max_cache_size c"

lemma cache_ok_new: "ok p \<Longrightarrow> tracked p = {} \<Longrightarrow> cache_ok (fixed_sized_cache n p)"
  by (simp add: cache_ok_def fixed_sized_cache_def)

lemma put_present:
  assumes "cache_ok c" "map_of (cache_items_map c) k = Some v0"
  shows "\<exists>p'. p_Touch P (cache_policy c) k = Some p' \<and>
    cache_Put P c k v = Some (c\<lparr>cache_policy := p', cache_items_map :=
      (k, v) # filter (\<lambda>x. fst x \<noteq> k) (cache_items_map c)\<rparr>) \<and>
    cache_ok (c\<lparr>cache_policy := p', cache_items_map := (k, v) # filter (\<lambda>x. fst x \<noteq> k) (cache_items_map c)\<rparr>)"
proof -
  let ?m = "cache_items_map c"
  have k: "k \<in> fst ` set ?m" using assms(2) by (force dest: map_of_SomeD)
  then obtain p' where p': "p_Touch P (cache_policy c) k = Some p'" "ok p'" "tracked p' = tracked (cache_policy c)"
    using touch_law [of "cache_policy c" k] assms(1) by (auto simp: cache_ok_def)
  have "length (filter (\<lambda>x. fst x \<noteq> k) ?m) < length ?m"
    using k by (auto intro: length_filter_less)
  moreover have "fst ` set ((k, v) # filter (\<lambda>x. fst x \<noteq> k) ?m) = fst ` set ?m" using k by auto
  moreover have "distinct (map fst ((k, v) # filter (\<lambda>x. fst x \<noteq> k) ?m))"
    using assms(1) by (auto simp: cache_ok_def distinct_map_filter)
  ultimately show ?thesis
    using p' assms by (auto simp: cache_Put_def cache_Update_def cache_ok_def)
qed

lemma put_room:
  assumes "cache_ok c" "map_of (cache_items_map c) k = None" "length (cache_items_map c) < max_cache_size c"
  shows "\<exists>p'. p_Insert P (cache_policy c) k = Some p' \<and>
    cache_Put P c k v = Some (c\<lparr>cache_policy := p', cache_items_map := (k, v) # cache_items_map c\<rparr>) \<and>
    cache_ok (c\<lparr>cache_policy := p', cache_items_map := (k, v) # cache_items_map c\<rparr>)"
proof -
  have "k \<notin> fst ` set (cache_items_map c)" using assms(2) by (simp add: map_of_eq_None_iff)
  then show ?thesis
    using insert_law [of "cache_policy c" k] assms by (auto simp: cache_Put_def cache_Insert_def cache_ok_def)
qed

lemma put_full:
  assumes "cache_ok c" "map_of (cache_items_map c) k = None" "length (cache_items_map c) = max_cache_size c"
  shows "\<exists>cand v' p1 p2 c'. p_ReplCandidate P (cache_policy c) = Some cand \<and> cand \<noteq> k \<and>
    map_of (cache_items_map c) cand = Some v' \<and>
    p_Erase P (cache_policy c) cand = Some p1 \<and> p_Insert P p1 k = Some p2 \<and>
    c' = c\<lparr>cache_policy := p2, evict_queue := cand # evict_queue c, erased := (cand, v') # erased c,
           cache_items_map := (k, v) # filter (\<lambda>x. fst x \<noteq> cand) (cache_items_map c)\<rparr> \<and>
    cache_Put P c k v = Some c' \<and> cache_ok c'"
proof -
  let ?m = "cache_items_map c"
  have inv: "ok (cache_policy c)" "tracked (cache_policy c) = fst ` set ?m" "distinct (map fst ?m)"
    "length ?m = max_cache_size c" "0 < max_cache_size c"
    using assms(1,3) by (simp_all add: cache_ok_def)
  have k: "k \<notin> fst ` set ?m" using assms(2) by (simp add: map_of_eq_None_iff)
  have "tracked (cache_policy c) \<noteq> {}" using inv by auto
  from cand_law [OF inv(1) this] obtain cand p1 where cand: "p_ReplCandidate P (cache_policy c) = Some cand"
    "cand \<in> fst ` set ?m" "p_Erase P (cache_policy c) cand = Some p1" "ok p1" "tracked p1 = fst ` set ?m - {cand}"
    using inv(2) by auto
  obtain v' where v': "map_of ?m cand = Some v'"
    using cand(2) by (metis map_of_eq_None_iff not_None_eq)
  let ?f = "filter (\<lambda>x. fst x \<noteq> cand) ?m"
  have f: "fst ` set ?f = fst ` set ?m - {cand}" by auto
  have "k \<notin> tracked p1" using k cand(5) by simp
  from insert_law [OF cand(4) this] obtain p2 where p2: "p_Insert P p1 k = Some p2" "ok p2"
    "tracked p2 = insert k (tracked p1)" by blast
  have "length ?f < length ?m" using cand(2) by (auto intro: length_filter_less)
  then have "cache_ok (c\<lparr>cache_policy := p2, evict_queue := cand # evict_queue c,
      erased := (cand, v') # erased c, cache_items_map := (k, v) # ?f\<rparr>)"
    using p2 cand(5) inv k f by (auto simp: cache_ok_def distinct_map_filter)
  moreover have "cache_Put P c k v = Some (c\<lparr>cache_policy := p2, evict_queue := cand # evict_queue c,
      erased := (cand, v') # erased c, cache_items_map := (k, v) # ?f\<rparr>)"
    using cand(1,3) p2(1) v' assms(2) inv(4) k f
    by (simp add: cache_Put_def cache_Erase_def cache_Insert_def)
  moreover have "cand \<noteq> k" using k cand(2) by auto
  ultimately show ?thesis using cand p2 v' by blast
qed

lemma map_of_filter_key: "map_of (filter (\<lambda>x. fst x \<noteq> a) m) b = (if b = a then None else map_of m b)"
  by (induction m) auto

text \<open>
  \<open>Put\<close> never faults; afterwards the key has the value, every other key is as before, except the
  one evicted key of a full cache, which is logged.
\<close>

lemma cache_Put_ok:
  assumes "cache_ok c"
  shows "\<exists>c'. cache_Put P c k v = Some c' \<and> cache_ok c' \<and> map_of (cache_items_map c') k = Some v \<and>
    max_cache_size c' = max_cache_size c \<and>
    (\<forall>k'. k' \<noteq> k \<longrightarrow> map_of (cache_items_map c') k' = map_of (cache_items_map c) k' \<or>
       map_of (cache_items_map c') k' = None \<and> evict_queue c' = k' # evict_queue c)"
proof (cases "map_of (cache_items_map c) k")
  case (Some v0)
  from put_present [OF assms this, of v] show ?thesis by (auto simp: map_of_filter_key)
next
  case None
  show ?thesis
  proof (cases "length (cache_items_map c) = max_cache_size c")
    case True
    from put_full [OF assms None this, of v] obtain cand v' p1 p2 c' where r:
      "c' = c\<lparr>cache_policy := p2, evict_queue := cand # evict_queue c, erased := (cand, v') # erased c,
           cache_items_map := (k, v) # filter (\<lambda>x. fst x \<noteq> cand) (cache_items_map c)\<rparr>"
      "cache_Put P c k v = Some c'" "cache_ok c'" by blast
    show ?thesis
      by (intro exI [of _ c'] conjI) (use r in \<open>auto simp: map_of_filter_key\<close>)
  next
    case False
    then have "length (cache_items_map c) < max_cache_size c" using assms by (simp add: cache_ok_def)
    from put_room [OF assms None this, of v] show ?thesis by auto
  qed
qed

lemma cache_Get_ok:
  assumes "cache_ok c"
  shows "case map_of (cache_items_map c) k of
      None \<Rightarrow> cache_Get P c k = Some (Inl Range_error)
    | Some v \<Rightarrow> \<exists>c'. cache_Get P c k = Some (Inr (c', v)) \<and> cache_ok c' \<and>
        cache_items_map c' = cache_items_map c"
proof (cases "map_of (cache_items_map c) k")
  case (Some v)
  then have "k \<in> tracked (cache_policy c)" using assms by (force simp: cache_ok_def dest: map_of_SomeD)
  from touch_law [OF _ this] Some assms show ?thesis by (auto simp: cache_Get_def cache_ok_def)
qed (simp add: cache_Get_def)

end

section \<open>The four policies\<close>

interpretation nop: replacement_policy NoCachePolicy distinct set
  by unfold_locales
    (auto simp: NoCachePolicy_def none_Insert_def none_Touch_def none_Erase_def none_ReplCandidate_def
      distinct_removeAll split: list.splits)

lemma butlast_last_set: "distinct xs \<Longrightarrow> xs \<noteq> [] \<Longrightarrow> set (butlast xs) = set xs - {last xs}"
  by (induction xs rule: rev_induct) auto

interpretation fifo: replacement_policy FIFOCachePolicy distinct set
  by unfold_locales
    (auto simp: FIFOCachePolicy_def fifo_Insert_def fifo_Touch_def fifo_Erase_def fifo_ReplCandidate_def
      butlast_last_set distinct_butlast)

text \<open>The nodes of a policy that keeps a list of nodes and a map from keys to nodes.\<close>

definition nodes_ok :: "('n \<times> 'k) list \<Rightarrow> ('k \<rightharpoonup> 'n) \<Rightarrow> bool" where
  "nodes_ok ns finder \<longleftrightarrow> distinct (map fst ns) \<and> distinct (map snd ns) \<and>
     (\<forall>k n. finder k = Some n \<longleftrightarrow> (n, k) \<in> set ns)"

lemma nodes_okD:
  assumes "nodes_ok ns finder"
  shows "finder k = Some n \<longleftrightarrow> (n, k) \<in> set ns" "distinct (map fst ns)" "distinct (map snd ns)"
  using assms by (simp_all add: nodes_ok_def)

lemma nodes_ok_member:
  assumes "nodes_ok ns finder" "k \<in> snd ` set ns"
  shows "\<exists>n. finder k = Some n \<and> map_of ns n = Some k \<and> (n, k) \<in> set ns"
  using assms by (auto simp: nodes_ok_def)

lemma nodes_ok_insert:
  assumes "nodes_ok ns finder" "n \<notin> fst ` set ns" "k \<notin> snd ` set ns" "mset ns' = add_mset (n, k) (mset ns)"
  shows "nodes_ok ns' (finder(k \<mapsto> n))"
proof -
  have s: "set ns' = insert (n, k) (set ns)" using assms(4) by (metis set_mset_add_mset_insert set_mset_mset)
  have "mset (map fst ns') = mset (map fst ((n, k) # ns))" "mset (map snd ns') = mset (map snd ((n, k) # ns))"
    using assms(4) by simp_all
  then have "distinct (map fst ns') = distinct (map fst ((n, k) # ns))"
    "distinct (map snd ns') = distinct (map snd ((n, k) # ns))"
    by (metis mset_eq_imp_distinct_iff)+
  with assms s show ?thesis by (force simp: nodes_ok_def)
qed

lemma nodes_ok_filter:
  assumes "nodes_ok ns finder" "(n, k) \<in> set ns"
  shows "nodes_ok (filter (\<lambda>x. fst x \<noteq> n) ns) (finder(k := None))"
    and "snd ` set (filter (\<lambda>x. fst x \<noteq> n) ns) = snd ` set ns - {k}"
proof -
  have uniq: "b = k \<longleftrightarrow> a = n" if "(a, b) \<in> set ns" for a b
    using assms that by (metis nodes_okD(1,2) eq_key_imp_eq_value option.inject)
  with assms show "nodes_ok (filter (\<lambda>x. fst x \<noteq> n) ns) (finder(k := None))"
    by (auto simp: nodes_ok_def distinct_map_filter)
  show "snd ` set (filter (\<lambda>x. fst x \<noteq> n) ns) = snd ` set ns - {k}"
    using uniq by force
qed

definition lru_ok :: "'k lru \<Rightarrow> bool" where
  "lru_ok q \<longleftrightarrow> nodes_ok (lru_queue q) (key_finder q) \<and> (\<forall>n\<in>fst ` set (lru_queue q). n < lru_fresh q)"

definition lru_keys :: "'k lru \<Rightarrow> 'k list" where
  "lru_keys q = map snd (lru_queue q)"

lemma filter_other_keys:
  assumes "nodes_ok ns finder" "(n, k) \<in> set ns"
  shows "map snd (filter (\<lambda>x. fst x \<noteq> n) ns) = filter (\<lambda>k'. k' \<noteq> k) (map snd ns)"
proof -
  have "fst x \<noteq> n \<longleftrightarrow> snd x \<noteq> k" if "x \<in> set ns" for x
    using assms that by (metis nodes_okD(1,2) eq_key_imp_eq_value option.inject prod.collapse)
  then have "filter (\<lambda>x. fst x \<noteq> n) ns = filter (\<lambda>x. snd x \<noteq> k) ns" by (rule filter_cong [OF refl])
  then show ?thesis by (simp add: filter_map comp_def)
qed

lemma lru_Insert_step:
  assumes "lru_ok q" "k \<notin> set (lru_keys q)"
  shows "\<exists>q'. lru_Insert q k = Some q' \<and> lru_ok q' \<and> lru_keys q' = k # lru_keys q"
proof -
  have "lru_fresh q \<notin> fst ` set (lru_queue q)" using assms(1) by (auto simp: lru_ok_def)
  then have "nodes_ok ((lru_fresh q, k) # lru_queue q) ((key_finder q)(k \<mapsto> lru_fresh q))"
    using assms by (intro nodes_ok_insert [of "lru_queue q"]) (auto simp: lru_ok_def lru_keys_def)
  with assms(1) show ?thesis
    by (auto simp: lru_Insert_def lru_ok_def lru_keys_def less_Suc_eq)
qed

lemma lru_Touch_step:
  assumes "lru_ok q" "k \<in> set (lru_keys q)"
  shows "\<exists>q'. lru_Touch q k = Some q' \<and> lru_ok q' \<and> lru_keys q' = k # filter (\<lambda>k'. k' \<noteq> k) (lru_keys q)"
proof -
  have ok: "nodes_ok (lru_queue q) (key_finder q)" using assms(1) by (simp add: lru_ok_def)
  obtain n where n: "key_finder q k = Some n" "map_of (lru_queue q) n = Some k" "(n, k) \<in> set (lru_queue q)"
    using nodes_ok_member [OF ok, of k] assms(2) by (auto simp: lru_keys_def)
  let ?ns = "filter (\<lambda>x. fst x \<noteq> n) (lru_queue q)"
  have "nodes_ok ((n, k) # ?ns) ((key_finder q)(k := None, k \<mapsto> n))"
    using nodes_ok_filter [OF ok n(3)] by (intro nodes_ok_insert [of ?ns]) auto
  then have "nodes_ok ((n, k) # ?ns) (key_finder q)" using n(1) by (simp add: fun_upd_idem)
  moreover have "n < lru_fresh q" using assms(1) n(3) by (force simp: lru_ok_def)
  ultimately show ?thesis
    using n(1,2) assms(1) filter_other_keys [OF ok n(3)]
    by (auto simp: lru_Touch_def lru_ok_def lru_keys_def)
qed

lemma lru_Erase_step:
  assumes "lru_ok q" "lru_keys q \<noteq> []"
  shows "lru_ReplCandidate q = Some (last (lru_keys q))"
    "\<exists>q'. lru_Erase q k = Some q' \<and> lru_ok q' \<and> lru_keys q' = butlast (lru_keys q)"
proof -
  obtain ns n k' where ns: "lru_queue q = ns @ [(n, k')]"
    using assms(2) by (metis lru_keys_def list.map_disc_iff rev_exhaust surj_pair)
  then show "lru_ReplCandidate q = Some (last (lru_keys q))"
    by (simp add: lru_ReplCandidate_def lru_keys_def)
  have "nodes_ok (lru_queue q) (key_finder q)" "(n, k') \<in> set (lru_queue q)"
    using assms(1) ns by (simp_all add: lru_ok_def)
  note nodes_ok_filter(1) [OF this]
  moreover have "filter (\<lambda>x. fst x \<noteq> n) (lru_queue q) = ns"
    using assms(1) ns by (auto simp: lru_ok_def nodes_ok_def filter_id_conv)
  ultimately show "\<exists>q'. lru_Erase q k = Some q' \<and> lru_ok q' \<and> lru_keys q' = butlast (lru_keys q)"
    using assms(1) ns by (auto simp: lru_Erase_def lru_ok_def lru_keys_def)
qed

lemma lru_keys_distinct: "lru_ok q \<Longrightarrow> distinct (lru_keys q)"
  by (simp add: lru_ok_def nodes_ok_def lru_keys_def)

interpretation lru: replacement_policy LRUCachePolicy lru_ok "\<lambda>q. set (lru_keys q)"
proof
  fix p :: "'k lru" and k assume p: "lru_ok p"
  show "\<exists>p'. p_Insert LRUCachePolicy p k = Some p' \<and> lru_ok p' \<and> set (lru_keys p') = insert k (set (lru_keys p))"
    if "k \<notin> set (lru_keys p)"
    using lru_Insert_step [OF p that] by (auto simp: LRUCachePolicy_def)
  show "\<exists>p'. p_Touch LRUCachePolicy p k = Some p' \<and> lru_ok p' \<and> set (lru_keys p') = set (lru_keys p)"
    if "k \<in> set (lru_keys p)"
    using lru_Touch_step [OF p that] that by (auto simp: LRUCachePolicy_def)
  show "\<exists>k. p_ReplCandidate LRUCachePolicy p = Some k \<and> k \<in> set (lru_keys p) \<and>
      (\<exists>p'. p_Erase LRUCachePolicy p k = Some p' \<and> lru_ok p' \<and> set (lru_keys p') = set (lru_keys p) - {k})"
    if "set (lru_keys p) \<noteq> {}"
    using lru_Erase_step(1) [OF p] lru_Erase_step(2) [OF p, of "last (lru_keys p)"] that butlast_last_set [OF lru_keys_distinct [OF p]]
    by (auto simp: LRUCachePolicy_def)
qed

definition lfu_nodes :: "(nat \<times> u64 \<times> 'k) list \<Rightarrow> (nat \<times> 'k) list" where
  "lfu_nodes es = map (\<lambda>e. (fst e, snd (snd e))) es"

definition lfu_ok :: "'k lfu \<Rightarrow> bool" where
  "lfu_ok q \<longleftrightarrow> nodes_ok (lfu_nodes (frequency_storage q)) (lfu_storage q) \<and>
     sorted (map node_freq (frequency_storage q)) \<and> (\<forall>e\<in>set (frequency_storage q). fst e < lfu_fresh q)"

definition lfu_keys :: "'k lfu \<Rightarrow> 'k set" where
  "lfu_keys q = snd ` set (lfu_nodes (frequency_storage q))"

lemma emplace_mset:
  "mset (emplace_front e es) = add_mset e (mset es)" "mset (emplace_back e es) = add_mset e (mset es)"
proof -
  have "mset (takeWhile Q es) + mset (dropWhile Q es) = mset es" for Q
    by (metis mset_append takeWhile_dropWhile_id)
  then show "mset (emplace_front e es) = add_mset e (mset es)" "mset (emplace_back e es) = add_mset e (mset es)"
    by (simp_all add: emplace_front_def emplace_back_def)
qed

lemma takeWhile_dropWhile_sorted:
  assumes "sorted (map f es)" "\<And>x. Q x \<Longrightarrow> f x \<le> v" "\<And>x. \<not> Q x \<Longrightarrow> v \<le> f x"
  shows "sorted (map f (takeWhile Q es) @ v # map f (dropWhile Q es))"
  using assms(1)
proof (induction es)
  case (Cons e es)
  show ?case
  proof (cases "Q e")
    case True
    then have "f e \<le> v" by (rule assms(2))
    moreover have "\<forall>x\<in>set (takeWhile Q es) \<union> set (dropWhile Q es). f e \<le> f x"
      using Cons.prems by (auto dest: set_takeWhileD set_dropWhileD)
    ultimately show ?thesis using True Cons by (auto simp: sorted_append)
  next
    case False
    with Cons.prems assms(3) [OF False] show ?thesis by (auto intro: order.trans)
  qed
qed simp

lemma emplace_sorted:
  assumes "sorted (map node_freq es)"
  shows "sorted (map node_freq (emplace_front e es))" "sorted (map node_freq (emplace_back e es))"
  using takeWhile_dropWhile_sorted [OF assms, of "\<lambda>x. node_freq x < node_freq e" "node_freq e"]
    takeWhile_dropWhile_sorted [OF assms, of "\<lambda>x. node_freq x \<le> node_freq e" "node_freq e"]
  by (simp_all add: emplace_front_def emplace_back_def not_less not_le)

lemma emplace_set:
  "set (emplace_front e es) = insert e (set es)" "set (emplace_back e es) = insert e (set es)"
  by (metis emplace_mset set_mset_add_mset_insert set_mset_mset)+

lemma lfu_nodes_filter:
  "lfu_nodes (filter (\<lambda>x. fst x \<noteq> n) es) = filter (\<lambda>x. fst x \<noteq> n) (lfu_nodes es)"
  by (induction es) (simp_all add: lfu_nodes_def)

lemma lfu_nodes_emplace:
  "mset (lfu_nodes (emplace_front (n, v, k) es)) = add_mset (n, k) (mset (lfu_nodes es))"
  "mset (lfu_nodes (emplace_back (n, v, k) es)) = add_mset (n, k) (mset (lfu_nodes es))"
  by (simp_all add: lfu_nodes_def emplace_mset)

lemma lfu_Insert_step:
  assumes "lfu_ok q" "k \<notin> lfu_keys q"
  shows "\<exists>q'. lfu_Insert q k = Some q' \<and> lfu_ok q' \<and> lfu_keys q' = insert k (lfu_keys q)"
proof -
  let ?es = "frequency_storage q" and ?n = "lfu_fresh q"
  have "?n \<notin> fst ` set (lfu_nodes ?es)" using assms(1) by (auto simp: lfu_ok_def lfu_nodes_def)
  then have "nodes_ok (lfu_nodes (emplace_front (?n, 1, k) ?es)) ((lfu_storage q)(k \<mapsto> ?n))"
    using assms by (intro nodes_ok_insert [OF _ _ _ lfu_nodes_emplace(1)]) (auto simp: lfu_ok_def lfu_keys_def)
  moreover have "snd ` set (lfu_nodes (emplace_front (?n, 1, k) ?es)) = insert k (snd ` set (lfu_nodes ?es))"
    by (simp add: lfu_nodes_def emplace_set image_comp)
  ultimately show ?thesis
    using assms(1) by (auto simp: lfu_Insert_def lfu_ok_def lfu_keys_def emplace_sorted emplace_set less_Suc_eq)
qed

lemma sorted_filter_freq: "sorted (map f es) \<Longrightarrow> sorted (map f (filter Q es))"
  by (induction es) auto

lemma lfu_member:
  assumes "lfu_ok q" "k \<in> lfu_keys q"
  shows "\<exists>n v. lfu_storage q k = Some n \<and> map_of (frequency_storage q) n = Some (v, k) \<and>
    (n, k) \<in> set (lfu_nodes (frequency_storage q))"
proof -
  obtain n where n: "lfu_storage q k = Some n" "(n, k) \<in> set (lfu_nodes (frequency_storage q))"
    using nodes_ok_member [of "lfu_nodes (frequency_storage q)" "lfu_storage q" k] assms by (auto simp: lfu_ok_def lfu_keys_def)
  then obtain v where "(n, v, k) \<in> set (frequency_storage q)" by (auto simp: lfu_nodes_def)
  moreover have "distinct (map fst (frequency_storage q))"
    using assms(1) by (simp add: lfu_ok_def nodes_ok_def lfu_nodes_def comp_def)
  ultimately have "map_of (frequency_storage q) n = Some (v, k)" by simp
  with n show ?thesis by blast
qed

lemma lfu_Erase_step:
  assumes "lfu_ok q" "k \<in> lfu_keys q"
  shows "\<exists>q'. lfu_Erase q k = Some q' \<and> lfu_ok q' \<and> lfu_keys q' = lfu_keys q - {k}"
proof -
  obtain n v where n: "lfu_storage q k = Some n" "map_of (frequency_storage q) n = Some (v, k)"
    "(n, k) \<in> set (lfu_nodes (frequency_storage q))"
    using lfu_member [OF assms] by blast
  have "nodes_ok (lfu_nodes (frequency_storage q)) (lfu_storage q)" using assms(1) by (simp add: lfu_ok_def)
  note f = nodes_ok_filter [OF this n(3)]
  show ?thesis
    using n(1,2) f assms(1)
    by (auto simp: lfu_Erase_def lfu_ok_def lfu_keys_def lfu_nodes_filter sorted_filter_freq)
qed

lemma lfu_Touch_step:
  assumes "lfu_ok q" "k \<in> lfu_keys q"
  shows "\<exists>q'. lfu_Touch q k = Some q' \<and> lfu_ok q' \<and> lfu_keys q' = lfu_keys q"
proof -
  let ?es = "frequency_storage q" and ?m = "lfu_fresh q"
  obtain n v where n: "lfu_storage q k = Some n" "map_of ?es n = Some (v, k)" "(n, k) \<in> set (lfu_nodes ?es)"
    using lfu_member [OF assms] by blast
  have "nodes_ok (lfu_nodes ?es) (lfu_storage q)" using assms(1) by (simp add: lfu_ok_def)
  note f = nodes_ok_filter [OF this n(3), folded lfu_nodes_filter]
  let ?fs = "filter (\<lambda>x. fst x \<noteq> n) ?es"
  have "?m \<notin> fst ` set (lfu_nodes ?fs)" using assms(1) by (auto simp: lfu_ok_def lfu_nodes_def)
  then have "nodes_ok (lfu_nodes (emplace_back (?m, v + 1, k) ?fs)) ((lfu_storage q)(k := None, k \<mapsto> ?m))"
    using f by (intro nodes_ok_insert [OF f(1) _ _ lfu_nodes_emplace(2)]) auto
  then have "nodes_ok (lfu_nodes (emplace_back (?m, v + 1, k) ?fs)) ((lfu_storage q)(k \<mapsto> ?m))" by simp
  moreover have "snd ` set (lfu_nodes (emplace_back (?m, v + 1, k) ?fs)) = insert k (snd ` set (lfu_nodes ?fs))"
    by (simp add: lfu_nodes_def emplace_set image_comp)
  ultimately show ?thesis
    using n(1,2) assms f(2)
    by (auto simp: lfu_Touch_def lfu_ok_def lfu_keys_def emplace_sorted emplace_set sorted_filter_freq less_Suc_eq)
qed

text \<open>The candidate has the least frequency of all keys.\<close>

lemma lfu_candidate:
  assumes "lfu_ok q" "lfu_keys q \<noteq> {}"
  shows "\<exists>k n v. lfu_ReplCandidate q = Some k \<and> k \<in> lfu_keys q \<and> (n, v, k) \<in> set (frequency_storage q) \<and>
    (\<forall>e\<in>set (frequency_storage q). v \<le> node_freq e)"
proof -
  obtain n v k es where "frequency_storage q = (n, v, k) # es"
    using assms(2) by (cases "frequency_storage q") (auto simp: lfu_keys_def lfu_nodes_def)
  with assms(1) show ?thesis
    by (intro exI [of _ k] exI [of _ n] exI [of _ v])
      (auto simp: lfu_ReplCandidate_def lfu_ok_def lfu_keys_def lfu_nodes_def)
qed

interpretation lfu: replacement_policy LFUCachePolicy lfu_ok lfu_keys
proof
  fix p :: "'k lfu" and k assume p: "lfu_ok p"
  show "\<exists>p'. p_Insert LFUCachePolicy p k = Some p' \<and> lfu_ok p' \<and> lfu_keys p' = insert k (lfu_keys p)"
    if "k \<notin> lfu_keys p"
    using lfu_Insert_step [OF p that] by (simp add: LFUCachePolicy_def)
  show "\<exists>p'. p_Touch LFUCachePolicy p k = Some p' \<and> lfu_ok p' \<and> lfu_keys p' = lfu_keys p"
    if "k \<in> lfu_keys p"
    using lfu_Touch_step [OF p that] by (simp add: LFUCachePolicy_def)
  show "\<exists>k. p_ReplCandidate LFUCachePolicy p = Some k \<and> k \<in> lfu_keys p \<and>
      (\<exists>p'. p_Erase LFUCachePolicy p k = Some p' \<and> lfu_ok p' \<and> lfu_keys p' = lfu_keys p - {k})"
    if ne: "lfu_keys p \<noteq> {}"
  proof -
    obtain k where k: "lfu_ReplCandidate p = Some k" "k \<in> lfu_keys p" using lfu_candidate [OF p ne] by blast
    from lfu_Erase_step [OF p k(2)] k show ?thesis by (simp add: LFUCachePolicy_def)
  qed
qed

section \<open>The LRU cache is the textbook list\<close>

text \<open>
  The specification: a list of pairs, the most recently used first, cut at the capacity.
\<close>

definition spec_Put :: "nat \<Rightarrow> ('k \<times> 'v) list \<Rightarrow> 'k \<Rightarrow> 'v \<Rightarrow> ('k \<times> 'v) list" where
  "spec_Put n xs k v = take n ((k, v) # filter (\<lambda>x. fst x \<noteq> k) xs)"

definition spec_Get :: "('k \<times> 'v) list \<Rightarrow> 'k \<Rightarrow> (cache_error + ('k \<times> 'v) list \<times> 'v)" where
  "spec_Get xs k = (case map_of xs k of None \<Rightarrow> Inl Range_error
     | Some v \<Rightarrow> Inr ((k, v) # filter (\<lambda>x. fst x \<noteq> k) xs, v))"

definition lru_abs :: "('k, 'v, 'k lru) cache \<Rightarrow> ('k \<times> 'v) list" where
  "lru_abs c = map (\<lambda>k. (k, the (map_of (cache_items_map c) k))) (lru_keys (cache_policy c))"

definition lru_cache_ok :: "('k, 'v, 'k lru) cache \<Rightarrow> bool" where
  "lru_cache_ok = lru.cache_ok"

lemma lru_cache_okD:
  assumes "lru_cache_ok c"
  shows "lru_ok (cache_policy c)" "set (lru_keys (cache_policy c)) = fst ` set (cache_items_map c)"
    "length (lru_keys (cache_policy c)) = length (cache_items_map c)"
    "length (cache_items_map c) \<le> max_cache_size c" "0 < max_cache_size c"
proof -
  have inv: "lru_ok (cache_policy c)" "set (lru_keys (cache_policy c)) = fst ` set (cache_items_map c)"
    "distinct (map fst (cache_items_map c))"
    "length (cache_items_map c) \<le> max_cache_size c" "0 < max_cache_size c"
    using assms by (simp_all add: lru_cache_ok_def lru.cache_ok_def)
  then show "lru_ok (cache_policy c)" "set (lru_keys (cache_policy c)) = fst ` set (cache_items_map c)"
    "length (cache_items_map c) \<le> max_cache_size c" "0 < max_cache_size c" by simp_all
  show "length (lru_keys (cache_policy c)) = length (cache_items_map c)"
    using inv lru_keys_distinct [OF inv(1)] by (metis distinct_card length_map list.set_map)
qed

lemma lru_abs_lookup:
  assumes "lru_cache_ok c"
  shows "map_of (lru_abs c) k = map_of (cache_items_map c) k"
proof -
  have "map_of (map (\<lambda>k. (k, f k)) ks) k = (if k \<in> set ks then Some (f k) else None)"
    for f :: "'a \<Rightarrow> 'b" and ks
    by (induction ks) auto
  then show ?thesis
    using lru_cache_okD(2) [OF assms] unfolding lru_abs_def
    by (metis map_of_eq_None_iff option.exhaust_sel)
qed

lemma abs_cong:
  assumes "\<And>k. k \<in> set ks \<Longrightarrow> map_of m k = map_of m' k"
  shows "map (\<lambda>k. (k, the (map_of m k))) ks = map (\<lambda>k. (k, the (map_of m' k))) ks"
  using assms by simp

lemma filter_abs:
  "filter (\<lambda>x. fst x \<noteq> k) (map (\<lambda>k. (k, f k)) ks) = map (\<lambda>k. (k, f k)) (filter (\<lambda>k'. k' \<noteq> k) ks)"
  by (induction ks) simp_all

lemma lru_Put_refines:
  assumes "lru_cache_ok c"
  shows "\<exists>c'. cache_Put LRUCachePolicy c k v = Some c' \<and> lru_cache_ok c' \<and>
    max_cache_size c' = max_cache_size c \<and> lru_abs c' = spec_Put (max_cache_size c) (lru_abs c) k v"
proof -
  let ?m = "cache_items_map c" and ?q = "cache_policy c"
  note inv = lru_cache_okD [OF assms] and ok = assms [unfolded lru_cache_ok_def]
  have [simp]: "p_Insert LRUCachePolicy = lru_Insert" "p_Touch LRUCachePolicy = lru_Touch"
    "p_Erase LRUCachePolicy = lru_Erase" "p_ReplCandidate LRUCachePolicy = lru_ReplCandidate"
    by (simp_all add: LRUCachePolicy_def)
  show ?thesis
  proof (cases "map_of ?m k")
    case (Some v0)
    then have k: "k \<in> set (lru_keys ?q)" using inv(2) by (force dest: map_of_SomeD)
    let ?m' = "(k, v) # filter (\<lambda>x. fst x \<noteq> k) ?m"
    obtain q' where q': "lru_Touch ?q k = Some q'"
      "cache_Put LRUCachePolicy c k v = Some (c\<lparr>cache_policy := q', cache_items_map := ?m'\<rparr>)"
      "lru_cache_ok (c\<lparr>cache_policy := q', cache_items_map := ?m'\<rparr>)"
      using lru.put_present [OF ok Some, of v] by (auto simp: lru_cache_ok_def)
    have keys: "lru_keys q' = k # filter (\<lambda>k'. k' \<noteq> k) (lru_keys ?q)"
      using lru_Touch_step [OF inv(1) k] q'(1) by auto
    have "length (k # filter (\<lambda>k'. k' \<noteq> k) (lru_keys ?q)) \<le> max_cache_size c"
      using length_filter_less [of k "lru_keys ?q" "\<lambda>k'. k' \<noteq> k"] k inv(3,4) by simp
    moreover have "map (\<lambda>k. (k, the (map_of ?m' k))) (filter (\<lambda>k'. k' \<noteq> k) (lru_keys ?q)) =
        map (\<lambda>k. (k, the (map_of ?m k))) (filter (\<lambda>k'. k' \<noteq> k) (lru_keys ?q))"
      by (rule abs_cong) (simp add: lru.map_of_filter_key)
    ultimately have "lru_abs (c\<lparr>cache_policy := q', cache_items_map := ?m'\<rparr>) =
        spec_Put (max_cache_size c) (lru_abs c) k v"
      by (simp add: lru_abs_def keys spec_Put_def filter_abs)
    with q' show ?thesis by auto
  next
    case None
    then have k: "k \<notin> set (lru_keys ?q)" using inv(2) by (simp add: map_of_eq_None_iff)
    then have other: "filter (\<lambda>k'. k' \<noteq> k) (lru_keys ?q) = lru_keys ?q"
      by (auto simp: filter_id_conv)
    show ?thesis
    proof (cases "length ?m = max_cache_size c")
      case False
      then have room: "length ?m < max_cache_size c" using inv(4) by simp
      obtain q' where q': "lru_Insert ?q k = Some q'"
        "cache_Put LRUCachePolicy c k v = Some (c\<lparr>cache_policy := q', cache_items_map := (k, v) # ?m\<rparr>)"
        "lru_cache_ok (c\<lparr>cache_policy := q', cache_items_map := (k, v) # ?m\<rparr>)"
        using lru.put_room [OF ok None room, of v] by (auto simp: lru_cache_ok_def)
      have "lru_keys q' = k # lru_keys ?q" using lru_Insert_step [OF inv(1) k] q'(1) by auto
      moreover have "map (\<lambda>k'. (k', the (map_of ((k, v) # ?m) k'))) (lru_keys ?q) =
          map (\<lambda>k'. (k', the (map_of ?m k'))) (lru_keys ?q)"
        by (rule abs_cong) (use k in auto)
      ultimately have "lru_abs (c\<lparr>cache_policy := q', cache_items_map := (k, v) # ?m\<rparr>) =
          spec_Put (max_cache_size c) (lru_abs c) k v"
        using room inv(3) by (simp add: lru_abs_def spec_Put_def filter_abs other)
      with q' show ?thesis by auto
    next
      case True
      from lru.put_full [OF ok None this, of v] obtain cand v' q1 q2 c' where r:
        "lru_ReplCandidate ?q = Some cand" "lru_Erase ?q cand = Some q1" "lru_Insert q1 k = Some q2"
        "c' = c\<lparr>cache_policy := q2, evict_queue := cand # evict_queue c, erased := (cand, v') # erased c,
           cache_items_map := (k, v) # filter (\<lambda>x. fst x \<noteq> cand) ?m\<rparr>"
        "cache_Put LRUCachePolicy c k v = Some c'" "lru_cache_ok c'"
        by (auto simp: lru_cache_ok_def)
      have ne: "lru_keys ?q \<noteq> []" using True inv(3,5) by auto
      have cand: "cand = last (lru_keys ?q)" using lru_Erase_step(1) [OF inv(1) ne] r(1) by simp
      obtain q1' where q1: "lru_ok q1" "lru_keys q1 = butlast (lru_keys ?q)"
        using lru_Erase_step(2) [OF inv(1) ne, of cand] r(2) by auto
      have "k \<notin> set (lru_keys q1)" using k q1(2) by (auto dest: in_set_butlastD)
      from lru_Insert_step [OF q1(1) this] r(3) have keys: "lru_keys q2 = k # butlast (lru_keys ?q)"
        using q1(2) by auto
      have "cand \<notin> set (butlast (lru_keys ?q))"
        unfolding cand using butlast_last_set [OF lru_keys_distinct [OF inv(1)] ne] by simp
      then have "map (\<lambda>k. (k, the (map_of (cache_items_map c') k))) (butlast (lru_keys ?q)) =
          map (\<lambda>k. (k, the (map_of ?m k))) (butlast (lru_keys ?q))"
        using k by (intro abs_cong) (auto simp: r(4) lru.map_of_filter_key dest: in_set_butlastD)
      moreover have "take (max_cache_size c) ((k, v) # lru_abs c) = (k, v) # butlast (lru_abs c)"
        using True inv(3,5) by (cases "max_cache_size c") (simp_all add: lru_abs_def butlast_conv_take)
      ultimately have "lru_abs c' = spec_Put (max_cache_size c) (lru_abs c) k v"
        by (simp add: lru_abs_def keys spec_Put_def filter_abs other r(4) map_butlast)
      with r(4-6) show ?thesis by auto
    qed
  qed
qed

lemma lru_Get_refines:
  assumes "lru_cache_ok c"
  shows "case spec_Get (lru_abs c) k of
      Inl e \<Rightarrow> cache_Get LRUCachePolicy c k = Some (Inl e)
    | Inr (xs, v) \<Rightarrow> \<exists>c'. cache_Get LRUCachePolicy c k = Some (Inr (c', v)) \<and> lru_cache_ok c' \<and>
        max_cache_size c' = max_cache_size c \<and> lru_abs c' = xs"
proof (cases "map_of (cache_items_map c) k")
  case None
  then show ?thesis
    by (simp add: spec_Get_def lru_abs_lookup [OF assms] cache_Get_def)
next
  case (Some v)
  note inv = lru_cache_okD [OF assms]
  have k: "k \<in> set (lru_keys (cache_policy c))" using Some inv(2) by (force dest: map_of_SomeD)
  obtain q' where q': "lru_Touch (cache_policy c) k = Some q'" "lru_ok q'"
    "lru_keys q' = k # filter (\<lambda>k'. k' \<noteq> k) (lru_keys (cache_policy c))"
    using lru_Touch_step [OF inv(1) k] by blast
  then have "cache_Get LRUCachePolicy c k = Some (Inr (c\<lparr>cache_policy := q'\<rparr>, v))"
    using Some by (simp add: cache_Get_def LRUCachePolicy_def)
  moreover have "set (lru_keys q') = set (lru_keys (cache_policy c))" using q'(3) k by auto
  then have "lru_cache_ok (c\<lparr>cache_policy := q'\<rparr>)"
    using assms q'(2) by (simp add: lru_cache_ok_def lru.cache_ok_def)
  moreover have "lru_abs (c\<lparr>cache_policy := q'\<rparr>) = (k, v) # filter (\<lambda>x. fst x \<noteq> k) (lru_abs c)"
    using Some by (simp add: lru_abs_def q'(3) filter_abs)
  ultimately show ?thesis
    using Some by (simp add: spec_Get_def lru_abs_lookup [OF assms])
qed

text \<open>A client of the cache, and the values and errors it sees.\<close>

datatype ('k, 'v) cache_op = Op_Put 'k 'v | Op_Get 'k

fun cache_run :: "('p, 'k) ICachePolicy \<Rightarrow> ('k, 'v, 'p) cache \<Rightarrow> ('k, 'v) cache_op list \<Rightarrow>
    (('k, 'v, 'p) cache \<times> (cache_error + 'v) list) option" where
  "cache_run P c [] = Some (c, [])"
| "cache_run P c (Op_Put k v # ops) = do { c' \<leftarrow> cache_Put P c k v; cache_run P c' ops }"
| "cache_run P c (Op_Get k # ops) = do {
     r \<leftarrow> cache_Get P c k;
     case r of
       Inl e \<Rightarrow> do { (c', rs) \<leftarrow> cache_run P c ops; Some (c', Inl e # rs) }
     | Inr (c1, v) \<Rightarrow> do { (c', rs) \<leftarrow> cache_run P c1 ops; Some (c', Inr v # rs) } }"

fun spec_run :: "nat \<Rightarrow> ('k \<times> 'v) list \<Rightarrow> ('k, 'v) cache_op list \<Rightarrow>
    ('k \<times> 'v) list \<times> (cache_error + 'v) list" where
  "spec_run n xs [] = (xs, [])"
| "spec_run n xs (Op_Put k v # ops) = spec_run n (spec_Put n xs k v) ops"
| "spec_run n xs (Op_Get k # ops) =
     (case spec_Get xs k of
        Inl e \<Rightarrow> (let (ys, rs) = spec_run n xs ops in (ys, Inl e # rs))
      | Inr (xs', v) \<Rightarrow> (let (ys, rs) = spec_run n xs' ops in (ys, Inr v # rs)))"

lemma lru_run_refines:
  assumes "lru_cache_ok c"
  shows "\<exists>c' rs. cache_run LRUCachePolicy c ops = Some (c', rs) \<and>
    spec_run (max_cache_size c) (lru_abs c) ops = (lru_abs c', rs)"
  using assms
proof (induction ops arbitrary: c)
  case (Cons op ops)
  show ?case
  proof (cases op)
    case (Op_Put k v)
    with lru_Put_refines [OF Cons.prems, of k v] obtain c1 where
      "cache_Put LRUCachePolicy c k v = Some c1" "lru_cache_ok c1" "max_cache_size c1 = max_cache_size c"
      "lru_abs c1 = spec_Put (max_cache_size c) (lru_abs c) k v" by blast
    with Cons.IH [of c1] Op_Put show ?thesis by simp
  next
    case (Op_Get k)
    show ?thesis
    proof (cases "spec_Get (lru_abs c) k")
      case (Inl e)
      with lru_Get_refines [OF Cons.prems, of k] Cons.IH [OF Cons.prems] Op_Get show ?thesis by force
    next
      case (Inr r)
      obtain xs v where r: "r = (xs, v)" by force
      with lru_Get_refines [OF Cons.prems, of k] Inr obtain c1 where
        "cache_Get LRUCachePolicy c k = Some (Inr (c1, v))" "lru_cache_ok c1"
        "max_cache_size c1 = max_cache_size c" "lru_abs c1 = xs" by auto
      with Cons.IH [of c1] Op_Get Inr r show ?thesis by force
    qed
  qed
qed simp

section \<open>Properties\<close>

text \<open>
  C23: the cache with the LRU policy implements the list specification: from the empty cache, any
  sequence of \<open>Put\<close> and \<open>Get\<close> runs without a fault, gives the values and the range errors of
  the specification, and evicts exactly the least recently used pair when it is full. A capacity
  of 0 means the largest \<^verbatim>\<open>size_t\<close>.
\<close>

theorem lru_cache_refines_list:
  "\<exists>c rs. cache_run LRUCachePolicy (fixed_sized_cache n lru_new) ops = Some (c, rs) \<and>
     spec_run (if n = 0 then 2 ^ 64 - 1 else n) [] ops = (lru_abs c, rs)"
proof -
  let ?c = "fixed_sized_cache n lru_new :: ('a, 'b, 'a lru) cache"
  have new: "lru_ok (lru_new :: 'a lru)" "lru_keys (lru_new :: 'a lru) = []"
    by (simp_all add: lru_new_def lru_ok_def nodes_ok_def lru_keys_def)
  then have "lru_cache_ok ?c" unfolding lru_cache_ok_def by (intro lru.cache_ok_new) simp_all
  from lru_run_refines [OF this, of ops] new(2) show ?thesis
    by (simp add: fixed_sized_cache_def lru_abs_def)
qed

text \<open>
  After \<open>Remove\<close> of a key that is not the least recently used one, the LRU cache is broken:
  with capacity 2, put the keys 1 and 2 and remove 2. The policy now tracks the removed key 2 and
  has forgotten the cached key 1. One more key fits; the next \<open>Put\<close> selects key 2 for eviction,
  finds it nowhere, and dereferences \<^verbatim>\<open>end()\<close>. The FIFO cache does the same.
\<close>

lemma lru_remove_breaks:
  "(\<exists>c1 c2 c3 :: (nat, nat, nat lru) cache.
     cache_run LRUCachePolicy (fixed_sized_cache 2 lru_new) [Op_Put 1 10, Op_Put 2 20] = Some (c1, []) \<and>
     cache_Remove LRUCachePolicy c1 2 = Some (c2, True) \<and>
     cache_items_map c2 = [(1, 10)] \<and> lru_keys (cache_policy c2) = [2] \<and>
     cache_Put LRUCachePolicy c2 3 30 = Some c3 \<and> cache_Put LRUCachePolicy c3 4 40 = None) \<and>
   (\<exists>c1 c2 c3 :: (nat, nat, nat list) cache.
     cache_run FIFOCachePolicy (fixed_sized_cache 2 []) [Op_Put 1 10, Op_Put 2 20] = Some (c1, []) \<and>
     cache_Remove FIFOCachePolicy c1 2 = Some (c2, True) \<and>
     cache_items_map c2 = [(1, 10)] \<and> cache_policy c2 = [2] \<and>
     cache_Put FIFOCachePolicy c2 3 30 = Some c3 \<and> cache_Put FIFOCachePolicy c3 4 40 = None)"
  by (simp add: fixed_sized_cache_def lru_new_def cache_Put_def cache_Insert_def cache_Remove_def
      cache_Erase_def LRUCachePolicy_def lru_Insert_def lru_Erase_def lru_ReplCandidate_def lru_keys_def
      FIFOCachePolicy_def fifo_Insert_def fifo_Erase_def fifo_ReplCandidate_def)

end
