(* ===== verification/Segment_Lock.thy ===== *)
theory Segment_Lock
  imports Prelude
begin

text \<open>
  The semaphore of a \<^verbatim>\<open>CCEH\<close> segment and of the directory (\<^verbatim>\<open>server/src/cceh.h\<close>): \<^verbatim>\<open>sema\<close> counts
  the threads that hold the shared lock; \<^verbatim>\<open>suspend\<close> sets it to -1, which stops new lockers, and
  waits until the old ones have left, each of which decrements it further.

  The functions are loops around one compare-and-swap. A thread's successful compare-and-swap, the
  end of its wait, and its release are the atomic steps of the transition system; turns of a loop
  that only retry change nothing. \<^verbatim>\<open>int64_t\<close> is modelled by \<open>int\<close>: it would need
  \<open>2 ^ 63\<close> threads to overflow.
\<close>

section \<open>The operations on the semaphore\<close>

text \<open>\<open>cas\<close> returns the new value and whether it swapped.\<close>

definition cas :: "int \<Rightarrow> int \<Rightarrow> int \<Rightarrow> int \<times> bool" where
  "cas sema expected new = (if sema = expected then (new, True) else (sema, False))"

text \<open>\<open>lock\<close>, run without interference: the loop ends in its first turn.\<close>

definition sema_lock :: "int \<Rightarrow> int \<times> bool" where
  "sema_lock sema = (if sema > -1 then cas sema sema (sema + 1) else (sema, False))"

definition sema_unlock :: "int \<Rightarrow> int" where
  "sema_unlock sema = fst (cas sema sema (sema - 1))"

definition sema_reset :: "int \<Rightarrow> int" where
  "sema_reset sema = fst (cas sema sema 0)"

text \<open>The first loop of \<open>suspend\<close>: the value that was read, if it was not negative.\<close>

definition sema_suspend :: "int \<Rightarrow> (int \<times> int) option" where
  "sema_suspend sema = (if sema < 0 then None else Some (fst (cas sema sema (-1)), sema))"

text \<open>The second loop of \<open>suspend\<close> ends when this holds.\<close>

definition suspended :: "int \<Rightarrow> int \<Rightarrow> bool" where
  "suspended val sema \<longleftrightarrow> val = 0 \<or> sema = 0 - val - 1"

section \<open>Threads\<close>

datatype thread = Idle | Locked | Waiting int | Exclusive

record lock_state =
  sema :: int
  threads :: "thread list"

definition lock_init :: "nat \<Rightarrow> lock_state" where
  "lock_init n = \<lparr>sema = 0, threads = replicate n Idle\<rparr>"

inductive lock_step :: "lock_state \<Rightarrow> lock_state \<Rightarrow> bool" where
  lock: "i < length (threads s) \<Longrightarrow> threads s ! i = Idle \<Longrightarrow> sema_lock (sema s) = (v, True) \<Longrightarrow>
    lock_step s (s\<lparr>sema := v, threads := (threads s)[i := Locked]\<rparr>)"
| unlock: "i < length (threads s) \<Longrightarrow> threads s ! i = Locked \<Longrightarrow>
    lock_step s (s\<lparr>sema := sema_unlock (sema s), threads := (threads s)[i := Idle]\<rparr>)"
| suspend: "i < length (threads s) \<Longrightarrow> threads s ! i = Idle \<Longrightarrow> sema_suspend (sema s) = Some (v, val) \<Longrightarrow>
    lock_step s (s\<lparr>sema := v, threads := (threads s)[i := Waiting val]\<rparr>)"
| acquire: "i < length (threads s) \<Longrightarrow> threads s ! i = Waiting val \<Longrightarrow> suspended val (sema s) \<Longrightarrow>
    lock_step s (s\<lparr>threads := (threads s)[i := Exclusive]\<rparr>)"
| release: "i < length (threads s) \<Longrightarrow> threads s ! i = Exclusive \<Longrightarrow>
    lock_step s (s\<lparr>sema := sema_reset (sema s), threads := (threads s)[i := Idle]\<rparr>)"

inductive lock_reach :: "nat \<Rightarrow> lock_state \<Rightarrow> bool" for n where
  init: "lock_reach n (lock_init n)"
| step: "lock_reach n s \<Longrightarrow> lock_step s s' \<Longrightarrow> lock_reach n s'"

section \<open>The invariant\<close>

abbreviation holders :: "lock_state \<Rightarrow> nat" where
  "holders s \<equiv> count (mset (threads s)) Locked"

definition is_suspender :: "thread \<Rightarrow> bool" where
  "is_suspender t = (case t of Waiting _ \<Rightarrow> True | Exclusive \<Rightarrow> True | _ \<Rightarrow> False)"

lemma is_suspender_simps [simp]:
  "\<not> is_suspender Idle" "\<not> is_suspender Locked" "is_suspender (Waiting v)" "is_suspender Exclusive"
  by (simp_all add: is_suspender_def)

text \<open>
  Either nobody suspends and the semaphore counts the holders, or exactly one thread does; while
  it waits, the semaphore has gone down by one for each holder that left, and once it is
  exclusive there is no holder.
\<close>

definition lock_inv :: "lock_state \<Rightarrow> bool" where
  "lock_inv s \<longleftrightarrow>
     filter_mset is_suspender (mset (threads s)) = {#} \<and> sema s = int (holders s) \<or>
     (\<exists>val. filter_mset is_suspender (mset (threads s)) = {#Waiting val#} \<and>
        sema s = -1 - (val - int (holders s)) \<and> int (holders s) \<le> val) \<or>
     filter_mset is_suspender (mset (threads s)) = {#Exclusive#} \<and> holders s = 0 \<and> sema s < 0"

lemma lock_inv_intros:
  "filter_mset is_suspender (mset (threads s)) = {#} \<Longrightarrow> sema s = int (holders s) \<Longrightarrow> lock_inv s"
  "filter_mset is_suspender (mset (threads s)) = {#Waiting val#} \<Longrightarrow>
    sema s = -1 - (val - int (holders s)) \<Longrightarrow> int (holders s) \<le> val \<Longrightarrow> lock_inv s"
  "filter_mset is_suspender (mset (threads s)) = {#Exclusive#} \<Longrightarrow> holders s = 0 \<Longrightarrow>
    sema s < 0 \<Longrightarrow> lock_inv s"
  unfolding lock_inv_def by blast+

lemma lock_inv_cases:
  assumes "lock_inv s"
  obtains (shared) "filter_mset is_suspender (mset (threads s)) = {#}" "sema s = int (holders s)"
  | (waiting) val where "filter_mset is_suspender (mset (threads s)) = {#Waiting val#}"
      "sema s = -1 - (val - int (holders s))" "int (holders s) \<le> val"
  | (exclusive) "filter_mset is_suspender (mset (threads s)) = {#Exclusive#}" "holders s = 0" "sema s < 0"
  using assms unfolding lock_inv_def
  by (elim disjE exE conjE) (rule shared waiting exclusive; assumption)+

lemma lock_inv_init: "lock_inv (lock_init n)"
proof (rule lock_inv_intros(1))
  show "filter_mset is_suspender (mset (threads (lock_init n))) = {#}"
    by (simp add: lock_init_def del: mset_replicate flip: mset_filter)
  show "sema (lock_init n) = int (holders (lock_init n))" by (simp add: lock_init_def)
qed

text \<open>A change of one thread, with the other threads \<open>R\<close> named.\<close>

lemma thread_update:
  assumes "i < length ts" "ts ! i = a"
  shows "\<exists>R. mset ts = add_mset a R \<and> (\<forall>b. mset (ts[i := b]) = add_mset b R)"
proof (intro exI conjI allI)
  show "mset ts = add_mset a (mset ts - {#a#})" using assms by (metis insert_DiffM nth_mem_mset)
  show "mset (ts[i := b]) = add_mset b (mset ts - {#a#})" for b using assms by (simp add: mset_update)
qed

lemma lock_inv_step:
  assumes "lock_step s s'" "lock_inv s"
  shows "lock_inv s'"
  using assms
proof (induction rule: lock_step.induct)
  case (lock i s v)
  obtain R where R: "mset (threads s) = add_mset Idle R" "\<forall>b. mset ((threads s)[i := b]) = add_mset b R"
    using thread_update [OF lock.hyps(1,2)] by blast
  have v: "sema s > -1" "v = sema s + 1" using lock.hyps(3) by (auto simp: sema_lock_def cas_def split: if_splits)
  from lock.prems show ?case
  proof (cases rule: lock_inv_cases)
    case shared
    with R v show ?thesis by (intro lock_inv_intros(1)) simp_all
  next
    case (waiting val)
    then show ?thesis using v(1) by simp
  next
    case exclusive
    then show ?thesis using v(1) by simp
  qed
next
  case (unlock i s)
  obtain R where R: "mset (threads s) = add_mset Locked R" "\<forall>b. mset ((threads s)[i := b]) = add_mset b R"
    using thread_update [OF unlock.hyps(1,2)] by blast
  from unlock.prems show ?case
  proof (cases rule: lock_inv_cases)
    case shared
    with R show ?thesis by (intro lock_inv_intros(1)) (simp_all add: sema_unlock_def cas_def)
  next
    case (waiting val)
    with R show ?thesis by (intro lock_inv_intros(2) [where val = val]) (simp_all add: sema_unlock_def cas_def)
  next
    case exclusive
    with R show ?thesis by simp
  qed
next
  case (suspend i s v val)
  obtain R where R: "mset (threads s) = add_mset Idle R" "\<forall>b. mset ((threads s)[i := b]) = add_mset b R"
    using thread_update [OF suspend.hyps(1,2)] by blast
  have v: "\<not> sema s < 0" "v = -1" "val = sema s"
    using suspend.hyps(3) by (auto simp: sema_suspend_def cas_def split: if_splits)
  from suspend.prems show ?case
  proof (cases rule: lock_inv_cases)
    case shared
    with R v show ?thesis by (intro lock_inv_intros(2) [where val = val]) simp_all
  next
    case (waiting val')
    then show ?thesis using v(1) by simp
  next
    case exclusive
    then show ?thesis using v(1) by simp
  qed
next
  case (acquire i s val)
  obtain R where R: "mset (threads s) = add_mset (Waiting val) R" "\<forall>b. mset ((threads s)[i := b]) = add_mset b R"
    using thread_update [OF acquire.hyps(1,2)] by blast
  from acquire.prems show ?case
  proof (cases rule: lock_inv_cases)
    case shared
    with R show ?thesis by simp
  next
    case (waiting val')
    with R have "val' = val" "filter_mset is_suspender R = {#}" by simp_all
    moreover have "holders s = 0"
      using acquire.hyps(3) waiting \<open>val' = val\<close> by (auto simp: suspended_def)
    ultimately show ?thesis
      using R waiting by (intro lock_inv_intros(3)) simp_all
  next
    case exclusive
    with R show ?thesis by simp
  qed
next
  case (release i s)
  obtain R where R: "mset (threads s) = add_mset Exclusive R" "\<forall>b. mset ((threads s)[i := b]) = add_mset b R"
    using thread_update [OF release.hyps(1,2)] by blast
  from release.prems show ?case
  proof (cases rule: lock_inv_cases)
    case shared
    with R show ?thesis by simp
  next
    case (waiting val)
    with R show ?thesis by simp
  next
    case exclusive
    with R show ?thesis by (intro lock_inv_intros(1)) (simp_all add: sema_reset_def cas_def)
  qed
qed

lemma lock_reach_inv: "lock_reach n s \<Longrightarrow> lock_inv s"
  by (induction rule: lock_reach.induct) (auto intro: lock_inv_init lock_inv_step)

text \<open>
  An \<open>unlock\<close> that no \<open>lock\<close> precedes disables the segment for good: the semaphore becomes
  negative, every later \<open>lock\<close> and \<open>suspend\<close> fails and leaves it as it is. \<open>CCEH::Get\<close> has such a
  call, on the branch where the directory entry changed while it was read.
\<close>

lemma unmatched_unlock_disables:
  "sema_lock (sema_unlock 0) = (sema_unlock 0, False) \<and> sema_suspend (sema_unlock 0) = None"
  by (simp add: sema_lock_def sema_unlock_def sema_suspend_def cas_def)

section \<open>Properties\<close>

text \<open>
  C24: mutual exclusion, for any number of threads and any interleaving: while a thread is past
  \<open>suspend\<close>, no thread holds the shared lock and no other thread is in or past \<open>suspend\<close>.
\<close>

theorem suspend_excludes:
  assumes "lock_reach n s" "i < length (threads s)" "threads s ! i = Exclusive"
    "j < length (threads s)" "j \<noteq> i"
  shows "threads s ! j = Idle"
proof -
  obtain R where R: "mset (threads s) = add_mset Exclusive R" "\<forall>b. mset ((threads s)[i := b]) = add_mset b R"
    using thread_update [OF assms(2,3)] by blast
  have "threads s ! j \<in># mset ((threads s)[i := Idle])"
    using assms(4,5) by (metis length_list_update nth_list_update_neq nth_mem_mset)
  then have j: "threads s ! j = Idle \<or> threads s ! j \<in># R" using R(2) by simp
  from lock_reach_inv [OF assms(1)] show ?thesis
  proof (cases rule: lock_inv_cases)
    case exclusive
    then have "filter_mset is_suspender R = {#}" "count R Locked = 0" using R(1) by simp_all
    then have "threads s ! j \<in># R \<Longrightarrow> \<not> is_suspender (threads s ! j) \<and> threads s ! j \<noteq> Locked"
      by (auto simp: filter_mset_eq_conv count_eq_zero_iff)
    with j show ?thesis by (cases "threads s ! j") simp_all
  qed (use R in simp_all)
qed

theorem suspend_excludes_witness:
  "\<exists>s. lock_reach 2 s \<and> threads s ! 0 = Exclusive \<and> threads s ! 1 = Idle"
proof -
  have "lock_reach 2 \<lparr>sema = 0, threads = [Idle, Idle]\<rparr>"
    using lock_reach.init [of 2] by (simp add: lock_init_def numeral_2_eq_2)
  from lock_reach.step [OF this lock_step.suspend [of 0]]
  have "lock_reach 2 \<lparr>sema = -1, threads = [Waiting 0, Idle]\<rparr>"
    by (simp add: sema_suspend_def cas_def)
  from lock_reach.step [OF this lock_step.acquire [of 0]]
  have "lock_reach 2 \<lparr>sema = -1, threads = [Exclusive, Idle]\<rparr>" by (simp add: suspended_def)
  from suspend_excludes [OF this, of 0 1] this show ?thesis by (intro exI) auto
qed

text \<open>
  C25: progress: in every reachable state with at least one thread some thread can take a step, so
  the waits of \<open>suspend\<close> never deadlock; in particular a waiting thread can go on as soon as the
  shared lock has no holder, and a holder can always leave.
\<close>

theorem lock_progress:
  assumes "lock_reach n s" "0 < length (threads s)"
  shows "(\<exists>s'. lock_step s s') \<and>
    (\<forall>i<length (threads s). \<forall>val. threads s ! i = Waiting val \<and> holders s = 0 \<longrightarrow> suspended val (sema s))"
proof
  have wait: "suspended val (sema s)"
    if i: "i < length (threads s)" "threads s ! i = Waiting val" "holders s = 0" for i val
  proof -
    obtain R where R: "mset (threads s) = add_mset (Waiting val) R"
      using thread_update [OF i(1,2)] by blast
    from lock_reach_inv [OF assms(1)] show ?thesis
      by (cases rule: lock_inv_cases) (use R i(3) in \<open>simp_all add: suspended_def\<close>)
  qed
  then show "\<forall>i<length (threads s). \<forall>val. threads s ! i = Waiting val \<and> holders s = 0 \<longrightarrow> suspended val (sema s)"
    by blast
  show "\<exists>s'. lock_step s s'"
  proof (cases "\<exists>i<length (threads s). threads s ! i = Locked \<or> threads s ! i = Exclusive")
    case True
    then show ?thesis by (blast intro: lock_step.unlock lock_step.release)
  next
    case False
    then have "Locked \<notin> set (threads s)" by (auto simp: in_set_conv_nth)
    then have none: "holders s = 0" by (simp add: count_eq_zero_iff)
    show ?thesis
    proof (cases "\<exists>i<length (threads s). \<exists>val. threads s ! i = Waiting val")
      case True
      with wait none show ?thesis by (blast intro: lock_step.acquire)
    next
      case False
      with \<open>\<not> (\<exists>i<length (threads s). threads s ! i = Locked \<or> threads s ! i = Exclusive)\<close>
      have idle: "threads s ! i = Idle" if "i < length (threads s)" for i
        using that by (cases "threads s ! i") auto
      then have no_susp: "filter_mset is_suspender (mset (threads s)) = {#}"
        by (auto simp: filter_mset_eq_conv in_set_conv_nth)
      from lock_reach_inv [OF assms(1)] have "sema s = 0"
        by (cases rule: lock_inv_cases) (use no_susp none in simp_all)
      then have "sema_lock (sema s) = (1, True)" by (simp add: sema_lock_def cas_def)
      with idle [OF assms(2)] assms(2) show ?thesis by (blast intro: lock_step.lock)
    qed
  qed
qed

theorem lock_progress_witness:
  "lock_reach 1 (lock_init 1) \<and> (\<exists>s'. lock_step (lock_init 1) s')"
  using lock_progress [OF lock_reach.init [of 1]] lock_reach.init [of 1] by (simp add: lock_init_def)

end
