(* ===== verification/Circular_Queue.thy ===== *)
theory Circular_Queue
  imports Prelude
begin

text \<open>
  The request queue of the server (\<^verbatim>\<open>server/circular_queue.cpp\<close>): a ring of \<^verbatim>\<open>QUEUE_SIZE\<close> pointers,
  used by many threads at once. A thread takes a ticket with a fetch-and-add, which selects a slot,
  and then spins on the slot: an enqueuer until it is \<^verbatim>\<open>NULL\<close>, a dequeuer until it is not.

  First the operations run alone, as functions; \<open>None\<close> is spinning forever. Then the
  interleaved system, one step per atomic access of the shared memory.
\<close>

section \<open>The queue and its operations\<close>

definition QUEUE_SIZE :: nat where "QUEUE_SIZE = 10000000"

lemma QUEUE_SIZE_pos [simp]: "0 < QUEUE_SIZE"
  by (simp add: QUEUE_SIZE_def)

record queue_t =
  front :: u64
  rear :: u64
  buffer :: "u64 list"

definition create_queue :: queue_t where
  "create_queue = \<lparr>front = 0, rear = 0, buffer = replicate QUEUE_SIZE 0\<rparr>"

text \<open>\<open>FAA\<close> adds and returns the old value, cut to an \<^verbatim>\<open>unsigned int\<close>.\<close>

definition FAA :: "u64 \<Rightarrow> u64 \<Rightarrow> u64 \<times> u32" where
  "FAA mem add = (mem + add, ucast mem)"

definition slot :: "u32 \<Rightarrow> nat" where
  "slot ticket = unat ticket mod QUEUE_SIZE"

lemma slot_less [simp]: "slot ticket < QUEUE_SIZE"
  by (simp add: slot_def)

definition CAS1 :: "u64 list \<Rightarrow> nat \<Rightarrow> u64 \<Rightarrow> u64 \<Rightarrow> (u64 list \<times> bool) option" where
  "CAS1 buf i old new = do {
     v \<leftarrow> rd buf i;
     if v = old then do { buf' \<leftarrow> wr buf i new; Some (buf', True) } else Some (buf, False) }"

definition enqueue :: "queue_t \<Rightarrow> u64 \<Rightarrow> queue_t option" where
  "enqueue q v = (let (rear', ticket) = FAA (rear q) 1 in do {
     (buf, swapped) \<leftarrow> CAS1 (buffer q) (slot ticket) 0 v;
     if swapped then Some (q\<lparr>rear := rear', buffer := buf\<rparr>) else None })"

definition dequeue :: "queue_t \<Rightarrow> (queue_t \<times> u64) option" where
  "dequeue q = (let (front', ticket) = FAA (front q) 1 in do {
     v \<leftarrow> rd (buffer q) (slot ticket);
     if v = 0 then None
     else do {
       (buf, swapped) \<leftarrow> CAS1 (buffer q) (slot ticket) v 0;
       if swapped then Some (q\<lparr>front := front', buffer := buf\<rparr>, v) else None } })"

text \<open>\<open>count_queue\<close> returns the difference of two \<^verbatim>\<open>unsigned long\<close> as an \<^verbatim>\<open>int\<close>.\<close>

definition count_queue :: "queue_t \<Rightarrow> int" where
  "count_queue q = sint (ucast (rear q - front q) :: u32)"

definition getElement :: "queue_t \<Rightarrow> int \<Rightarrow> u64 option" where
  "getElement q i = (if i < 0 then None else rd (buffer q) (nat i))"

section \<open>Run alone, the ring is a queue\<close>

definition ring :: "queue_t \<Rightarrow> nat \<Rightarrow> u64" where
  "ring q n = buffer q ! (n mod QUEUE_SIZE)"

definition contents :: "queue_t \<Rightarrow> u64 list" where
  "contents q = map (ring q) [unat (front q)..<unat (rear q)]"

definition queue_ok :: "queue_t \<Rightarrow> bool" where
  "queue_ok q \<longleftrightarrow> length (buffer q) = QUEUE_SIZE \<and> front q \<le> rear q \<and>
     unat (rear q) \<le> unat (front q) + QUEUE_SIZE \<and>
     (\<forall>i<QUEUE_SIZE. buffer q ! i \<noteq> 0 \<longleftrightarrow>
        (\<exists>n. unat (front q) \<le> n \<and> n < unat (rear q) \<and> n mod QUEUE_SIZE = i))"

lemma queue_ok_new: "queue_ok create_queue" "contents create_queue = []"
  by (simp_all add: queue_ok_def create_queue_def contents_def)

lemma slot_ticket: "unat w < 2 ^ 32 \<Longrightarrow> slot (ucast w) = unat w mod QUEUE_SIZE" for w :: u64
  by (simp add: slot_def unat_ucast_u64_u32)

text \<open>Two tickets less than a round apart have different slots.\<close>

lemma ring_inj:
  assumes "m < n" "n < m + QUEUE_SIZE"
  shows "m mod QUEUE_SIZE \<noteq> n mod QUEUE_SIZE"
proof
  assume "m mod QUEUE_SIZE = n mod QUEUE_SIZE"
  then have "QUEUE_SIZE dvd n - m" using assms(1) mod_eq_dvd_iff_nat [of m n QUEUE_SIZE] by simp
  with assms show False using dvd_imp_le [of QUEUE_SIZE "n - m"] by simp
qed

lemma unat_inc: "unat w < 2 ^ 32 \<Longrightarrow> unat (w + 1) = unat w + 1" for w :: u64
  by (simp add: unat_word_ariths)

lemma ring_cong:
  assumes "buffer q' = (buffer q)[i := v]" "\<And>n. n \<in> set ns \<Longrightarrow> n mod QUEUE_SIZE \<noteq> i"
  shows "map (ring q') ns = map (ring q) ns"
proof (intro map_cong refl)
  fix n assume "n \<in> set ns"
  from assms(2) [OF this] show "ring q' n = ring q n" by (simp add: ring_def assms(1) nth_list_update_neq)
qed

lemma enqueue_step:
  assumes ok: "queue_ok q" and v: "v \<noteq> 0" and room: "length (contents q) < QUEUE_SIZE"
    and small: "unat (rear q) < 2 ^ 32"
  shows "\<exists>q'. enqueue q v = Some q' \<and> queue_ok q' \<and> contents q' = contents q @ [v] \<and>
    unat (rear q') = unat (rear q) + 1"
proof -
  let ?f = "unat (front q)" and ?r = "unat (rear q)"
  let ?i = "?r mod QUEUE_SIZE"
  let ?q = "q\<lparr>rear := rear q + 1, buffer := (buffer q)[?i := v]\<rparr>"
  have inv: "length (buffer q) = QUEUE_SIZE" "?f \<le> ?r"
    "\<And>i. i < QUEUE_SIZE \<Longrightarrow> buffer q ! i \<noteq> 0 \<longleftrightarrow> (\<exists>n. ?f \<le> n \<and> n < ?r \<and> n mod QUEUE_SIZE = i)"
    using ok by (simp_all add: queue_ok_def word_le_nat_alt)
  have diff: "?r < ?f + QUEUE_SIZE" using room inv(2) by (simp add: contents_def)
  have i: "?i < QUEUE_SIZE" by simp
  have other: "n mod QUEUE_SIZE \<noteq> ?i" if "?f \<le> n" "n < ?r" for n
    using that diff by (intro ring_inj) simp_all
  then have zero: "buffer q ! ?i = 0" using inv(3) [OF i] by blast
  have r: "unat (rear q + 1) = ?r + 1" by (rule unat_inc [OF small])
  have "enqueue q v = Some ?q"
    using zero inv(1) i
    by (simp add: enqueue_def FAA_def CAS1_def slot_ticket [OF small] rd_ok wr_ok)
  moreover have "contents ?q = contents q @ [v]"
    using inv(1,2) i r ring_cong [of ?q q ?i v "[?f..<?r]"] other
    by (simp add: contents_def ring_def [of ?q])
  moreover have "buffer ?q ! j \<noteq> 0 \<longleftrightarrow> (\<exists>n. ?f \<le> n \<and> n < Suc ?r \<and> n mod QUEUE_SIZE = j)"
    if j: "j < QUEUE_SIZE" for j
  proof (cases "j = ?i")
    case True
    then show ?thesis using v inv(1,2) i by auto
  next
    case False
    then show ?thesis using inv(3) [OF j] by (auto simp: less_Suc_eq)
  qed
  then have "queue_ok ?q"
    using inv(1,2) diff r by (simp add: queue_ok_def word_le_nat_alt)
  ultimately show ?thesis using r by auto
qed

lemma dequeue_step:
  assumes ok: "queue_ok q" and c: "contents q = v # vs" and small: "unat (front q) < 2 ^ 32"
  shows "\<exists>q'. dequeue q = Some (q', v) \<and> queue_ok q' \<and> contents q' = vs \<and> rear q' = rear q \<and>
    unat (front q') = unat (front q) + 1"
proof -
  let ?f = "unat (front q)" and ?r = "unat (rear q)"
  let ?i = "?f mod QUEUE_SIZE"
  let ?q = "q\<lparr>front := front q + 1, buffer := (buffer q)[?i := 0]\<rparr>"
  have inv: "length (buffer q) = QUEUE_SIZE" "?f \<le> ?r" "?r \<le> ?f + QUEUE_SIZE"
    "\<And>i. i < QUEUE_SIZE \<Longrightarrow> buffer q ! i \<noteq> 0 \<longleftrightarrow> (\<exists>n. ?f \<le> n \<and> n < ?r \<and> n mod QUEUE_SIZE = i)"
    using ok by (simp_all add: queue_ok_def word_le_nat_alt)
  have i: "?i < QUEUE_SIZE" by simp
  have less: "?f < ?r" using c by (cases "?f < ?r") (simp_all add: contents_def)
  then have split: "[?f..<?r] = ?f # [Suc ?f..<?r]" by (rule upt_conv_Cons)
  have v: "buffer q ! ?i = v" "map (ring q) [Suc ?f..<?r] = vs"
    using c by (simp_all add: contents_def split ring_def)
  have nz: "v \<noteq> 0" using inv(4) [OF i] less v(1) by blast
  have other: "n mod QUEUE_SIZE \<noteq> ?i" if "Suc ?f \<le> n" "n < ?r" for n
    using that inv(3) ring_inj [of ?f n] by auto
  have f: "unat (front q + 1) = ?f + 1" by (rule unat_inc [OF small])
  have "dequeue q = Some (?q, v)"
    using v(1) nz inv(1) i
    by (simp add: dequeue_def FAA_def CAS1_def slot_ticket [OF small] rd_ok wr_ok)
  moreover have "contents ?q = vs"
    using f v(2) ring_cong [of ?q q ?i 0 "[Suc ?f..<?r]"] other by (simp add: contents_def)
  moreover have "buffer ?q ! j \<noteq> 0 \<longleftrightarrow> (\<exists>n. Suc ?f \<le> n \<and> n < ?r \<and> n mod QUEUE_SIZE = j)"
    if j: "j < QUEUE_SIZE" for j
  proof (cases "j = ?i")
    case True
    then show ?thesis using inv(1) i other by auto
  next
    case False
    have "?f \<le> n \<and> n mod QUEUE_SIZE = j \<longleftrightarrow> Suc ?f \<le> n \<and> n mod QUEUE_SIZE = j" for n
      using False by (auto simp: Suc_le_eq le_less)
    then show ?thesis using inv(4) [OF j] False by auto
  qed
  then have "queue_ok ?q"
    using inv(1,3) less f by (simp add: queue_ok_def word_le_nat_alt)
  ultimately show ?thesis using f by auto
qed

text \<open>A sequence of requests, and the queue of values it stands for.\<close>

datatype queue_op = Enq u64 | Deq

fun queue_run :: "queue_t \<Rightarrow> queue_op list \<Rightarrow> (queue_t \<times> u64 list) option" where
  "queue_run q [] = Some (q, [])"
| "queue_run q (Enq v # ops) = do { q' \<leftarrow> enqueue q v; queue_run q' ops }"
| "queue_run q (Deq # ops) = do {
     (q', v) \<leftarrow> dequeue q; (q'', vs) \<leftarrow> queue_run q' ops; Some (q'', v # vs) }"

text \<open>The specification; \<open>None\<close> if a value is null, the queue overflows or is empty.\<close>

fun fifo_run :: "u64 list \<Rightarrow> queue_op list \<Rightarrow> (u64 list \<times> u64 list) option" where
  "fifo_run xs [] = Some (xs, [])"
| "fifo_run xs (Enq v # ops) = (if v = 0 \<or> QUEUE_SIZE \<le> length xs then None else fifo_run (xs @ [v]) ops)"
| "fifo_run [] (Deq # ops) = None"
| "fifo_run (x # xs) (Deq # ops) = map_option (\<lambda>(ys, vs). (ys, x # vs)) (fifo_run xs ops)"

lemma queue_run_refines:
  assumes "queue_ok q" "unat (rear q) + length ops \<le> 2 ^ 32" "fifo_run (contents q) ops = Some (ys, vs)"
  shows "\<exists>q'. queue_run q ops = Some (q', vs) \<and> queue_ok q' \<and> contents q' = ys"
  using assms
proof (induction ops arbitrary: q vs)
  case (Cons op ops)
  have fr: "unat (front q) \<le> unat (rear q)" using Cons.prems(1) by (simp add: queue_ok_def word_le_nat_alt)
  show ?case
  proof (cases op)
    case (Enq v)
    with Cons.prems(3) have v: "v \<noteq> 0" "length (contents q) < QUEUE_SIZE"
      "fifo_run (contents q @ [v]) ops = Some (ys, vs)" by (simp_all split: if_splits)
    obtain q1 where q1: "enqueue q v = Some q1" "queue_ok q1" "contents q1 = contents q @ [v]"
      "unat (rear q1) = unat (rear q) + 1"
      using enqueue_step [OF Cons.prems(1) v(1,2)] Cons.prems(2) by auto
    with Cons.IH [OF q1(2)] Cons.prems(2) v(3) Enq show ?thesis by simp
  next
    case Deq
    with Cons.prems(3) obtain x xs vs' where c: "contents q = x # xs" "vs = x # vs'"
      "fifo_run xs ops = Some (ys, vs')"
      by (cases "contents q") auto
    obtain q1 where q1: "dequeue q = Some (q1, x)" "queue_ok q1" "contents q1 = xs" "rear q1 = rear q"
      using dequeue_step [OF Cons.prems(1) c(1)] fr Cons.prems(2) by auto
    with Cons.IH [OF q1(2), of vs'] Cons.prems(2) c Deq show ?thesis by auto
  qed
qed simp

section \<open>Threads interleaved\<close>

text \<open>
  \<open>At_put\<close> and \<open>At_get\<close> hold the slot of a ticket; \<open>At_take\<close> also the value that was read before
  the compare-and-swap. \<open>sent\<close> and \<open>got\<close> record the values passed to \<open>enqueue\<close> and returned by
  \<open>dequeue\<close>.
\<close>

datatype qthread = At_rest | At_put nat u64 | At_get nat | At_take nat u64

record qsys =
  shared_q :: queue_t
  qthreads :: "qthread list"
  sent :: "u64 multiset"
  got :: "u64 multiset"

definition qsys_init :: "nat \<Rightarrow> qsys" where
  "qsys_init n = \<lparr>shared_q = create_queue, qthreads = replicate n At_rest, sent = {#}, got = {#}\<rparr>"

inductive qstep :: "qsys \<Rightarrow> qsys \<Rightarrow> bool" where
  put_ticket: "i < length (qthreads s) \<Longrightarrow> qthreads s ! i = At_rest \<Longrightarrow> v \<noteq> 0 \<Longrightarrow>
    FAA (rear (shared_q s)) 1 = (r, ticket) \<Longrightarrow>
    qstep s (s\<lparr>shared_q := (shared_q s)\<lparr>rear := r\<rparr>, qthreads := (qthreads s)[i := At_put (slot ticket) v],
               sent := add_mset v (sent s)\<rparr>)"
| put_done: "i < length (qthreads s) \<Longrightarrow> qthreads s ! i = At_put k v \<Longrightarrow>
    CAS1 (buffer (shared_q s)) k 0 v = Some (b, True) \<Longrightarrow>
    qstep s (s\<lparr>shared_q := (shared_q s)\<lparr>buffer := b\<rparr>, qthreads := (qthreads s)[i := At_rest]\<rparr>)"
| get_ticket: "i < length (qthreads s) \<Longrightarrow> qthreads s ! i = At_rest \<Longrightarrow>
    FAA (front (shared_q s)) 1 = (f, ticket) \<Longrightarrow>
    qstep s (s\<lparr>shared_q := (shared_q s)\<lparr>front := f\<rparr>, qthreads := (qthreads s)[i := At_get (slot ticket)]\<rparr>)"
| get_read: "i < length (qthreads s) \<Longrightarrow> qthreads s ! i = At_get k \<Longrightarrow>
    rd (buffer (shared_q s)) k = Some v \<Longrightarrow> v \<noteq> 0 \<Longrightarrow>
    qstep s (s\<lparr>qthreads := (qthreads s)[i := At_take k v]\<rparr>)"
| get_retry: "i < length (qthreads s) \<Longrightarrow> qthreads s ! i = At_take k v \<Longrightarrow>
    CAS1 (buffer (shared_q s)) k v 0 = Some (b, False) \<Longrightarrow>
    qstep s (s\<lparr>qthreads := (qthreads s)[i := At_get k]\<rparr>)"
| get_done: "i < length (qthreads s) \<Longrightarrow> qthreads s ! i = At_take k v \<Longrightarrow>
    CAS1 (buffer (shared_q s)) k v 0 = Some (b, True) \<Longrightarrow>
    qstep s (s\<lparr>shared_q := (shared_q s)\<lparr>buffer := b\<rparr>, qthreads := (qthreads s)[i := At_rest],
               got := add_mset v (got s)\<rparr>)"

inductive qreach :: "nat \<Rightarrow> qsys \<Rightarrow> bool" for n where
  start: "qreach n (qsys_init n)"
| step: "qreach n s \<Longrightarrow> qstep s s' \<Longrightarrow> qreach n s'"

text \<open>The values on their way: still in the hands of an enqueuer, or in the buffer.\<close>

definition pending :: "qthread \<Rightarrow> u64 multiset" where
  "pending t = (case t of At_put k v \<Rightarrow> {#v#} | _ \<Rightarrow> {#})"

definition thread_ok :: "qthread \<Rightarrow> bool" where
  "thread_ok t = (case t of At_rest \<Rightarrow> True | At_put k v \<Rightarrow> k < QUEUE_SIZE \<and> v \<noteq> 0
     | At_get k \<Rightarrow> k < QUEUE_SIZE | At_take k v \<Rightarrow> k < QUEUE_SIZE \<and> v \<noteq> 0)"

definition in_flight :: "qthread list \<Rightarrow> u64 multiset" where
  "in_flight ts = \<Sum>\<^sub># (image_mset pending (mset ts))"

definition stored :: "u64 list \<Rightarrow> u64 multiset" where
  "stored b = filter_mset (\<lambda>v. v \<noteq> 0) (mset b)"

definition qinv :: "qsys \<Rightarrow> bool" where
  "qinv s \<longleftrightarrow> length (buffer (shared_q s)) = QUEUE_SIZE \<and> (\<forall>t\<in>set (qthreads s). thread_ok t) \<and>
     sent s = got s + stored (buffer (shared_q s)) + in_flight (qthreads s)"

lemma in_flight_update:
  assumes "i < length ts" "ts ! i = a"
  shows "in_flight (ts[i := b]) + pending a = in_flight ts + pending b"
proof -
  have "add_mset a (mset (ts[i := b])) = add_mset b (mset ts)"
    using mset_exchange [OF assms(1), of b] assms(2) by simp
  from arg_cong [OF this, of "\<lambda>M. \<Sum>\<^sub># (image_mset pending M)"] show ?thesis
    by (simp add: in_flight_def add.commute)
qed

lemma stored_update:
  assumes "i < length b" "b ! i = u"
  shows "stored (b[i := v]) + (if u = 0 then {#} else {#u#}) = stored b + (if v = 0 then {#} else {#v#})"
proof -
  have "add_mset u (mset (b[i := v])) = add_mset v (mset b)"
    using mset_exchange [OF assms(1), of v] assms(2) by simp
  from arg_cong [OF this, of "filter_mset (\<lambda>v. v \<noteq> 0)"] show ?thesis
    by (simp add: stored_def split: if_splits)
qed

lemma threads_ok_update:
  "\<forall>t\<in>set ts. thread_ok t \<Longrightarrow> thread_ok a \<Longrightarrow> \<forall>t\<in>set (ts[i := a]). thread_ok t"
  using set_update_subset_insert [of ts i a] by blast

lemma CAS1_True:
  "CAS1 b k old new = Some (b', True) \<Longrightarrow> k < length b \<and> b ! k = old \<and> b' = b[k := new]"
  by (auto simp: CAS1_def rd_def wr_def split: if_splits bind_splits)

lemma qinv_init: "qinv (qsys_init n)"
  by (simp add: qinv_def qsys_init_def create_queue_def stored_def in_flight_def thread_ok_def pending_def)

text \<open>A step of thread \<open>i\<close> keeps the invariant if it accounts for the values it moves.\<close>

lemma qinv_update:
  assumes "qinv s" "i < length (qthreads s)" "thread_ok b" "length (buffer (shared_q s')) = QUEUE_SIZE"
    "qthreads s' = (qthreads s)[i := b]"
    "sent s' + got s + stored (buffer (shared_q s)) + pending (qthreads s ! i) =
       sent s + got s' + stored (buffer (shared_q s')) + pending b"
  shows "qinv s'"
proof -
  let ?S = "stored (buffer (shared_q s))" and ?S' = "stored (buffer (shared_q s'))"
  let ?F = "in_flight (qthreads s)" and ?F' = "in_flight (qthreads s')"
  have F: "?F' + pending (qthreads s ! i) = ?F + pending b"
    unfolding assms(5) by (rule in_flight_update [OF assms(2) refl])
  have inv: "sent s = got s + ?S + ?F" using assms(1) by (simp add: qinv_def)
  have "sent s' + (got s + ?S + pending (qthreads s ! i)) = (got s + ?S + ?F) + got s' + ?S' + pending b"
    using assms(6) unfolding inv by (simp add: ac_simps)
  also have "\<dots> = (got s' + ?S' + ?F') + (got s + ?S + pending (qthreads s ! i))"
    using F by (simp add: ac_simps)
  finally have "sent s' = got s' + ?S' + ?F'" by simp
  moreover have "\<forall>t\<in>set (qthreads s'). thread_ok t"
    using assms(1,3) unfolding assms(5) by (intro threads_ok_update) (simp_all add: qinv_def)
  ultimately show ?thesis using assms(4) by (simp add: qinv_def)
qed

lemma qinv_thread: "qinv s \<Longrightarrow> i < length (qthreads s) \<Longrightarrow> thread_ok (qthreads s ! i)"
  by (simp add: qinv_def)

lemma qinv_length: "qinv s \<Longrightarrow> length (buffer (shared_q s)) = QUEUE_SIZE"
  by (simp add: qinv_def)

lemma qinv_step:
  assumes "qstep s s'" "qinv s"
  shows "qinv s'"
  using assms
proof (induction rule: qstep.induct)
  case (put_ticket i s v r ticket)
  show ?case
    by (rule qinv_update [OF put_ticket.prems put_ticket.hyps(1), of "At_put (slot ticket) v"])
      (use put_ticket.hyps qinv_length [OF put_ticket.prems] in \<open>simp_all add: thread_ok_def pending_def\<close>)
next
  case (put_done i s k v b)
  note t = qinv_thread [OF put_done.prems put_done.hyps(1)] and c = CAS1_True [OF put_done.hyps(3)]
  have "stored b = add_mset v (stored (buffer (shared_q s)))"
    using stored_update [of k "buffer (shared_q s)" 0 v] c t put_done.hyps(2) by (simp add: thread_ok_def)
  then show ?case
    by (intro qinv_update [OF put_done.prems put_done.hyps(1), of At_rest])
      (use put_done.hyps(2) qinv_length [OF put_done.prems] c in \<open>simp_all add: thread_ok_def pending_def\<close>)
next
  case (get_ticket i s f ticket)
  show ?case
    by (rule qinv_update [OF get_ticket.prems get_ticket.hyps(1), of "At_get (slot ticket)"])
      (use get_ticket.hyps qinv_length [OF get_ticket.prems] in \<open>simp_all add: thread_ok_def pending_def\<close>)
next
  case (get_read i s k v)
  note t = qinv_thread [OF get_read.prems get_read.hyps(1)]
  show ?case
    by (rule qinv_update [OF get_read.prems get_read.hyps(1), of "At_take k v"])
      (use get_read.hyps t qinv_length [OF get_read.prems] in \<open>simp_all add: thread_ok_def pending_def\<close>)
next
  case (get_retry i s k v b)
  note t = qinv_thread [OF get_retry.prems get_retry.hyps(1)]
  show ?case
    by (rule qinv_update [OF get_retry.prems get_retry.hyps(1), of "At_get k"])
      (use get_retry.hyps(2) t qinv_length [OF get_retry.prems] in \<open>simp_all add: thread_ok_def pending_def\<close>)
next
  case (get_done i s k v b)
  note t = qinv_thread [OF get_done.prems get_done.hyps(1)] and c = CAS1_True [OF get_done.hyps(3)]
  have "stored (buffer (shared_q s)) = add_mset v (stored b)"
    using stored_update [of k "buffer (shared_q s)" v 0] c t get_done.hyps(2) by (simp add: thread_ok_def)
  then show ?case
    by (intro qinv_update [OF get_done.prems get_done.hyps(1), of At_rest])
      (use get_done.hyps(2) qinv_length [OF get_done.prems] c in \<open>simp_all add: thread_ok_def pending_def\<close>)
qed

lemma qreach_inv: "qreach n s \<Longrightarrow> qinv s"
  by (induction rule: qreach.induct) (auto intro: qinv_init qinv_step)

section \<open>Properties\<close>



text \<open>
  C26: for any number of threads and any interleaving of their atomic steps, no value is lost or
  duplicated: every value ever passed to \<open>enqueue\<close> is, as often as it was passed, either returned
  by a \<open>dequeue\<close>, or in the buffer, or still in the hands of an enqueuer. The slots in use are
  always inside the buffer.
\<close>

theorem queue_conserves:
  assumes "qreach n s"
  shows "sent s = got s + stored (buffer (shared_q s)) + in_flight (qthreads s) \<and>
    (\<forall>t\<in>set (qthreads s). thread_ok t) \<and> length (buffer (shared_q s)) = QUEUE_SIZE"
  using qreach_inv [OF assms] by (simp add: qinv_def)

theorem queue_conserves_witness:
  "\<exists>s. qreach 1 s \<and> sent s = {#5#} \<and> sent s = got s + stored (buffer (shared_q s)) + in_flight (qthreads s)"
proof -
  let ?s = "(qsys_init 1)\<lparr>shared_q := (shared_q (qsys_init 1))\<lparr>rear := 1\<rparr>,
     qthreads := (qthreads (qsys_init 1))[0 := At_put (slot 0) 5], sent := add_mset 5 (sent (qsys_init 1))\<rparr>"
  have "qstep (qsys_init 1) ?s"
    by (rule qstep.put_ticket) (simp_all add: qsys_init_def create_queue_def FAA_def)
  with qreach.start have "qreach 1 ?s" by (rule qreach.step)
  from this queue_conserves [OF this] show ?thesis by (intro exI [of _ ?s]) (simp add: qsys_init_def)
qed

text \<open>
  \<open>count_queue\<close> is the number of tickets between front and rear as long as that is less than
  \<open>2 ^ 31\<close>; always, it agrees with it modulo \<open>2 ^ 32\<close> and lies in the range of an \<^verbatim>\<open>int\<close>. With more
  dequeuers waiting than values it is negative.
\<close>

lemma count_queue_bounds:
  "- (2 ^ 31) \<le> count_queue q \<and> count_queue q < 2 ^ 31 \<and>
   count_queue q mod 2 ^ 32 = (uint (rear q) - uint (front q)) mod 2 ^ 32 \<and>
   (front q \<le> rear q \<longrightarrow> uint (rear q) - uint (front q) < 2 ^ 31 \<longrightarrow>
      count_queue q = uint (rear q) - uint (front q))"
proof (intro conjI impI)
  let ?w = "ucast (rear q - front q) :: u32"
  show lo: "- (2 ^ 31) \<le> count_queue q" using sint_ge [of ?w] by (simp add: count_queue_def)
  show hi: "count_queue q < 2 ^ 31" using sint_lt [of ?w] by (simp add: count_queue_def)
  have "count_queue q mod 2 ^ 32 = uint ?w"
    by (simp add: count_queue_def uint_sint take_bit_eq_mod)
  also have "\<dots> = uint (rear q - front q) mod 2 ^ 32" by (simp add: unsigned_ucast_eq take_bit_eq_mod)
  also have "\<dots> = (uint (rear q) - uint (front q)) mod 2 ^ 64 mod 2 ^ 32" by (simp add: uint_word_ariths)
  also have "\<dots> = (uint (rear q) - uint (front q)) mod 2 ^ 32"
    by (rule mod_mod_cancel) (simp add: le_imp_power_dvd)
  finally show eq: "count_queue q mod 2 ^ 32 = (uint (rear q) - uint (front q)) mod 2 ^ 32" .
  assume "front q \<le> rear q" and d: "uint (rear q) - uint (front q) < 2 ^ 31"
  then have "0 \<le> uint (rear q) - uint (front q)" by (simp add: word_le_def)
  with d eq have eq: "count_queue q mod 2 ^ 32 = uint (rear q) - uint (front q)" by simp
  show "count_queue q = uint (rear q) - uint (front q)"
  proof (cases "0 \<le> count_queue q")
    case True
    with hi eq show ?thesis by simp
  next
    case False
    with lo have "(count_queue q + 2 ^ 32) mod 2 ^ 32 = count_queue q + 2 ^ 32" by (intro mod_pos_pos_trivial) simp_all
    with eq d lo show ?thesis by simp
  qed
qed

theorem count_queue_bounds_witness:
  "count_queue \<lparr>front = 3, rear = 5, buffer = []\<rparr> = 2"
  using count_queue_bounds [of "\<lparr>front = 3, rear = 5, buffer = []\<rparr>"] by simp

end
