(* ===== verification/Cell_Tables.thy ===== *)
theory Cell_Tables
  imports Hash_Functions
begin

text \<open>
  Path hashing, cuckoo hashing and level hashing look for a key in a fixed list of cells, and
  insert it into the first free one. \<open>pick\<close> is that search; the lemmas say what writing one cell
  changes for the searches of all keys.
\<close>

fun pick :: "('c \<Rightarrow> 'x option) \<Rightarrow> ('x \<Rightarrow> bool) \<Rightarrow> 'c list \<Rightarrow> ('c \<times> 'x) option option" where
  "pick r P [] = Some None"
| "pick r P (c # cs) = do { x \<leftarrow> r c; if P x then Some (Some (c, x)) else pick r P cs }"

definition readable :: "('c \<Rightarrow> 'x option) \<Rightarrow> 'c list \<Rightarrow> bool" where
  "readable r cs \<longleftrightarrow> (\<forall>c\<in>set cs. r c \<noteq> None)"

lemma readable_simps [simp]:
  "readable r []" "readable r (c # cs) \<longleftrightarrow> (\<exists>x. r c = Some x) \<and> readable r cs"
  "readable r (cs @ cs') \<longleftrightarrow> readable r cs \<and> readable r cs'"
  by (auto simp: readable_def)

lemma pick_cases:
  assumes "readable r cs"
  obtains (found) c x where "pick r P cs = Some (Some (c, x))" "c \<in> set cs" "r c = Some x" "P x"
  | (none) "pick r P cs = Some None" "\<And>c x. c \<in> set cs \<Longrightarrow> r c = Some x \<Longrightarrow> \<not> P x"
  using assms
proof (induction cs arbitrary: thesis)
  case (Cons c cs)
  then obtain x where x: "r c = Some x" by auto
  show ?case
  proof (cases "P x")
    case True
    with x Cons.prems(1) [of c x] show ?thesis by simp
  next
    case False
    show ?thesis
    proof (rule Cons.IH)
      show thesis if "pick r P cs = Some (Some (c', x'))" "c' \<in> set cs" "r c' = Some x'" "P x'" for c' x'
        using that x False by (intro Cons.prems(1) [of c' x']) simp_all
      show thesis if "pick r P cs = Some None" "\<And>c x. c \<in> set cs \<Longrightarrow> r c = Some x \<Longrightarrow> \<not> P x"
        using that x False by (intro Cons.prems(2)) auto
      show "readable r cs" using Cons.prems(3) by simp
    qed
  qed
qed simp

lemma pick_some:
  "pick r P cs = Some (Some (c, x)) \<Longrightarrow> c \<in> set cs \<and> r c = Some x \<and> P x"
  by (induction cs) (auto split: bind_splits if_splits)

text \<open>A write to a cell that did not match and does not match leaves the search as it was.\<close>

lemma pick_other:
  assumes "\<And>c. c \<noteq> c0 \<Longrightarrow> r' c = r c" "r c0 = Some x0" "\<not> P x0" "r' c0 = Some x1" "\<not> P x1"
  shows "pick r' P cs = pick r P cs"
proof (induction cs)
  case (Cons c cs)
  show ?case
  proof (cases "c = c0")
    case True
    with Cons.IH assms(2-5) show ?thesis by simp
  next
    case False
    then show ?thesis using Cons.IH by (simp add: assms(1) cong: if_cong)
  qed
qed simp

text \<open>If one cell alone matches, the search finds it.\<close>

lemma pick_only:
  assumes "readable r cs" "c0 \<in> set cs" "r c0 = Some x0" "P x0"
    "\<And>c x. c \<in> set cs \<Longrightarrow> c \<noteq> c0 \<Longrightarrow> r c = Some x \<Longrightarrow> \<not> P x"
  shows "pick r P cs = Some (Some (c0, x0))"
  using assms(1)
proof (cases rule: pick_cases [where P = P])
  case (found c x)
  then show ?thesis using assms(3,5) by (cases "c = c0") auto
next
  case none
  then show ?thesis using assms(2,3,4) by blast
qed

text \<open>The seeded hash \<^verbatim>\<open>h(&key, sizeof(key), seed)\<close>.\<close>

definition h_seed :: "(bytes \<Rightarrow> u64 \<Rightarrow> u64) \<Rightarrow> u64 \<Rightarrow> Key_t \<Rightarrow> u64" where
  "h_seed std seed key = (hash_funcs std ! 0) (bytes_of_u64 key) seed"

text \<open>
  Arrays of pairs as stores of cells: every live pair sits in one of the cells of its key.
\<close>

definition cells_ok :: "(Key_t \<Rightarrow> nat list) \<Rightarrow> Pair list \<Rightarrow> bool" where
  "cells_ok cells d \<longleftrightarrow> (\<forall>j<length d. pkey (d ! j) \<noteq> INVALID \<longrightarrow> j \<in> set (cells (pkey (d ! j)))) \<and>
     (\<forall>k. \<forall>c\<in>set (cells k). c < length d)"

definition holds :: "Pair list \<Rightarrow> Key_t \<Rightarrow> bool" where
  "holds d k \<longleftrightarrow> (\<exists>j<length d. pkey (d ! j) = k)"

lemma cells_readable: "cells_ok cells d \<Longrightarrow> readable (rd d) (cells k)"
  by (auto simp: cells_ok_def readable_def rd_def)

lemma cells_ok_update:
  assumes "cells_ok cells d" "pkey p \<noteq> INVALID \<Longrightarrow> c \<in> set (cells (pkey p))"
  shows "cells_ok cells (d[c := p])"
proof -
  have "j \<in> set (cells (pkey (d[c := p] ! j)))"
    if "j < length d" "pkey (d[c := p] ! j) \<noteq> INVALID" for j
    using assms that by (cases "j = c") (simp_all add: cells_ok_def)
  with assms(1) show ?thesis by (simp add: cells_ok_def)
qed

lemma cells_ok_new:
  "(\<And>k c. c \<in> set (cells k) \<Longrightarrow> c < n) \<Longrightarrow> cells_ok cells (replicate n fresh_pair)"
  by (simp add: cells_ok_def fresh_pair_def)

lemma lookup_absent:
  assumes "cells_ok cells d" "\<not> holds d k"
  shows "pick (rd d) (\<lambda>p. pkey p = k) (cells k) = Some None"
proof -
  from cells_readable [OF assms(1)] show ?thesis
  proof (cases rule: pick_cases [where P = "\<lambda>p. pkey p = k" and cs = "cells k"])
    case (found c x)
    then have "holds d k" by (auto simp: holds_def rd_def split: if_splits)
    with assms(2) show ?thesis by simp
  qed
qed

text \<open>Storing a new pair in a free cell of its key.\<close>

lemma lookup_after_store:
  assumes ok: "cells_ok cells d" and c: "c \<in> set (cells (pkey p))" "pkey (d ! c) = INVALID"
    and p: "pkey p \<noteq> INVALID" "\<not> holds d (pkey p)"
  shows "cells_ok cells (d[c := p])" "live_pairs (d[c := p]) = add_mset p (live_pairs d)"
    and "pick (rd (d[c := p])) (\<lambda>q. pkey q = pkey p) (cells (pkey p)) = Some (Some (c, p))"
    and "k \<noteq> pkey p \<Longrightarrow> k \<noteq> INVALID \<Longrightarrow>
      pick (rd (d[c := p])) (\<lambda>q. pkey q = k) cs = pick (rd d) (\<lambda>q. pkey q = k) cs"
proof -
  have len: "c < length d" using ok c(1) by (auto simp: cells_ok_def)
  show ok': "cells_ok cells (d[c := p])" by (rule cells_ok_update [OF ok]) (rule c(1))
  show "live_pairs (d[c := p]) = add_mset p (live_pairs d)" by (rule live_pairs_place [OF len c(2) p(1)])
  show "pick (rd (d[c := p])) (\<lambda>q. pkey q = pkey p) (cells (pkey p)) = Some (Some (c, p))"
  proof (rule pick_only [OF cells_readable [OF ok'] c(1)])
    show "rd (d[c := p]) c = Some p" using len by (simp add: rd_ok)
    fix c' x assume "c' \<noteq> c" "rd (d[c := p]) c' = Some x"
    then have "c' < length d" "d ! c' = x" by (auto simp: rd_def split: if_splits)
    then show "pkey x \<noteq> pkey p" using p(2) by (auto simp: holds_def)
  qed simp
  show "pick (rd (d[c := p])) (\<lambda>q. pkey q = k) cs = pick (rd d) (\<lambda>q. pkey q = k) cs"
    if "k \<noteq> pkey p" "k \<noteq> INVALID"
    by (rule pick_other [where ?c0.0 = c and ?x0.0 = "d ! c" and ?x1.0 = p])
      (use that len c(2) in \<open>auto simp: rd_def\<close>)
qed

end
