(* ===== verification/Path_Hashing.thy ===== *)
theory Path_Hashing
  imports Cell_Tables
begin

text \<open>
  \<^verbatim>\<open>PathHashing\<close> (\<^verbatim>\<open>server/src/path_hashing.cpp\<close>): the cells are an inverted binary tree whose top
  level is addressed by two hashes; a key may be in any cell on the two paths down from its
  addresses, as far as the reserved levels go. A \<^verbatim>\<open>Node\<close> has the fields of a \<^verbatim>\<open>Pair\<close>. The seeds
  are random numbers of the constructor and are arguments here. \<open>None\<close> is undefined behaviour:
  a division by zero with one level, or \<^verbatim>\<open>(int)pow(2, levels)\<close> with more than 30.
\<close>

section \<open>State and operations\<close>

record path_table =
  levels :: nat
  reserved_levels :: nat
  addr_capacity :: nat
  total_capacity :: nat
  psize :: u32
  f_seed :: u64
  s_seed :: u64
  ptable :: "Pair list"

definition levels_ok :: "nat \<Rightarrow> nat \<Rightarrow> bool" where
  "levels_ok l r \<longleftrightarrow> 2 \<le> l \<and> l \<le> 30 \<and> r \<le> l"

definition PathHashing :: "nat \<Rightarrow> nat \<Rightarrow> u64 \<Rightarrow> u64 \<Rightarrow> path_table option" where
  "PathHashing l r fs ss =
     (if \<not> levels_ok l r then None
      else Some \<lparr>levels = l, reserved_levels = r, addr_capacity = 2 ^ (l - 1),
        total_capacity = 2 ^ l - 2 ^ (l - r), psize = 0, f_seed = fs, s_seed = ss,
        ptable = replicate (2 ^ l - 2 ^ (l - r)) fresh_pair\<rparr>)"

definition F_IDX :: "(bytes \<Rightarrow> u64 \<Rightarrow> u64) \<Rightarrow> path_table \<Rightarrow> Key_t \<Rightarrow> nat" where
  "F_IDX std t key = unat (h_seed std (f_seed t) key) mod (addr_capacity t div 2)"

definition S_IDX :: "(bytes \<Rightarrow> u64 \<Rightarrow> u64) \<Rightarrow> path_table \<Rightarrow> Key_t \<Rightarrow> nat" where
  "S_IDX std t key = unat (h_seed std (s_seed t) key) mod (addr_capacity t div 2) + addr_capacity t div 2"

text \<open>
  The cells the loop over the levels visits: \<open>i\<close> counts up, \<open>n\<close> levels are left. The loop is the
  same in \<open>Insert\<close>, \<open>InsertOnly\<close>, \<open>Get\<close> and \<open>resize\<close>.
\<close>

fun path_cells :: "nat \<Rightarrow> nat \<Rightarrow> nat \<Rightarrow> nat \<Rightarrow> nat \<Rightarrow> nat \<Rightarrow> nat \<Rightarrow> nat list" where
  "path_cells l i 0 f_idx s_idx sub_f_idx sub_s_idx = []"
| "path_cells l i (Suc n) f_idx s_idx sub_f_idx sub_s_idx =
     (let sub_f = sub_f_idx div 2; sub_s = sub_s_idx div 2; capacity = 2 ^ l - 2 ^ (l - i - 1)
      in f_idx # s_idx # path_cells l (Suc i) n (sub_f + capacity) (sub_s + capacity) sub_f sub_s)"

definition key_cells :: "(bytes \<Rightarrow> u64 \<Rightarrow> u64) \<Rightarrow> path_table \<Rightarrow> Key_t \<Rightarrow> nat list" where
  "key_cells std t key = path_cells (levels t) 0 (reserved_levels t)
     (F_IDX std t key) (S_IDX std t key) (F_IDX std t key) (S_IDX std t key)"

text \<open>One turn of the levels: store in the first free cell, if there is one.\<close>

definition path_store ::
  "(bytes \<Rightarrow> u64 \<Rightarrow> u64) \<Rightarrow> path_table \<Rightarrow> Key_t \<Rightarrow> Value_t \<Rightarrow> path_table option option" where
  "path_store std t key value = do {
     r \<leftarrow> pick (rd (ptable t)) (\<lambda>p. pkey p = INVALID) (key_cells std t key);
     case r of None \<Rightarrow> Some None
     | Some (c, _) \<Rightarrow> do {
         d \<leftarrow> wr (ptable t) c \<lparr>pkey = key, pvalue = value\<rparr>;
         Some (Some (t\<lparr>ptable := d\<rparr>)) } }"

text \<open>\<open>resize\<close> moves the pairs; one that finds no free cell is dropped.\<close>

fun path_rehash :: "(bytes \<Rightarrow> u64 \<Rightarrow> u64) \<Rightarrow> Pair list \<Rightarrow> path_table \<Rightarrow> path_table option" where
  "path_rehash std [] t = Some t"
| "path_rehash std (p # ps) t =
     (if pkey p = INVALID then path_rehash std ps t
      else do {
        r \<leftarrow> path_store std t (pkey p) (pvalue p);
        path_rehash std ps (case r of None \<Rightarrow> t | Some t' \<Rightarrow> t') })"

definition path_resize :: "(bytes \<Rightarrow> u64 \<Rightarrow> u64) \<Rightarrow> path_table \<Rightarrow> path_table option" where
  "path_resize std t =
     (let l = levels t + 1; r = reserved_levels t
      in if \<not> levels_ok l r then None
         else path_rehash std (ptable t) (t\<lparr>levels := l, addr_capacity := 2 ^ (l - 1),
           total_capacity := 2 ^ l - 2 ^ (l - r), ptable := replicate (2 ^ l - 2 ^ (l - r)) fresh_pair\<rparr>))"

fun path_Insert ::
  "(bytes \<Rightarrow> u64 \<Rightarrow> u64) \<Rightarrow> nat \<Rightarrow> path_table \<Rightarrow> Key_t \<Rightarrow> Value_t \<Rightarrow> path_table option" where
  "path_Insert std 0 t key value = None"
| "path_Insert std (Suc fuel) t key value = do {
     r \<leftarrow> path_store std t key value;
     case r of Some t' \<Rightarrow> Some (t'\<lparr>psize := psize t' + 1\<rparr>)
     | None \<Rightarrow> do { t1 \<leftarrow> path_resize std t; path_Insert std fuel t1 key value } }"

definition path_InsertOnly ::
  "(bytes \<Rightarrow> u64 \<Rightarrow> u64) \<Rightarrow> path_table \<Rightarrow> Key_t \<Rightarrow> Value_t \<Rightarrow> (path_table \<times> bool) option" where
  "path_InsertOnly std t key value = do {
     r \<leftarrow> path_store std t key value;
     case r of Some t' \<Rightarrow> Some (t'\<lparr>psize := psize t' + 1\<rparr>, True) | None \<Rightarrow> Some (t, False) }"

definition path_Delete :: "path_table \<Rightarrow> Key_t \<Rightarrow> bool" where
  "path_Delete t key = False"

definition path_Get :: "(bytes \<Rightarrow> u64 \<Rightarrow> u64) \<Rightarrow> path_table \<Rightarrow> Key_t \<Rightarrow> Value_t option" where
  "path_Get std t key = do {
     r \<leftarrow> pick (rd (ptable t)) (\<lambda>p. pkey p = key) (key_cells std t key);
     Some (case r of None \<Rightarrow> NONE | Some (_, p) \<Rightarrow> pvalue p) }"

text \<open>\<open>Utilization\<close> is \<open>100 * path_used t / total_capacity t\<close>.\<close>

definition path_used :: "path_table \<Rightarrow> nat" where
  "path_used t = length (filter (\<lambda>p. pkey p \<noteq> INVALID) (take (total_capacity t) (ptable t)))"

section \<open>The cells of a key are inside the table\<close>

definition path_shape :: "path_table \<Rightarrow> bool" where
  "path_shape t \<longleftrightarrow> levels_ok (levels t) (reserved_levels t) \<and> addr_capacity t = 2 ^ (levels t - 1) \<and>
     total_capacity t = 2 ^ levels t - 2 ^ (levels t - reserved_levels t) \<and>
     length (ptable t) = total_capacity t"

lemma path_cells_bound:
  assumes "i + n \<le> l" "sf < 2 ^ (l - i - 1)" "ss < 2 ^ (l - i - 1)"
    "f = sf + (2 ^ l - 2 ^ (l - i))" "s = ss + (2 ^ l - 2 ^ (l - i))"
    "c \<in> set (path_cells l i n f s sf ss)"
  shows "c < 2 ^ l - 2 ^ (l - (i + n))"
  using assms
proof (induction n arbitrary: i f s sf ss)
  case (Suc n)
  let ?cap = "2 ^ l - 2 ^ (l - i - 1) :: nat"
  have il: "i < l" using Suc.prems(1) by simp
  have two: "(2 :: nat) ^ (l - i) = 2 * 2 ^ (l - i - 1)"
    using il by (metis Suc_diff_Suc diff_Suc_1' diff_diff_left plus_1_eq_Suc power_Suc Suc_eq_plus1)
  have le: "(2 :: nat) ^ (l - i) \<le> 2 ^ l" by (simp add: power_increasing)
  have "(2 :: nat) ^ (l - (i + Suc n)) \<le> 2 ^ (l - i - 1)" by (rule power_increasing) simp_all
  then have head: "f < 2 ^ l - 2 ^ (l - (i + Suc n))" "s < 2 ^ l - 2 ^ (l - (i + Suc n))"
    using Suc.prems(2-5) two le by linarith+
  consider "c = f" | "c = s"
    | "c \<in> set (path_cells l (Suc i) n (sf div 2 + ?cap) (ss div 2 + ?cap) (sf div 2) (ss div 2))"
    using Suc.prems(6) by (auto simp: Let_def)
  then show ?case
  proof cases
    case 3
    show ?thesis
    proof (cases n)
      case (Suc m)
      then have il': "Suc i < l" using Suc.prems(1) by simp
      have "(2 :: nat) ^ (l - i - 1) = 2 * 2 ^ (l - Suc i - 1)"
        using il' by (metis Suc_diff_Suc diff_Suc_1' diff_diff_left plus_1_eq_Suc power_Suc Suc_eq_plus1)
      then have "sf div 2 < 2 ^ (l - Suc i - 1)" "ss div 2 < 2 ^ (l - Suc i - 1)"
        using Suc.prems(2,3) by linarith+
      then show ?thesis using Suc.IH [OF _ _ _ _ _ 3] Suc.prems(1) by simp
    qed (use 3 in simp)
  qed (use head in simp_all)
qed simp

lemma key_cells_bound:
  assumes "path_shape t" "c \<in> set (key_cells std t key)"
  shows "c < length (ptable t)"
proof -
  have L: "2 \<le> levels t" "reserved_levels t \<le> levels t" "addr_capacity t = 2 ^ (levels t - 1)"
    "length (ptable t) = 2 ^ levels t - 2 ^ (levels t - reserved_levels t)"
    using assms(1) by (simp_all add: path_shape_def levels_ok_def)
  obtain m where m: "levels t = Suc (Suc m)" using L(1) by (metis add_2_eq_Suc le_Suc_ex)
  have half: "addr_capacity t div 2 = 2 ^ m" "addr_capacity t = 2 * 2 ^ m" by (simp_all add: L(3) m)
  have "F_IDX std t key < 2 ^ m" "S_IDX std t key < 2 * 2 ^ m"
    by (simp_all add: F_IDX_def S_IDX_def half)
  then have "F_IDX std t key < 2 ^ (levels t - 0 - 1)" "S_IDX std t key < 2 ^ (levels t - 0 - 1)"
    by (simp_all add: m)
  from path_cells_bound [OF _ this _ _ assms(2) [unfolded key_cells_def]] L(2,4)
  show ?thesis by simp
qed

section \<open>Correctness\<close>

definition path_ok :: "(bytes \<Rightarrow> u64 \<Rightarrow> u64) \<Rightarrow> path_table \<Rightarrow> bool" where
  "path_ok std t \<longleftrightarrow> path_shape t \<and> cells_ok (key_cells std t) (ptable t)"

lemma key_cells_cong:
  "levels t' = levels t \<Longrightarrow> reserved_levels t' = reserved_levels t \<Longrightarrow> addr_capacity t' = addr_capacity t \<Longrightarrow>
   f_seed t' = f_seed t \<Longrightarrow> s_seed t' = s_seed t \<Longrightarrow> key_cells std t' = key_cells std t"
  by (rule ext) (simp add: key_cells_def F_IDX_def S_IDX_def)

lemma path_ok_blank:
  assumes "path_shape t" "ptable t = replicate (total_capacity t) fresh_pair"
  shows "path_ok std t" "live_pairs (ptable t) = {#}"
proof -
  have "\<And>k c. c \<in> set (key_cells std t k) \<Longrightarrow> c < total_capacity t"
    using key_cells_bound [OF assms(1)] assms by (simp add: path_shape_def)
  then show "path_ok std t"
    using assms unfolding path_ok_def by (auto intro: cells_ok_new)
  show "live_pairs (ptable t) = {#}"
    by (simp add: assms(2) live_pairs_def live_def fresh_pair_def del: mset_replicate flip: mset_filter)
qed

lemma path_store_cases:
  assumes "path_ok std t"
  obtains (stored) c where "c \<in> set (key_cells std t key)" "pkey (ptable t ! c) = INVALID"
      "path_store std t key v = Some (Some (t\<lparr>ptable := (ptable t)[c := \<lparr>pkey = key, pvalue = v\<rparr>]\<rparr>))"
  | (full) "path_store std t key v = Some None"
proof -
  have ok: "cells_ok (key_cells std t) (ptable t)" using assms by (simp add: path_ok_def)
  from cells_readable [OF ok] show thesis
  proof (cases rule: pick_cases [where P = "\<lambda>p. pkey p = INVALID" and cs = "key_cells std t key"])
    case (found c x)
    then have "c < length (ptable t)" "x = ptable t ! c" by (auto simp: rd_def split: if_splits)
    with found show ?thesis by (intro stored [of c]) (simp_all add: path_store_def wr_ok)
  next
    case none
    then show ?thesis by (intro full) (simp add: path_store_def)
  qed
qed

lemma path_ok_store:
  assumes "path_ok std t" "c \<in> set (key_cells std t (pkey p))"
  shows "path_ok std (t\<lparr>ptable := (ptable t)[c := p]\<rparr>)"
proof -
  have "key_cells std (t\<lparr>ptable := (ptable t)[c := p]\<rparr>) = key_cells std t" by (rule key_cells_cong) simp_all
  with assms show ?thesis by (simp add: path_ok_def path_shape_def cells_ok_update)
qed

lemma path_rehash_step:
  assumes "path_ok std t"
  shows "\<exists>t'. path_rehash std ps t = Some t' \<and> path_ok std t' \<and>
    live_pairs (ptable t') \<subseteq># live_pairs (ptable t) + live_pairs ps"
  using assms
proof (induction ps arbitrary: t)
  case Nil
  then show ?case by (simp add: live_pairs_def)
next
  case (Cons p ps)
  have split: "live_pairs (p # ps) = (if pkey p = INVALID then {#} else {#p#}) + live_pairs ps"
    by (simp add: live_pairs_def live_def)
  show ?case
  proof (cases "pkey p = INVALID")
    case True
    with Cons split show ?thesis by simp
  next
    case False
    from Cons.prems show ?thesis
    proof (cases rule: path_store_cases [where key = "pkey p" and v = "pvalue p"])
      case (stored c)
      let ?t = "t\<lparr>ptable := (ptable t)[c := p]\<rparr>"
      have len: "c < length (ptable t)"
        using key_cells_bound stored(1) Cons.prems by (auto simp: path_ok_def)
      have "live_pairs (ptable ?t) = add_mset p (live_pairs (ptable t))"
        using live_pairs_place [OF len stored(2) False] by simp
      with Cons.IH [OF path_ok_store [OF Cons.prems stored(1)]] stored(3) False split show ?thesis
        by simp
    next
      case full
      from Cons.IH [OF Cons.prems] obtain t' where "path_rehash std ps t = Some t'" "path_ok std t'"
        "live_pairs (ptable t') \<subseteq># live_pairs (ptable t) + live_pairs ps" by blast
      with full False split show ?thesis
        by (auto intro: subset_mset.order_trans)
    qed
  qed
qed

lemma path_resize_step:
  assumes "path_ok std t" "levels t < 30"
  shows "\<exists>t'. path_resize std t = Some t' \<and> path_ok std t' \<and> live_pairs (ptable t') \<subseteq># live_pairs (ptable t)"
proof -
  let ?l = "levels t + 1" and ?r = "reserved_levels t"
  let ?t = "t\<lparr>levels := ?l, addr_capacity := 2 ^ (?l - 1), total_capacity := 2 ^ ?l - 2 ^ (?l - ?r),
     ptable := replicate (2 ^ ?l - 2 ^ (?l - ?r)) fresh_pair\<rparr>"
  have l: "levels_ok ?l ?r" using assms by (simp add: path_ok_def path_shape_def levels_ok_def)
  then have "path_ok std ?t" "live_pairs (ptable ?t) = {#}"
    by (intro path_ok_blank; simp add: path_shape_def)+
  with path_rehash_step [OF this(1), of "ptable t"] l show ?thesis
    by (simp add: path_resize_def Let_def)
qed

lemma live_holds: "k \<noteq> INVALID \<Longrightarrow> holds d k \<longleftrightarrow> k \<in># image_mset pkey (live_pairs d)"
  using in_keys_of [of k d] by (simp add: holds_def keys_of_live_pairs)

lemma path_Get_lookup:
  assumes "path_ok std t"
  shows "\<not> holds (ptable t) key \<Longrightarrow> path_Get std t key = Some NONE"
  using lookup_absent [of "key_cells std t" "ptable t" key] assms by (simp add: path_Get_def path_ok_def)

lemma path_store_Get:
  assumes ok: "path_ok std t" and key: "key \<noteq> INVALID" "\<not> holds (ptable t) key"
    and c: "c \<in> set (key_cells std t key)" "pkey (ptable t ! c) = INVALID"
    and t': "t' = t\<lparr>ptable := (ptable t)[c := \<lparr>pkey = key, pvalue = v\<rparr>], psize := n\<rparr>"
  shows "path_ok std t'" "path_Get std t' key = Some v"
    "live_pairs (ptable t') = add_mset \<lparr>pkey = key, pvalue = v\<rparr> (live_pairs (ptable t))"
    "k \<noteq> key \<Longrightarrow> k \<noteq> INVALID \<Longrightarrow> path_Get std t' k = path_Get std t k"
proof -
  let ?p = "\<lparr>pkey = key, pvalue = v\<rparr>"
  have cells: "key_cells std t' = key_cells std t" unfolding t' by (rule key_cells_cong) simp_all
  have ok1: "cells_ok (key_cells std t) (ptable t)" using ok by (simp add: path_ok_def)
  note S = lookup_after_store [OF ok1, of c ?p, simplified, OF c key]
  show "path_ok std t'"
    using ok S(1) unfolding path_ok_def cells by (simp add: t' path_shape_def)
  show "path_Get std t' key = Some v" unfolding path_Get_def cells using S(3) by (simp add: t')
  show "live_pairs (ptable t') = add_mset ?p (live_pairs (ptable t))" using S(2) by (simp add: t')
  show "path_Get std t' k = path_Get std t k" if "k \<noteq> key" "k \<noteq> INVALID"
    unfolding path_Get_def cells using S(4) [OF that] by (simp add: t')
qed

lemma path_Insert_step:
  assumes "key \<noteq> INVALID"
  shows "path_ok std t \<Longrightarrow> \<not> holds (ptable t) key \<Longrightarrow> path_Insert std f t key v = Some t' \<Longrightarrow>
    path_ok std t' \<and> path_Get std t' key = Some v \<and>
    live_pairs (ptable t') \<subseteq># add_mset \<lparr>pkey = key, pvalue = v\<rparr> (live_pairs (ptable t))"
proof (induction f arbitrary: t)
  case (Suc f)
  from Suc.prems(1) show ?case
  proof (cases rule: path_store_cases [where key = key and v = v])
    case (stored c)
    with Suc.prems(3) have
      "t' = t\<lparr>ptable := (ptable t)[c := \<lparr>pkey = key, pvalue = v\<rparr>], psize := psize t + 1\<rparr>" by simp
    from path_store_Get [OF Suc.prems(1) assms Suc.prems(2) stored(1,2) this] show ?thesis by simp
  next
    case full
    with Suc.prems(3) obtain t1 where t1: "path_resize std t = Some t1" "path_Insert std f t1 key v = Some t'"
      by (auto split: bind_splits)
    then have "levels t < 30" by (cases "levels t < 30") (simp_all add: path_resize_def levels_ok_def Let_def)
    from path_resize_step [OF Suc.prems(1) this] t1(1)
    have r: "path_ok std t1" "live_pairs (ptable t1) \<subseteq># live_pairs (ptable t)" by simp_all
    have "\<not> holds (ptable t1) key"
      using Suc.prems(2) r(2) unfolding live_holds [OF assms] by (auto dest: mset_subset_eqD)
    from Suc.IH [OF r(1) this t1(2)] r(2) show ?thesis
      by (auto intro: subset_mset.order_trans)
  qed
qed simp

section \<open>Properties\<close>



end
