(* ===== verification/Cuckoo_Hash.thy ===== *)
theory Cuckoo_Hash
  imports Cell_Tables
begin

text \<open>
  \<^verbatim>\<open>CuckooHash\<close> (\<^verbatim>\<open>server/src/cuckoo_hash.cpp\<close>): every key has two cells; when both are taken, the
  pairs along a path of alternative cells are moved until one is free; when there is no short path,
  the table is doubled. An operation is one step: the code holds the locks of the path or of the
  whole table. \<open>None\<close> is undefined behaviour, the end of the process (\<^verbatim>\<open>exit\<close>), or a loop that never
  ends. The \<^verbatim>\<open>RETRY\<close> loop of \<open>Insert\<close> is recursion on fuel.
\<close>

section \<open>State and operations\<close>

definition kCuckooThreshold :: nat where "kCuckooThreshold = 16"
definition kMaxGrows :: nat where "kMaxGrows = 128"

record cuckoo =
  capacity :: nat
  ctable :: "Pair list"
  pushed :: "Pair list"
  old_cap :: nat
  old_tab :: "Pair list"
  resizing_lock :: bool

definition zero_pair :: Pair where
  "zero_pair = \<lparr>pkey = 0, pvalue = 0\<rparr>"

text \<open>
  The constructor leaves \<open>old_cap\<close> and \<open>old_tab\<close> unset: an empty old table makes reading it a fault.
\<close>

definition CuckooHash :: "nat \<Rightarrow> cuckoo" where
  "CuckooHash cap = \<lparr>capacity = cap, ctable = replicate cap fresh_pair, pushed = [zero_pair, zero_pair],
     old_cap = 0, old_tab = [], resizing_lock = False\<rparr>"

text \<open>\<^verbatim>\<open>hash_funcs[n](&key, sizeof(key), 0xc70f6907UL) % capacity\<close>\<close>

definition ch_idx :: "(bytes \<Rightarrow> u64 \<Rightarrow> u64) \<Rightarrow> nat \<Rightarrow> nat \<Rightarrow> Key_t \<Rightarrow> nat" where
  "ch_idx std n cap key = unat ((hash_funcs std ! n) (bytes_of_u64 key) 0xc70f6907) mod cap"

definition ch_cells :: "(bytes \<Rightarrow> u64 \<Rightarrow> u64) \<Rightarrow> nat \<Rightarrow> Key_t \<Rightarrow> nat list" where
  "ch_cells std cap key = [ch_idx std 0 cap key, ch_idx std 1 cap key]"

text \<open>The loop of \<open>find_path\<close>, with \<open>n\<close> turns left.\<close>

fun path_loop ::
  "(bytes \<Rightarrow> u64 \<Rightarrow> u64) \<Rightarrow> nat \<Rightarrow> Pair list \<Rightarrow> nat \<Rightarrow> nat \<Rightarrow> (nat \<times> Key_t) list \<Rightarrow> (nat \<times> Key_t) list option" where
  "path_loop std cap d 0 cur path = Some []"
| "path_loop std cap d (Suc n) cur path = do {
     p \<leftarrow> rd d cur;
     if pkey p = INVALID then Some path
     else
       let f_idx = ch_idx std 0 cap (pkey p); s_idx = ch_idx std 1 cap (pkey p)
       in if f_idx = cur then do {
            q \<leftarrow> rd d s_idx; path_loop std cap d n s_idx (path @ [(s_idx, pkey q)]) }
          else if s_idx = cur then do {
            q \<leftarrow> rd d f_idx; path_loop std cap d n f_idx (path @ [(f_idx, pkey q)]) }
          else None }"

definition find_path :: "(bytes \<Rightarrow> u64 \<Rightarrow> u64) \<Rightarrow> nat \<Rightarrow> Pair list \<Rightarrow> nat \<Rightarrow> (nat \<times> Key_t) list option" where
  "find_path std cap d target = do {
     p \<leftarrow> rd d target;
     path_loop std cap d kCuckooThreshold target [(target, pkey p)] }"

text \<open>\<open>execute_path\<close> of \<open>insert4resize\<close>: carry a pair along, exchanging it with each cell.\<close>

fun execute_swaps :: "Pair list \<Rightarrow> Pair list \<Rightarrow> nat \<Rightarrow> nat list \<Rightarrow> (Pair list \<times> Pair list) option" where
  "execute_swaps d pd i [] = Some (d, pd)"
| "execute_swaps d pd i (c # cs) = (let j = (i + 1) mod 2 in do {
     x \<leftarrow> rd d c;
     pd' \<leftarrow> wr pd j x;
     y \<leftarrow> rd pd' i;
     d' \<leftarrow> wr d c y;
     execute_swaps d' pd' ((i + 1) mod 2) cs })"

text \<open>\<open>execute_path\<close> of \<open>Insert\<close>: move from the end of the path, then store the new pair.\<close>

fun shift_path :: "Pair list \<Rightarrow> nat list \<Rightarrow> Pair list option" where
  "shift_path d (a # b # cs) = do { p \<leftarrow> rd d b; d' \<leftarrow> wr d a p; shift_path d' (b # cs) }"
| "shift_path d cs = Some d"

definition execute_path :: "Pair list \<Rightarrow> (nat \<times> Key_t) list \<Rightarrow> Key_t \<Rightarrow> Value_t \<Rightarrow> Pair list option" where
  "execute_path d path key value = do {
     d' \<leftarrow> shift_path d (rev (map fst path));
     (case path of [] \<Rightarrow> None | (c, _) # _ \<Rightarrow> wr d' c \<lparr>pkey = key, pvalue = value\<rparr>) }"

definition insert4resize ::
  "(bytes \<Rightarrow> u64 \<Rightarrow> u64) \<Rightarrow> nat \<Rightarrow> Pair list \<Rightarrow> Pair list \<Rightarrow> Pair \<Rightarrow> (Pair list \<times> Pair list \<times> bool) option" where
  "insert4resize std cap d pd p =
     (let f_idx = ch_idx std 0 cap (pkey p); s_idx = ch_idx std 1 cap (pkey p) in do {
       pf \<leftarrow> rd d f_idx;
       if pkey pf = INVALID then do { d' \<leftarrow> wr d f_idx p; Some (d', pd, True) }
       else do {
         ps \<leftarrow> rd d s_idx;
         if pkey ps = INVALID then do { d' \<leftarrow> wr d s_idx p; Some (d', pd, True) }
         else do {
         path1 \<leftarrow> find_path std cap d f_idx;
         path2 \<leftarrow> find_path std cap d s_idx;
         pd' \<leftarrow> wr pd 0 p;
         if path1 = [] \<and> path2 = [] then Some (d, pd', False)
         else do {
           (d', pd'') \<leftarrow> execute_swaps d pd' 0 (map fst
             (if path1 = [] then path2 else if path2 = [] then path1
              else if length path1 < length path2 then path1 else path2));
           Some (d', pd'', True) } } } })"

text \<open>The loop of \<open>resize\<close> over the old table.\<close>

fun ch_rehash ::
  "(bytes \<Rightarrow> u64 \<Rightarrow> u64) \<Rightarrow> nat \<Rightarrow> Pair list \<Rightarrow> Pair list \<Rightarrow> Pair list \<Rightarrow> (Pair list \<times> Pair list \<times> bool) option" where
  "ch_rehash std cap [] d pd = Some (d, pd, True)"
| "ch_rehash std cap (p # ps) d pd =
     (if pkey p = INVALID then ch_rehash std cap ps d pd
      else do {
        (d', pd', ok) \<leftarrow> insert4resize std cap d pd p;
        if ok then ch_rehash std cap ps d' pd' else Some (d', pd', False) })"

text \<open>
  \<^verbatim>\<open>capacity * kResizingFactor\<close> is a product of \<^verbatim>\<open>float\<close>s: the capacity is rounded to 24 bits,
  to the nearest, ties to even.
\<close>

fun bit_length :: "nat \<Rightarrow> nat" where
  "bit_length n = (if n = 0 then 0 else Suc (bit_length (n div 2)))"

declare bit_length.simps [simp del]

definition float_round :: "nat \<Rightarrow> nat" where
  "float_round n =
     (if n < 2 ^ 24 then n
      else let k = bit_length n - 24; q = n div 2 ^ k; r = n mod 2 ^ k
           in (if 2 ^ (k - 1) < r \<or> (r = 2 ^ (k - 1) \<and> odd q) then q + 1 else q) * 2 ^ k)"

text \<open>
  The outer loop of \<open>resize\<close>, with \<open>n\<close> attempts left; it ends the process when none is left. The
  conversion of a \<^verbatim>\<open>float\<close> that does not fit a \<^verbatim>\<open>size_t\<close> is undefined.
\<close>

fun ch_grow ::
  "(bytes \<Rightarrow> u64 \<Rightarrow> u64) \<Rightarrow> nat \<Rightarrow> nat \<Rightarrow> Pair list \<Rightarrow> Pair list \<Rightarrow> (nat \<times> Pair list \<times> Pair list) option" where
  "ch_grow std 0 cap old pd = None"
| "ch_grow std (Suc n) cap old pd = (let cap' = 2 * float_round cap in
     if 2 ^ 64 \<le> cap' then None
     else do {
       (d, pd', ok) \<leftarrow> ch_rehash std cap' old (replicate cap' fresh_pair) pd;
       if ok then Some (cap', d, pd') else ch_grow std n cap' old pd' })"

text \<open>
  \<open>resize\<close> counts the old cells with an \<^verbatim>\<open>unsigned\<close>: with \<open>2 ^ 32\<close> of them or more no attempt succeeds.
\<close>

definition ch_resize :: "(bytes \<Rightarrow> u64 \<Rightarrow> u64) \<Rightarrow> cuckoo \<Rightarrow> cuckoo option" where
  "ch_resize std t =
     (if 2 ^ 32 \<le> capacity t then None
      else do {
        (cap, d, pd) \<leftarrow> ch_grow std kMaxGrows (capacity t) (ctable t) (pushed t);
        Some (t\<lparr>capacity := cap, ctable := d, pushed := pd, old_cap := capacity t, old_tab := ctable t\<rparr>) })"

definition choose_path :: "(nat \<times> Key_t) list \<Rightarrow> (nat \<times> Key_t) list \<Rightarrow> (nat \<times> Key_t) list" where
  "choose_path path1 path2 =
     (if path1 = [] \<or> (path2 \<noteq> [] \<and> length path2 < length path1) \<or>
         (path2 \<noteq> [] \<and> snd (hd path1) = INVALID)
      then path2 else path1)"

definition path_current :: "Pair list \<Rightarrow> (nat \<times> Key_t) list \<Rightarrow> bool" where
  "path_current d path \<longleftrightarrow> (\<forall>(c, k)\<in>set path. c < length d \<and> pkey (d ! c) = k)"

fun ch_Insert :: "(bytes \<Rightarrow> u64 \<Rightarrow> u64) \<Rightarrow> nat \<Rightarrow> cuckoo \<Rightarrow> Key_t \<Rightarrow> Value_t \<Rightarrow> cuckoo option" where
  "ch_Insert std 0 t key value = None"
| "ch_Insert std (Suc fuel) t key value =
     (if resizing_lock t then None
      else let f_idx = ch_idx std 0 (capacity t) key; s_idx = ch_idx std 1 (capacity t) key;
               p = \<lparr>pkey = key, pvalue = value\<rparr>; d = ctable t
           in do {
             pf \<leftarrow> rd d f_idx;
             if pkey pf = INVALID then do { d' \<leftarrow> wr d f_idx p; Some (t\<lparr>ctable := d'\<rparr>) }
             else do {
               ps \<leftarrow> rd d s_idx;
               if pkey ps = INVALID then do { d' \<leftarrow> wr d s_idx p; Some (t\<lparr>ctable := d'\<rparr>) }
               else do {
                 path1 \<leftarrow> find_path std (capacity t) d f_idx;
                 path2 \<leftarrow> find_path std (capacity t) d s_idx;
                 if path1 \<noteq> [] \<or> path2 \<noteq> [] then
                   let path = choose_path path1 path2
                   in if \<not> path_current d path then None
                      else do { d' \<leftarrow> execute_path d path key value; Some (t\<lparr>ctable := d'\<rparr>) }
                 else do { t' \<leftarrow> ch_resize std t; ch_Insert std fuel t' key value } } } })"

definition ch_InsertOnly ::
  "(bytes \<Rightarrow> u64 \<Rightarrow> u64) \<Rightarrow> cuckoo \<Rightarrow> Key_t \<Rightarrow> Value_t \<Rightarrow> (cuckoo \<times> bool) option" where
  "ch_InsertOnly std t key value = do {
     r \<leftarrow> pick (rd (ctable t)) (\<lambda>p. pkey p = INVALID) (ch_cells std (capacity t) key);
     case r of None \<Rightarrow> Some (t, False)
     | Some (c, _) \<Rightarrow> do {
         d \<leftarrow> wr (ctable t) c \<lparr>pkey = key, pvalue = value\<rparr>; Some (t\<lparr>ctable := d\<rparr>, True) } }"

definition ch_Delete :: "cuckoo \<Rightarrow> Key_t \<Rightarrow> bool" where
  "ch_Delete t key = False"

text \<open>During a resize \<open>Get\<close> looks into the old table.\<close>

definition ch_Get :: "(bytes \<Rightarrow> u64 \<Rightarrow> u64) \<Rightarrow> cuckoo \<Rightarrow> Key_t \<Rightarrow> Value_t option" where
  "ch_Get std t key =
     (let (cap, d) = (if resizing_lock t then (old_cap t, old_tab t) else (capacity t, ctable t)) in do {
       r \<leftarrow> pick (rd d) (\<lambda>p. pkey p = key) (ch_cells std cap key);
       Some (case r of None \<Rightarrow> NONE | Some (_, p) \<Rightarrow> pvalue p) })"

definition ch_Insert_extent :: "cuckoo \<Rightarrow> Key_t \<Rightarrow> u64 \<Rightarrow> u64 \<Rightarrow> Value_t \<Rightarrow> cuckoo" where
  "ch_Insert_extent t key cluster_num len value = t"

definition ch_Get_extent :: "cuckoo \<Rightarrow> Key_t \<Rightarrow> u64 \<Rightarrow> Value_t" where
  "ch_Get_extent t key cluster_num = NONE"

definition ch_FindAnyway :: "cuckoo \<Rightarrow> Key_t \<Rightarrow> Value_t" where
  "ch_FindAnyway t key = NONE"

text \<open>\<open>Utilization\<close> is \<open>100 * ch_used t / capacity t\<close>.\<close>

definition ch_used :: "cuckoo \<Rightarrow> nat" where
  "ch_used t = length (filter (\<lambda>p. pkey p \<noteq> INVALID) (take (capacity t) (ctable t)))"

section \<open>Paths\<close>

definition ch_ok :: "(bytes \<Rightarrow> u64 \<Rightarrow> u64) \<Rightarrow> nat \<Rightarrow> Pair list \<Rightarrow> bool" where
  "ch_ok std cap d \<longleftrightarrow> 0 < cap \<and> length d = cap \<and> cells_ok (ch_cells std cap) d"

definition alt_cell :: "(bytes \<Rightarrow> u64 \<Rightarrow> u64) \<Rightarrow> nat \<Rightarrow> Pair list \<Rightarrow> nat \<Rightarrow> nat" where
  "alt_cell std cap d c =
     (if ch_idx std 0 cap (pkey (d ! c)) = c then ch_idx std 1 cap (pkey (d ! c))
      else ch_idx std 0 cap (pkey (d ! c)))"

text \<open>A path ends at a free cell; every other cell holds a pair whose other cell comes next.\<close>

fun chain :: "(bytes \<Rightarrow> u64 \<Rightarrow> u64) \<Rightarrow> nat \<Rightarrow> Pair list \<Rightarrow> nat list \<Rightarrow> bool" where
  "chain std cap d [] \<longleftrightarrow> False"
| "chain std cap d [c] \<longleftrightarrow> c < length d \<and> pkey (d ! c) = INVALID"
| "chain std cap d (c # c' # cs) \<longleftrightarrow>
     c < length d \<and> pkey (d ! c) \<noteq> INVALID \<and> c' = alt_cell std cap d c \<and> chain std cap d (c' # cs)"

lemma ch_idx_less: "0 < cap \<Longrightarrow> ch_idx std n cap k < cap"
  by (simp add: ch_idx_def)

lemma ch_ok_idx [simp]: "ch_ok std cap d \<Longrightarrow> ch_idx std n cap k < length d"
  by (simp add: ch_ok_def ch_idx_less)

lemma ch_ok_new: "0 < cap \<Longrightarrow> ch_ok std cap (replicate cap fresh_pair)"
  by (auto simp: ch_ok_def ch_cells_def ch_idx_less intro!: cells_ok_new)

lemma ch_ok_update:
  "ch_ok std cap d \<Longrightarrow> (pkey p \<noteq> INVALID \<Longrightarrow> c \<in> set (ch_cells std cap (pkey p))) \<Longrightarrow>
   ch_ok std cap (d[c := p])"
  by (simp add: ch_ok_def cells_ok_update)

lemma ch_ok_at:
  assumes "ch_ok std cap d" "c < length d" "pkey (d ! c) \<noteq> INVALID"
  shows "ch_idx std 0 cap (pkey (d ! c)) = c \<or> ch_idx std 1 cap (pkey (d ! c)) = c"
proof -
  have "c \<in> set (ch_cells std cap (pkey (d ! c)))"
    using assms unfolding ch_ok_def cells_ok_def by blast
  then show ?thesis by (auto simp: ch_cells_def)
qed

lemma alt_cell_mem: "alt_cell std cap d c \<in> set (ch_cells std cap (pkey (d ! c)))"
  by (simp add: alt_cell_def ch_cells_def)

lemma alt_cell_less: "ch_ok std cap d \<Longrightarrow> alt_cell std cap d c < length d"
  by (simp add: alt_cell_def)

lemma chain_bound: "chain std cap d cs \<Longrightarrow> c \<in> set cs \<Longrightarrow> c < length d"
  by (induction std cap d cs rule: chain.induct) auto

lemma chain_tail: "chain std cap d (xs @ c # cs) \<Longrightarrow> chain std cap d (c # cs)"
proof (induction xs)
  case (Cons x xs)
  then show ?case by (cases xs) auto
qed simp

text \<open>The cell determines the rest of the path, so no cell comes twice.\<close>

lemma chain_unique: "chain std cap d (c # cs) \<Longrightarrow> chain std cap d (c # ys) \<Longrightarrow> cs = ys"
proof (induction cs arbitrary: c ys)
  case Nil
  then show ?case by (cases ys) auto
next
  case (Cons c' cs)
  then show ?case by (cases ys) auto
qed

lemma chain_distinct: "chain std cap d cs \<Longrightarrow> distinct cs"
proof (induction cs)
  case (Cons c cs)
  have "c \<notin> set cs"
  proof
    assume "c \<in> set cs"
    then obtain xs ys where cs: "cs = xs @ c # ys" by (auto simp: in_set_conv_decomp)
    have "chain std cap d (c # ys)" using chain_tail [of std cap d "c # xs"] Cons.prems cs by simp
    from chain_unique [OF Cons.prems this] cs show False by simp
  qed
  moreover have "distinct cs" using Cons by (cases cs) auto
  ultimately show ?case by simp
qed simp

text \<open>Storing in a cell that is not on it leaves a path as it is.\<close>

lemma chain_update: "c \<notin> set cs \<Longrightarrow> chain std cap (d[c := p]) cs = chain std cap d cs"
  by (induction std cap d cs rule: chain.induct) (auto simp: alt_cell_def)

definition tag :: "Pair list \<Rightarrow> nat list \<Rightarrow> (nat \<times> Key_t) list" where
  "tag d cs = map (\<lambda>c. (c, pkey (d ! c))) cs"

lemma path_loop_ok:
  assumes "ch_ok std cap d" "c < length d"
  shows "path_loop std cap d n c path = Some [] \<or>
    (\<exists>cs. path_loop std cap d n c path = Some (path @ tag d cs) \<and> chain std cap d (c # cs))"
  using assms(2)
proof (induction n arbitrary: c path)
  case (Suc n)
  show ?case
  proof (cases "pkey (d ! c) = INVALID")
    case True
    have "chain std cap d [c]" using True Suc.prems by simp
    then show ?thesis using True Suc.prems by (force simp: rd_ok tag_def)
  next
    case False
    let ?c = "alt_cell std cap d c" and ?path = "path @ [(alt_cell std cap d c, pkey (d ! alt_cell std cap d c))]"
    have "path_loop std cap d (Suc n) c path = path_loop std cap d n ?c ?path"
      using ch_ok_at [OF assms(1) Suc.prems False] False Suc.prems assms(1)
      by (auto simp: rd_ok Let_def alt_cell_def)
    moreover have "path_loop std cap d n ?c ?path = Some [] \<or>
      (\<exists>cs. path_loop std cap d n ?c ?path = Some (?path @ tag d cs) \<and> chain std cap d (?c # cs))"
      by (rule Suc.IH [OF alt_cell_less [OF assms(1)]])
    moreover have "chain std cap d (c # ?c # cs)" if "chain std cap d (?c # cs)" for cs
      using that Suc.prems False by simp
    moreover have "?path @ tag d cs = path @ tag d (?c # cs)" for cs by (simp add: tag_def)
    ultimately show ?thesis by metis
  qed
qed simp

lemma find_path_ok:
  assumes "ch_ok std cap d" "c < length d"
  obtains (none) "find_path std cap d c = Some []"
  | (path) cs where "find_path std cap d c = Some (tag d (c # cs))" "chain std cap d (c # cs)"
  using path_loop_ok [OF assms, of kCuckooThreshold "[(c, pkey (d ! c))]"] assms(2)
  by (auto simp: find_path_def rd_ok tag_def)

section \<open>Moving pairs along a path\<close>

text \<open>Writing a cell exchanges what it held for the pair written.\<close>

lemma live_pairs_exchange:
  assumes "c < length d"
  shows "live_pairs (d[c := p]) + live_pairs [d ! c] = live_pairs d + live_pairs [p]"
proof -
  have "filter_mset live (add_mset (d ! c) (mset (d[c := p]))) = filter_mset live (add_mset p (mset d))"
    using mset_exchange [OF assms, of p] by simp
  then show ?thesis by (auto simp: live_pairs_def split: if_splits)
qed

lemma live_pairs_single [simp]:
  "pkey p = INVALID \<Longrightarrow> live_pairs [p] = {#}" "pkey p \<noteq> INVALID \<Longrightarrow> live_pairs [p] = {#p#}"
  by (simp_all add: live_pairs_def live_def)

lemma ch_place:
  assumes "ch_ok std cap d" "c \<in> set (ch_cells std cap (pkey p))" "pkey (d ! c) = INVALID" "pkey p \<noteq> INVALID"
  shows "ch_ok std cap (d[c := p])" "live_pairs (d[c := p]) = add_mset p (live_pairs d)"
proof -
  have "c < length d" using assms(1,2) by (auto simp: ch_ok_def cells_ok_def)
  then show "live_pairs (d[c := p]) = add_mset p (live_pairs d)"
    by (rule live_pairs_place [OF _ assms(3,4)])
  show "ch_ok std cap (d[c := p])" by (rule ch_ok_update [OF assms(1)]) (rule assms(2))
qed

lemma execute_swaps_ok:
  assumes "ch_ok std cap d" "chain std cap d (c # cs)" "length pd = 2" "i < 2" "pkey (pd ! i) \<noteq> INVALID"
    "c \<in> set (ch_cells std cap (pkey (pd ! i)))"
  shows "\<exists>d' pd'. execute_swaps d pd i (c # cs) = Some (d', pd') \<and> ch_ok std cap d' \<and> length pd' = 2 \<and>
    live_pairs d' = add_mset (pd ! i) (live_pairs d)"
  using assms
proof (induction cs arbitrary: c d pd i)
  case Nil
  have "c < length d" "pkey (d ! c) = INVALID" using Nil.prems(2) by simp_all
  moreover have "(i + 1) mod 2 < 2" "(i + 1) mod 2 \<noteq> i" using Nil.prems(4) by presburger+
  ultimately show ?case
    using Nil.prems ch_place [OF Nil.prems(1,6) _ Nil.prems(5)] by (simp add: Let_def rd_ok wr_ok)
next
  case (Cons c' cs)
  define j where "j = (i + 1) mod 2"
  define p where "p = pd ! i"
  have j: "j < 2" "j \<noteq> i" using Cons.prems(4) unfolding j_def by presburger+
  have c: "c < length d" "pkey (d ! c) \<noteq> INVALID" "c' = alt_cell std cap d c" "chain std cap d (c' # cs)"
    using Cons.prems(2) by auto
  have "c \<notin> set (c' # cs)" using chain_distinct [OF Cons.prems(2)] by simp
  then have chain: "chain std cap (d[c := p]) (c' # cs)" using c(4) chain_update by blast
  have ok: "ch_ok std cap (d[c := p])"
    using ch_ok_update [OF Cons.prems(1)] Cons.prems(6) by (simp add: p_def)
  have "\<exists>d' pd'. execute_swaps (d[c := p]) (pd[j := d ! c]) j (c' # cs) = Some (d', pd') \<and>
      ch_ok std cap d' \<and> length pd' = 2 \<and>
      live_pairs d' = add_mset (pd[j := d ! c] ! j) (live_pairs (d[c := p]))"
    by (rule Cons.IH [OF ok chain]) (use Cons.prems(3) j c alt_cell_mem [of std cap d c] in auto)
  moreover have "execute_swaps d pd i (c # c' # cs) = execute_swaps (d[c := p]) (pd[j := d ! c]) j (c' # cs)"
    using Cons.prems(3,4) j c(1) unfolding j_def p_def
    by (subst execute_swaps.simps(2)) (simp only: Let_def, simp add: rd_ok wr_ok del: execute_swaps.simps)
  moreover have "add_mset (d ! c) (live_pairs (d[c := p])) = add_mset p (live_pairs d)"
    using live_pairs_exchange [OF c(1), of p] c(2) Cons.prems(5) by (simp add: p_def)
  ultimately show ?case using Cons.prems(3) j(1) by (simp add: p_def)
qed

text \<open>
  Moving from the end: the reversed path starts with the free cell, and every cell takes the pair of
  the next one.
\<close>

fun path_linked :: "(bytes \<Rightarrow> u64 \<Rightarrow> u64) \<Rightarrow> nat \<Rightarrow> Pair list \<Rightarrow> nat list \<Rightarrow> bool" where
  "path_linked std cap d (a # b # cs) \<longleftrightarrow>
     pkey (d ! b) \<noteq> INVALID \<and> a = alt_cell std cap d b \<and> path_linked std cap d (b # cs)"
| "path_linked std cap d cs \<longleftrightarrow> True"

lemma path_linked_snoc:
  "path_linked std cap d (cs @ [b, a]) \<longleftrightarrow>
   path_linked std cap d (cs @ [b]) \<and> pkey (d ! a) \<noteq> INVALID \<and> b = alt_cell std cap d a"
proof (induction cs)
  case (Cons c cs)
  then show ?case by (cases cs) auto
qed auto

lemma chain_linked: "chain std cap d cs \<Longrightarrow> path_linked std cap d (rev cs)"
  by (induction std cap d cs rule: chain.induct) (simp_all add: path_linked_snoc)

lemma path_linked_update: "c \<notin> set cs \<Longrightarrow> path_linked std cap (d[c := p]) cs = path_linked std cap d cs"
  by (induction std cap d cs rule: path_linked.induct) (auto simp: alt_cell_def)

lemma shift_path_ok:
  assumes "ch_ok std cap d" "path_linked std cap d (a # cs)" "distinct (a # cs)" "\<forall>c\<in>set (a # cs). c < length d"
  shows "\<exists>d'. shift_path d (a # cs) = Some d' \<and> ch_ok std cap d' \<and>
    d' ! last (a # cs) = d ! last (a # cs) \<and>
    live_pairs d' + live_pairs [d ! a] = live_pairs d + live_pairs [d ! last (a # cs)]"
  using assms
proof (induction cs arbitrary: a d)
  case (Cons b cs)
  let ?d = "d[a := d ! b]"
  have ab: "a < length d" "b < length d" "a \<noteq> b" "a = alt_cell std cap d b" using Cons.prems by simp_all
  have "a \<in> set (ch_cells std cap (pkey (d ! b)))" using alt_cell_mem [of std cap d b] ab(4) by simp
  then have ok: "ch_ok std cap ?d" by (intro ch_ok_update [OF Cons.prems(1)])
  have link: "path_linked std cap ?d (b # cs)"
    using Cons.prems(2,3) path_linked_update [of a "b # cs" std cap d "d ! b"] by simp
  have "\<exists>d'. shift_path ?d (b # cs) = Some d' \<and> ch_ok std cap d' \<and> d' ! last (b # cs) = ?d ! last (b # cs) \<and>
      live_pairs d' + live_pairs [?d ! b] = live_pairs ?d + live_pairs [?d ! last (b # cs)]"
    by (rule Cons.IH [OF ok link]) (use Cons.prems(3,4) in auto)
  then obtain d' where d': "shift_path ?d (b # cs) = Some d'" "ch_ok std cap d'"
    "d' ! last (b # cs) = ?d ! last (b # cs)"
    "live_pairs d' + live_pairs [?d ! b] = live_pairs ?d + live_pairs [?d ! last (b # cs)]" by blast
  have "last (b # cs) \<noteq> a" using Cons.prems(3) last_in_set [of "b # cs"] by (metis distinct.simps(2) list.distinct(1))
  then have last: "?d ! last (b # cs) = d ! last (b # cs)" and b: "?d ! b = d ! b" using ab(3) by simp_all
  have "live_pairs d' + live_pairs [d ! a] + live_pairs [d ! b] =
        live_pairs d + live_pairs [d ! last (b # cs)] + live_pairs [d ! b]"
    using d'(4) live_pairs_exchange [OF ab(1), of "d ! b"] unfolding last b
    by (metis (no_types, lifting) add.assoc add.commute)
  then show ?case using d' last ab by (simp add: rd_ok wr_ok)
qed simp

lemma tag_simps [simp]: "map fst (tag d cs) = cs" "tag d [] = []" "tag d cs = [] \<longleftrightarrow> cs = []"
  "tag d (c # cs) = (c, pkey (d ! c)) # tag d cs" "length (tag d cs) = length cs"
  by (simp_all add: tag_def comp_def)

lemma execute_path_ok:
  assumes ok: "ch_ok std cap d" and chain: "chain std cap d (c # cs)"
    and c: "c \<in> set (ch_cells std cap key)" and key: "key \<noteq> INVALID"
  shows "\<exists>d'. execute_path d (tag d (c # cs)) key value = Some d' \<and> ch_ok std cap d' \<and>
    live_pairs d' = add_mset \<lparr>pkey = key, pvalue = value\<rparr> (live_pairs d)"
proof -
  let ?p = "\<lparr>pkey = key, pvalue = value\<rparr>"
  obtain a rs where rs: "rev (c # cs) = a # rs" by (cases "rev (c # cs)") auto
  have last: "last (a # rs) = c" using rs by (metis last_rev list.sel(1) list.distinct(1))
  have "a # rs \<noteq> []" "c # cs = rev rs @ [a]" using rs by (metis rev.simps(2) rev_rev_ident list.distinct(1))+
  then have free: "pkey (d ! a) = INVALID" using chain chain_tail [of std cap d "rev rs" a "[]"] by simp
  have "\<exists>d'. shift_path d (a # rs) = Some d' \<and> ch_ok std cap d' \<and> d' ! last (a # rs) = d ! last (a # rs) \<and>
      live_pairs d' + live_pairs [d ! a] = live_pairs d + live_pairs [d ! last (a # rs)]"
    using chain_linked [OF chain] chain_distinct [OF chain] chain_bound [OF chain]
    by (intro shift_path_ok [OF ok]) (simp_all flip: rs)
  then obtain d' where d': "shift_path d (a # rs) = Some d'" "ch_ok std cap d'" "d' ! c = d ! c"
    "live_pairs d' = live_pairs d + live_pairs [d ! c]" using free unfolding last by auto
  have len: "c < length d'" using chain_bound [OF chain, of c] d'(2) ok by (simp add: ch_ok_def)
  have "ch_ok std cap (d'[c := ?p])" by (rule ch_ok_update [OF d'(2)]) (simp add: c)
  moreover have "live_pairs (d'[c := ?p]) = add_mset ?p (live_pairs d)"
    using live_pairs_exchange [OF len, of ?p] d'(3,4) key by simp
  ultimately show ?thesis using d'(1) rs len by (simp add: execute_path_def wr_ok)
qed

section \<open>Growing the table\<close>

lemma ch_cells_mem [simp]:
  "ch_idx std 0 cap k \<in> set (ch_cells std cap k)" "ch_idx std (Suc 0) cap k \<in> set (ch_cells std cap k)"
  by (simp_all add: ch_cells_def)

lemma insert4resize_path:
  assumes ok: "ch_ok std cap d" and pd: "length pd = 2" and p: "pkey p \<noteq> INVALID"
    and chain: "chain std cap d (c # cs)" and c: "c \<in> set (ch_cells std cap (pkey p))"
  shows "\<exists>d' pd'. execute_swaps d (pd[0 := p]) 0 (c # cs) = Some (d', pd') \<and> ch_ok std cap d' \<and>
    length pd' = 2 \<and> live_pairs d' = add_mset p (live_pairs d)"
proof -
  have "pd[0 := p] ! 0 = p" using pd by simp
  then show ?thesis using execute_swaps_ok [OF ok chain, of "pd[0 := p]" 0] pd p c by simp
qed

text \<open>Rehashing one pair faults never, and the pair is in the table exactly when it reports success.\<close>

lemma insert4resize_ok:
  assumes ok: "ch_ok std cap d" and pd: "length pd = 2" and p: "pkey p \<noteq> INVALID"
  shows "\<exists>d' pd' b. insert4resize std cap d pd p = Some (d', pd', b) \<and> ch_ok std cap d' \<and> length pd' = 2 \<and>
    (b \<longrightarrow> live_pairs d' = add_mset p (live_pairs d))"
proof -
  let ?f = "ch_idx std 0 cap (pkey p)" and ?s = "ch_idx std 1 cap (pkey p)"
  have len: "?f < length d" "?s < length d" using ok by simp_all
  consider (f) "pkey (d ! ?f) = INVALID" | (s) "pkey (d ! ?f) \<noteq> INVALID" "pkey (d ! ?s) = INVALID"
    | (full) "pkey (d ! ?f) \<noteq> INVALID" "pkey (d ! ?s) \<noteq> INVALID" by blast
  then show ?thesis
  proof cases
    case f
    then show ?thesis using ch_place [OF ok _ f p] len pd
      by (auto simp: insert4resize_def Let_def rd_ok wr_ok)
  next
    case s
    then show ?thesis using ch_place [OF ok _ s(2) p] len pd
      by (auto simp: insert4resize_def Let_def rd_ok wr_ok)
  next
    case full
    obtain path1 where path1: "find_path std cap d ?f = Some path1"
      "path1 = [] \<or> (\<exists>cs. path1 = tag d (?f # cs) \<and> chain std cap d (?f # cs))"
      using find_path_ok [OF ok len(1)] by metis
    obtain path2 where path2: "find_path std cap d ?s = Some path2"
      "path2 = [] \<or> (\<exists>cs. path2 = tag d (?s # cs) \<and> chain std cap d (?s # cs))"
      using find_path_ok [OF ok len(2)] by metis
    define path where "path = (if path1 = [] then path2 else if path2 = [] then path1
              else if length path1 < length path2 then path1 else path2)"
    have eq: "insert4resize std cap d pd p =
      (if path1 = [] \<and> path2 = [] then Some (d, pd[0 := p], False)
       else do { (d', pd'') \<leftarrow> execute_swaps d (pd[0 := p]) 0 (map fst path); Some (d', pd'', True) })"
      using full path1(1) path2(1) len pd unfolding path_def insert4resize_def Let_def
      by (simp add: rd_ok wr_ok)
    show ?thesis
    proof (cases "path1 = [] \<and> path2 = []")
      case True
      then show ?thesis using eq ok pd by auto
    next
      case False
      then have "path \<noteq> []" "path = path1 \<or> path = path2" by (auto simp: path_def)
      then obtain c cs where c: "map fst path = c # cs" "c \<in> set (ch_cells std cap (pkey p))"
        "chain std cap d (c # cs)"
        using path1(2) path2(2) by auto
      from insert4resize_path [OF ok pd p c(3,2)] obtain d' pd' where
        "execute_swaps d (pd[0 := p]) 0 (map fst path) = Some (d', pd')" "ch_ok std cap d'" "length pd' = 2"
        "live_pairs d' = add_mset p (live_pairs d)" unfolding c(1) by blast
      then show ?thesis unfolding eq using False by auto
    qed
  qed
qed

lemma ch_rehash_ok:
  assumes "ch_ok std cap d" "length pd = 2"
  shows "\<exists>d' pd' b. ch_rehash std cap ps d pd = Some (d', pd', b) \<and> ch_ok std cap d' \<and> length pd' = 2 \<and>
    (b \<longrightarrow> live_pairs d' = live_pairs ps + live_pairs d)"
  using assms
proof (induction ps arbitrary: d pd)
  case Nil
  then show ?case by (auto simp: live_pairs_def)
next
  case (Cons p ps)
  show ?case
  proof (cases "pkey p = INVALID")
    case True
    then show ?thesis using Cons by (simp add: live_pairs_def live_def)
  next
    case False
    obtain d1 pd1 b1 where 1: "insert4resize std cap d pd p = Some (d1, pd1, b1)" "ch_ok std cap d1"
      "length pd1 = 2" "b1 \<longrightarrow> live_pairs d1 = add_mset p (live_pairs d)"
      using insert4resize_ok [OF Cons.prems False] by blast
    have "live_pairs (p # ps) = add_mset p (live_pairs ps)" using False by (simp add: live_pairs_def live_def)
    then show ?thesis using Cons.IH [OF 1(2,3)] 1 False by (cases b1) auto
  qed
qed

lemma bit_length_le: "0 < n \<Longrightarrow> 2 ^ bit_length n \<le> 2 * n"
proof (induction n rule: bit_length.induct)
  case (1 n)
  show ?case
  proof (cases "n div 2 = 0")
    case True
    then show ?thesis using 1(2) by (simp add: bit_length.simps [of n] bit_length.simps [of 0])
  next
    case False
    then show ?thesis using 1 by (simp add: bit_length.simps [of n])
  qed
qed

lemma float_round_pos: "0 < n \<Longrightarrow> 0 < float_round n"
proof -
  assume n: "0 < n"
  have "0 < n div 2 ^ (bit_length n - 24)" if "\<not> n < 2 ^ 24"
  proof (cases "bit_length n")
    case 0
    then show ?thesis using n by simp
  next
    case (Suc m)
    have "2 ^ (bit_length n - 24) \<le> (2 ^ m :: nat)" using Suc by (intro power_increasing) simp_all
    also have "\<dots> \<le> n" using bit_length_le [OF n] Suc by simp
    finally show ?thesis by (simp add: div_greater_zero_iff)
  qed
  then show ?thesis using n by (auto simp: float_round_def Let_def)
qed

text \<open>A resize that returns has kept every pair, in a table that is still well formed.\<close>

lemma ch_grow_ok:
  assumes "ch_grow std n cap old pd = Some (cap', d', pd')" "0 < cap" "length pd = 2"
  shows "ch_ok std cap' d' \<and> length pd' = 2 \<and> live_pairs d' = live_pairs old"
  using assms
proof (induction n arbitrary: cap pd)
  case (Suc n)
  let ?cap = "2 * float_round cap"
  have pos: "0 < ?cap" using float_round_pos [OF Suc.prems(2)] by simp
  obtain d1 pd1 b where 1: "ch_rehash std ?cap old (replicate ?cap fresh_pair) pd = Some (d1, pd1, b)"
    "ch_ok std ?cap d1" "length pd1 = 2"
    "b \<longrightarrow> live_pairs d1 = live_pairs old + live_pairs (replicate ?cap fresh_pair)"
    using ch_rehash_ok [OF ch_ok_new [OF pos] Suc.prems(3)] by blast
  have "live_pairs (replicate ?cap fresh_pair) = {#}"
    by (simp add: live_pairs_def live_def fresh_pair_def filter_mset_eq_conv)
  then show ?case using Suc.IH [OF _ pos 1(3)] Suc.prems(1) 1
    by (cases b) (auto simp: Let_def split: if_splits)
qed simp

section \<open>Insert and Get\<close>

definition cuckoo_ok :: "(bytes \<Rightarrow> u64 \<Rightarrow> u64) \<Rightarrow> cuckoo \<Rightarrow> bool" where
  "cuckoo_ok std t \<longleftrightarrow> ch_ok std (capacity t) (ctable t) \<and> length (pushed t) = 2 \<and> \<not> resizing_lock t"

lemma cuckoo_ok_new: "0 < cap \<Longrightarrow> cuckoo_ok std (CuckooHash cap)"
  by (simp add: cuckoo_ok_def CuckooHash_def ch_ok_new)

lemma ch_resize_ok:
  assumes "ch_resize std t = Some t'" "cuckoo_ok std t"
  shows "cuckoo_ok std t' \<and> live_pairs (ctable t') = live_pairs (ctable t)"
proof -
  from assms(1) obtain cap d pd where r: "ch_grow std kMaxGrows (capacity t) (ctable t) (pushed t) = Some (cap, d, pd)"
    "t' = t\<lparr>capacity := cap, ctable := d, pushed := pd, old_cap := capacity t, old_tab := ctable t\<rparr>"
    by (auto simp: ch_resize_def split: if_splits bind_splits)
  from ch_grow_ok [OF r(1)] assms(2) r(2) show ?thesis by (simp add: cuckoo_ok_def ch_ok_def)
qed

text \<open>Neither cell of the key is free and neither starts a path of at most 16 cells.\<close>

definition ch_stuck :: "(bytes \<Rightarrow> u64 \<Rightarrow> u64) \<Rightarrow> cuckoo \<Rightarrow> Key_t \<Rightarrow> bool" where
  "ch_stuck std t key \<longleftrightarrow> (\<forall>c\<in>set (ch_cells std (capacity t) key).
     pkey (ctable t ! c) \<noteq> INVALID \<and> find_path std (capacity t) (ctable t) c = Some [])"

lemma choose_path_mem:
  "path1 \<noteq> [] \<or> path2 \<noteq> [] \<Longrightarrow> choose_path path1 path2 \<noteq> [] \<and> choose_path path1 path2 \<in> {path1, path2}"
  by (auto simp: choose_path_def)

lemma path_current_tag: "chain std cap d cs \<Longrightarrow> path_current d (tag d cs)"
  using chain_bound by (fastforce simp: path_current_def tag_def)

lemma ch_Insert_stuck:
  assumes "cuckoo_ok std t" "ch_stuck std t key"
  shows "ch_Insert std (Suc fuel) t key v = do { t' \<leftarrow> ch_resize std t; ch_Insert std fuel t' key v }"
proof -
  have "ch_ok std (capacity t) (ctable t)" "\<not> resizing_lock t" using assms(1) by (simp_all add: cuckoo_ok_def)
  then show ?thesis using assms(2) by (simp add: ch_stuck_def ch_cells_def Let_def rd_ok)
qed

lemma ch_Insert_free:
  assumes ok: "cuckoo_ok std t" and free: "\<not> ch_stuck std t key" and key: "key \<noteq> INVALID"
  shows "\<exists>d. ch_Insert std (Suc fuel) t key v = Some (t\<lparr>ctable := d\<rparr>) \<and> ch_ok std (capacity t) d \<and>
    live_pairs d = add_mset \<lparr>pkey = key, pvalue = v\<rparr> (live_pairs (ctable t))"
proof -
  let ?p = "\<lparr>pkey = key, pvalue = v\<rparr>" and ?cap = "capacity t" and ?d = "ctable t"
  let ?f = "ch_idx std 0 ?cap key" and ?s = "ch_idx std 1 ?cap key"
  have ok': "ch_ok std ?cap ?d" "\<not> resizing_lock t" using ok by (simp_all add: cuckoo_ok_def)
  have len: "?f < length ?d" "?s < length ?d" using ok' by simp_all
  consider (f) "pkey (?d ! ?f) = INVALID" | (s) "pkey (?d ! ?f) \<noteq> INVALID" "pkey (?d ! ?s) = INVALID"
    | (full) "pkey (?d ! ?f) \<noteq> INVALID" "pkey (?d ! ?s) \<noteq> INVALID" by blast
  then show ?thesis
  proof cases
    case f
    then show ?thesis using ch_place [OF ok'(1), of ?f ?p] ok' len key by (auto simp: Let_def rd_ok wr_ok)
  next
    case s
    then show ?thesis using ch_place [OF ok'(1), of ?s ?p] ok' len key by (auto simp: Let_def rd_ok wr_ok)
  next
    case full
    obtain path1 where path1: "find_path std ?cap ?d ?f = Some path1"
      "path1 = [] \<or> (\<exists>cs. path1 = tag ?d (?f # cs) \<and> chain std ?cap ?d (?f # cs))"
      using find_path_ok [OF ok'(1) len(1)] by metis
    obtain path2 where path2: "find_path std ?cap ?d ?s = Some path2"
      "path2 = [] \<or> (\<exists>cs. path2 = tag ?d (?s # cs) \<and> chain std ?cap ?d (?s # cs))"
      using find_path_ok [OF ok'(1) len(2)] by metis
    define path where "path = choose_path path1 path2"
    have some: "path1 \<noteq> [] \<or> path2 \<noteq> []"
      using free full path1(1) path2(1) by (auto simp: ch_stuck_def ch_cells_def)
    from choose_path_mem [OF this] obtain c cs where c: "path = tag ?d (c # cs)"
      "c \<in> set (ch_cells std ?cap key)" "chain std ?cap ?d (c # cs)"
      using path1(2) path2(2) unfolding path_def by (auto simp del: tag_simps(4))
    from execute_path_ok [OF ok'(1) c(3,2) key] obtain d where
      d: "execute_path ?d path key v = Some d" "ch_ok std ?cap d" "live_pairs d = add_mset ?p (live_pairs ?d)"
      unfolding c(1) by blast
    have "path_current ?d path" unfolding c(1) by (rule path_current_tag [OF c(3)])
    then have "ch_Insert std (Suc fuel) t key v = Some (t\<lparr>ctable := d\<rparr>)"
      using full path1(1) path2(1) some d(1) ok' len unfolding path_def by (simp add: Let_def rd_ok)
    then show ?thesis using d(2,3) by blast
  qed
qed

lemma ch_Insert_ok:
  assumes "key \<noteq> INVALID"
  shows "cuckoo_ok std t \<Longrightarrow> ch_Insert std fuel t key v = Some t' \<Longrightarrow>
    cuckoo_ok std t' \<and> live_pairs (ctable t') = add_mset \<lparr>pkey = key, pvalue = v\<rparr> (live_pairs (ctable t))"
proof (induction fuel arbitrary: t)
  case (Suc fuel)
  show ?case
  proof (cases "ch_stuck std t key")
    case True
    with Suc.prems ch_Insert_stuck [OF Suc.prems(1) True, of fuel v] obtain t1 where
      t1: "ch_resize std t = Some t1" "ch_Insert std fuel t1 key v = Some t'"
      by (auto simp del: ch_Insert.simps split: bind_splits)
    with ch_resize_ok [OF t1(1) Suc.prems(1)] Suc.IH [of t1] show ?thesis by simp
  next
    case False
    from ch_Insert_free [OF Suc.prems(1) False assms, of fuel v] Suc.prems show ?thesis
      by (auto simp: cuckoo_ok_def simp del: ch_Insert.simps)
  qed
qed simp

text \<open>When one pair alone has the key, \<open>Get\<close> finds its value, whichever of the cells it is in.\<close>

lemma live_pairs_mem: "p \<in># live_pairs d \<longleftrightarrow> pkey p \<noteq> INVALID \<and> (\<exists>j<length d. d ! j = p)"
  by (auto simp: live_pairs_def live_def in_set_conv_nth)

lemma ch_Get_unique:
  assumes ok: "cuckoo_ok std t" and p: "p \<in># live_pairs (ctable t)"
    and unique: "\<forall>q\<in>#live_pairs (ctable t). pkey q = pkey p \<longrightarrow> q = p"
  shows "ch_Get std t (pkey p) = Some (pvalue p)"
proof -
  let ?cs = "ch_cells std (capacity t)" and ?d = "ctable t"
  have cells: "cells_ok ?cs ?d" using ok by (simp add: cuckoo_ok_def ch_ok_def)
  obtain j where j: "j < length ?d" "?d ! j = p" "pkey p \<noteq> INVALID" using p by (auto simp: live_pairs_mem)
  then have mem: "j \<in> set (?cs (pkey p))" using cells unfolding cells_ok_def by blast
  from cells_readable [OF cells]
  have "\<exists>c. pick (rd ?d) (\<lambda>q. pkey q = pkey p) (?cs (pkey p)) = Some (Some (c, p))"
  proof (cases rule: pick_cases [where P = "\<lambda>q. pkey q = pkey p" and cs = "?cs (pkey p)"])
    case (found c x)
    then have "x \<in># live_pairs ?d" using j(3) rd_SomeD [OF found(3)] by (auto simp: live_pairs_mem)
    with unique found(4) have "x = p" by blast
    with found(1) show ?thesis by blast
  next
    case none
    then show ?thesis using none(2) [OF mem, of p] j by (simp add: rd_ok)
  qed
  then show ?thesis using ok by (auto simp: ch_Get_def cuckoo_ok_def)
qed


text \<open>
  \<open>Insert\<close> returns at once, without resizing, whenever a cell of the key is free or one of them
  starts a path that \<open>find_path\<close> finds; in every other case it is a resize and another try.
\<close>

lemma cuckoo_insert_returns:
  assumes "cuckoo_ok std t" "key \<noteq> INVALID"
  shows "(\<not> ch_stuck std t key \<longrightarrow> (\<exists>d. ch_Insert std 1 t key v = Some (t\<lparr>ctable := d\<rparr>))) \<and>
    (ch_stuck std t key \<longrightarrow> (\<forall>fuel. ch_Insert std (Suc fuel) t key v =
       (case ch_resize std t of None \<Rightarrow> None | Some t' \<Rightarrow> ch_Insert std fuel t' key v)))"
  using ch_Insert_free [OF assms(1) _ assms(2), of 0 v] ch_Insert_stuck [OF assms(1), of key _ v]
  by (auto simp del: ch_Insert.simps split: bind_split option.split)

lemma cuckoo_first_insert:
  "ch_Insert (\<lambda>_ _. 0) 1 (CuckooHash 4) 5 7 = Some ((CuckooHash 4)\<lparr>ctable := (replicate 4 fresh_pair)[0 := \<lparr>pkey = 5, pvalue = 7\<rparr>]\<rparr>)"
  "\<not> ch_stuck (\<lambda>_ _. 0) (CuckooHash 4) 5"
proof -
  have "ch_idx (\<lambda>_ _. 0) 0 4 5 = 0" by (simp add: ch_idx_def hash_funcs_def)
  then show "ch_Insert (\<lambda>_ _. 0) 1 (CuckooHash 4) 5 7 =
      Some ((CuckooHash 4)\<lparr>ctable := (replicate 4 fresh_pair)[0 := \<lparr>pkey = 5, pvalue = 7\<rparr>]\<rparr>)"
    "\<not> ch_stuck (\<lambda>_ _. 0) (CuckooHash 4) 5"
    by (simp_all add: CuckooHash_def fresh_pair_def rd_ok wr_ok ch_stuck_def ch_cells_def)
qed


theorem cuckoo_insert_returns_witness: "\<exists>t'. ch_Insert (\<lambda>_ _. 0) 1 (CuckooHash 4) 5 7 = Some t'"
proof -
  have "cuckoo_ok (\<lambda>_ _. 0) (CuckooHash 4)" "(5 :: Key_t) \<noteq> INVALID"
    by (simp_all add: cuckoo_ok_new INVALID_def)
  from cuckoo_insert_returns [OF this, of 7] cuckoo_first_insert(2) show ?thesis by blast
qed

end
