(* ===== verification/Level_Hashing.thy ===== *)
theory Level_Hashing
  imports Cell_Tables
begin

text \<open>
  \<^verbatim>\<open>LevelHashing\<close> (\<^verbatim>\<open>server/src/Level_hashing.cpp\<close>): two levels of buckets of three slots, the bottom
  one half as large; a key has two buckets in each. An insertion that finds no free slot moves one
  pair to its other bucket of the level, or from the bottom to the top level, or replaces the bottom
  level by a new top level. An operation is one step under its locks; the \<^verbatim>\<open>RETRY\<close> loop is
  recursion on fuel. A level is the list of its slots, bucket after bucket, each with its token.
  The constructor of \<^verbatim>\<open>Node\<close> does not set the tokens: what \<^verbatim>\<open>new Node[n]\<close> finds in memory for the
  slot \<open>j\<close> is the parameter \<open>junk n j\<close>. \<open>None\<close> is undefined behaviour, an allocation beyond
  \<open>2 ^ 32\<close> buckets, or the end of fuel.
\<close>

section \<open>State and operations\<close>

definition ASSOC_NUM :: nat where "ASSOC_NUM = 3"

type_synonym entry = "u8 \<times> Pair"

record level_table =
  lv_buckets :: "entry list list"
  level_item_num :: "u64 list"
  lv_levels :: nat
  lv_addr_capacity :: nat
  lv_total_capacity :: nat
  lv_f_seed :: u64
  lv_s_seed :: u64
  resize_num :: u32

definition new_nodes :: "(nat \<Rightarrow> nat \<Rightarrow> u8) \<Rightarrow> nat \<Rightarrow> entry list" where
  "new_nodes junk n = map (\<lambda>j. (junk n j, fresh_pair)) [0..<ASSOC_NUM * n]"

definition lv_levels_ok :: "nat \<Rightarrow> bool" where
  "lv_levels_ok l \<longleftrightarrow> 2 \<le> l \<and> l \<le> 32"

definition LevelHashing :: "(nat \<Rightarrow> nat \<Rightarrow> u8) \<Rightarrow> nat \<Rightarrow> u64 \<Rightarrow> u64 \<Rightarrow> level_table option" where
  "LevelHashing junk l fs ss =
     (if \<not> lv_levels_ok l then None
      else Some \<lparr>lv_buckets = [new_nodes junk (2 ^ l), new_nodes junk (2 ^ l div 2)], level_item_num = [0, 0],
        lv_levels = l, lv_addr_capacity = 2 ^ l, lv_total_capacity = 2 ^ l + 2 ^ (l - 1),
        lv_f_seed = fs, lv_s_seed = ss, resize_num = 0\<rparr>)"

text \<open>\<^verbatim>\<open>F_IDX(F_HASH(key), capacity)\<close> and \<^verbatim>\<open>S_IDX(S_HASH(key), capacity)\<close>\<close>

definition lv_F :: "(bytes \<Rightarrow> u64 \<Rightarrow> u64) \<Rightarrow> u64 \<Rightarrow> nat \<Rightarrow> Key_t \<Rightarrow> nat" where
  "lv_F std fs capacity key = unat (h_seed std fs key) mod (capacity div 2)"

definition lv_S :: "(bytes \<Rightarrow> u64 \<Rightarrow> u64) \<Rightarrow> u64 \<Rightarrow> nat \<Rightarrow> Key_t \<Rightarrow> nat" where
  "lv_S std ss capacity key = unat (h_seed std ss key) mod (capacity div 2) + capacity div 2"

definition lv_f_idx :: "(bytes \<Rightarrow> u64 \<Rightarrow> u64) \<Rightarrow> level_table \<Rightarrow> nat \<Rightarrow> Key_t \<Rightarrow> nat" where
  "lv_f_idx std t i key = lv_F std (lv_f_seed t) (lv_addr_capacity t div (1 + i)) key"

definition lv_s_idx :: "(bytes \<Rightarrow> u64 \<Rightarrow> u64) \<Rightarrow> level_table \<Rightarrow> nat \<Rightarrow> Key_t \<Rightarrow> nat" where
  "lv_s_idx std t i key = lv_S std (lv_s_seed t) (lv_addr_capacity t div (1 + i)) key"

text \<open>The slots of one bucket, and of two buckets in turn.\<close>

definition bucket_slots :: "nat \<Rightarrow> nat list" where
  "bucket_slots b = map (\<lambda>j. ASSOC_NUM * b + j) [0..<ASSOC_NUM]"

definition bucket_slots2 :: "nat \<Rightarrow> nat \<Rightarrow> nat list" where
  "bucket_slots2 b c = concat (map (\<lambda>j. [ASSOC_NUM * b + j, ASSOC_NUM * c + j]) [0..<ASSOC_NUM])"

definition rdc :: "level_table \<Rightarrow> nat \<times> nat \<Rightarrow> entry option" where
  "rdc t c = do { lv \<leftarrow> rd (lv_buckets t) (fst c); rd lv (snd c) }"

definition wrc :: "level_table \<Rightarrow> nat \<times> nat \<Rightarrow> entry \<Rightarrow> level_table option" where
  "wrc t c x = do {
     lv \<leftarrow> rd (lv_buckets t) (fst c);
     lv' \<leftarrow> wr lv (snd c) x;
     bs \<leftarrow> wr (lv_buckets t) (fst c) lv';
     Some (t\<lparr>lv_buckets := bs\<rparr>) }"

definition count_items :: "nat \<Rightarrow> u64 \<Rightarrow> level_table \<Rightarrow> level_table" where
  "count_items i n t = t\<lparr>level_item_num := (level_item_num t)[i := level_item_num t ! i + n]\<rparr>"

text \<open>\<open>try_movement\<close>: the loop over the slots \<open>cs\<close> of the bucket \<open>idx\<close>; the result says whether the pair is stored.\<close>

fun try_loop ::
  "(bytes \<Rightarrow> u64 \<Rightarrow> u64) \<Rightarrow> level_table \<Rightarrow> nat \<Rightarrow> nat \<Rightarrow> Pair \<Rightarrow> nat list \<Rightarrow> (level_table \<times> bool) option" where
  "try_loop std t lev idx p [] = Some (t, False)"
| "try_loop std t lev idx p (c # cs) = do {
     x \<leftarrow> rdc t (lev, c);
     let m = snd x;
       f_idx = lv_f_idx std t lev (pkey m); s_idx = lv_s_idx std t lev (pkey m);
       jdx = (if f_idx = idx then s_idx else f_idx)
     in do {
       r \<leftarrow> pick (rdc t) (\<lambda>y. fst y = 0) (map (Pair lev) (bucket_slots jdx));
       case r of None \<Rightarrow> try_loop std t lev idx p cs
       | Some (d, _) \<Rightarrow> do {
           t1 \<leftarrow> wrc t d (1, m);
           t2 \<leftarrow> wrc t1 (lev, c) (0, m);
           t3 \<leftarrow> wrc t2 (lev, c) (1, p);
           Some (count_items lev 1 t3, True) } } }"

definition try_movement ::
  "(bytes \<Rightarrow> u64 \<Rightarrow> u64) \<Rightarrow> level_table \<Rightarrow> nat \<Rightarrow> nat \<Rightarrow> Pair \<Rightarrow> (level_table \<times> bool) option" where
  "try_movement std t idx lev p = try_loop std t lev idx p (bucket_slots idx)"

text \<open>\<open>b2t_movement\<close>: the slot of the bottom level that is free now, if there is one.\<close>

fun b2t_loop :: "(bytes \<Rightarrow> u64 \<Rightarrow> u64) \<Rightarrow> level_table \<Rightarrow> nat list \<Rightarrow> (level_table \<times> nat option) option" where
  "b2t_loop std t [] = Some (t, None)"
| "b2t_loop std t (c # cs) = do {
     x \<leftarrow> rdc t (1, c);
     let m = snd x in do {
       r \<leftarrow> pick (rdc t) (\<lambda>y. fst y = 0)
         (map (Pair 0) (bucket_slots2 (lv_f_idx std t 0 (pkey m)) (lv_s_idx std t 0 (pkey m))));
       case r of None \<Rightarrow> b2t_loop std t cs
       | Some (d, _) \<Rightarrow> do {
           t1 \<leftarrow> wrc t d (1, m);
           t2 \<leftarrow> wrc t1 (1, c) (0, m);
           Some (count_items 1 (- 1) (count_items 0 1 t2), Some c) } } }"

definition b2t_movement :: "(bytes \<Rightarrow> u64 \<Rightarrow> u64) \<Rightarrow> level_table \<Rightarrow> nat \<Rightarrow> (level_table \<times> nat option) option" where
  "b2t_movement std t idx = b2t_loop std t (bucket_slots idx)"

text \<open>The loop of \<open>resize\<close> over the slots of the bottom level; a pair without a free slot is dropped.\<close>

fun lv_rehash ::
  "(bytes \<Rightarrow> u64 \<Rightarrow> u64) \<Rightarrow> u64 \<Rightarrow> u64 \<Rightarrow> nat \<Rightarrow> entry list \<Rightarrow> entry list \<Rightarrow> u64 \<Rightarrow> (entry list \<times> u64) option" where
  "lv_rehash std fs ss capacity [] lv n = Some (lv, n)"
| "lv_rehash std fs ss capacity (x # xs) lv n =
     (if fst x = 1 then
        let f_idx = lv_F std fs capacity (pkey (snd x)); s_idx = lv_S std ss capacity (pkey (snd x))
        in do {
          r \<leftarrow> pick (rd lv) (\<lambda>y. fst y = 0) (bucket_slots2 f_idx s_idx);
          case r of None \<Rightarrow> lv_rehash std fs ss capacity xs lv n
          | Some (c, _) \<Rightarrow> do {
              lv' \<leftarrow> wr lv c (1, snd x);
              lv_rehash std fs ss capacity xs lv' (n + 1) } }
      else lv_rehash std fs ss capacity xs lv n)"

definition lv_resize :: "(bytes \<Rightarrow> u64 \<Rightarrow> u64) \<Rightarrow> (nat \<Rightarrow> nat \<Rightarrow> u8) \<Rightarrow> level_table \<Rightarrow> level_table option" where
  "lv_resize std junk t =
     (let l = lv_levels t + 1; capacity = 2 ^ l in
      if \<not> lv_levels_ok l then None
      else do {
        top \<leftarrow> rd (lv_buckets t) 0;
        bottom \<leftarrow> rd (lv_buckets t) 1;
        top_num \<leftarrow> rd (level_item_num t) 0;
        (lv, n) \<leftarrow> lv_rehash std (lv_f_seed t) (lv_s_seed t) capacity bottom (new_nodes junk capacity) 0;
        Some (t\<lparr>lv_buckets := [lv, top], level_item_num := [n, top_num], lv_levels := l,
          lv_addr_capacity := capacity, lv_total_capacity := 2 ^ l + 2 ^ (l - 1),
          resize_num := resize_num t + 1\<rparr>) })"

text \<open>The search of \<open>Insert\<close> for a free slot: both levels, the two buckets in turn.\<close>

definition insert_cells :: "(bytes \<Rightarrow> u64 \<Rightarrow> u64) \<Rightarrow> level_table \<Rightarrow> Key_t \<Rightarrow> (nat \<times> nat) list" where
  "insert_cells std t key = concat (map (\<lambda>i. map (Pair i) (bucket_slots2 (lv_f_idx std t i key) (lv_s_idx std t i key))) [0, 1])"

text \<open>The four attempts to move a pair inside its level, in order.\<close>

fun try_movements ::
  "(bytes \<Rightarrow> u64 \<Rightarrow> u64) \<Rightarrow> level_table \<Rightarrow> Pair \<Rightarrow> (nat \<times> nat) list \<Rightarrow> (level_table \<times> bool) option" where
  "try_movements std t p [] = Some (t, False)"
| "try_movements std t p ((idx, lev) # is) = do {
     (t', stored) \<leftarrow> try_movement std t idx lev p;
     if stored then Some (t', True) else try_movements std t' p is }"

definition movements :: "(bytes \<Rightarrow> u64 \<Rightarrow> u64) \<Rightarrow> level_table \<Rightarrow> Key_t \<Rightarrow> (nat \<times> nat) list" where
  "movements std t key = [(lv_f_idx std t 0 key, 0), (lv_s_idx std t 0 key, 0),
     (lv_f_idx std t 1 key, 1), (lv_s_idx std t 1 key, 1)]"

text \<open>After the first resize: make room in a bucket of the bottom level.\<close>

fun b2t_attempts :: "(bytes \<Rightarrow> u64 \<Rightarrow> u64) \<Rightarrow> level_table \<Rightarrow> Pair \<Rightarrow> nat list \<Rightarrow> (level_table \<times> bool) option" where
  "b2t_attempts std t p [] = Some (t, False)"
| "b2t_attempts std t p (idx # is) = do {
     (t', empty_loc) \<leftarrow> b2t_movement std t idx;
     case empty_loc of None \<Rightarrow> b2t_attempts std t' p is
     | Some c \<Rightarrow> do { t'' \<leftarrow> wrc t' (1, c) (1, p); Some (count_items 1 1 t'', True) } }"

fun lv_Insert ::
  "(bytes \<Rightarrow> u64 \<Rightarrow> u64) \<Rightarrow> (nat \<Rightarrow> nat \<Rightarrow> u8) \<Rightarrow> nat \<Rightarrow> level_table \<Rightarrow> Key_t \<Rightarrow> Value_t \<Rightarrow> level_table option" where
  "lv_Insert std junk 0 t key value = None"
| "lv_Insert std junk (Suc fuel) t key value = (let p = \<lparr>pkey = key, pvalue = value\<rparr> in do {
     r \<leftarrow> pick (rdc t) (\<lambda>y. fst y = 0) (insert_cells std t key);
     case r of Some (c, _) \<Rightarrow> do { t' \<leftarrow> wrc t c (1, p); Some (count_items (fst c) 1 t') }
     | None \<Rightarrow> do {
         (t1, stored) \<leftarrow> try_movements std t p (movements std t key);
         if stored then Some t1
         else do {
           (t2, stored) \<leftarrow> (if 0 < resize_num t1
              then b2t_attempts std t1 p [lv_f_idx std t1 1 key, lv_s_idx std t1 1 key] else Some (t1, False));
           if stored then Some t2
           else do { t3 \<leftarrow> lv_resize std junk t2; lv_Insert std junk fuel t3 key value } } } })"

definition lv_InsertOnly :: "level_table \<Rightarrow> Key_t \<Rightarrow> Value_t \<Rightarrow> bool" where
  "lv_InsertOnly t key value = False"

definition get_cells :: "(bytes \<Rightarrow> u64 \<Rightarrow> u64) \<Rightarrow> level_table \<Rightarrow> Key_t \<Rightarrow> (nat \<times> nat) list" where
  "get_cells std t key = concat (map (\<lambda>i. map (Pair i) (bucket_slots (lv_f_idx std t i key) @ bucket_slots (lv_s_idx std t i key))) [0, 1])"

definition lv_Get :: "(bytes \<Rightarrow> u64 \<Rightarrow> u64) \<Rightarrow> level_table \<Rightarrow> Key_t \<Rightarrow> Value_t option" where
  "lv_Get std t key = do {
     r \<leftarrow> pick (rdc t) (\<lambda>y. fst y = 1 \<and> pkey (snd y) = key) (get_cells std t key);
     Some (case r of None \<Rightarrow> NONE | Some (_, y) \<Rightarrow> pvalue (snd y)) }"

definition lv_Delete :: "level_table \<Rightarrow> Key_t \<Rightarrow> bool" where
  "lv_Delete t key = False"

definition lv_Capacity :: "level_table \<Rightarrow> nat" where
  "lv_Capacity t = (lv_addr_capacity t + lv_addr_capacity t div 2) * ASSOC_NUM"

text \<open>\<open>Utilization\<close> is \<open>100 * lv_used t / (lv_total_capacity t * ASSOC_NUM)\<close>; it looks at the keys, not at the tokens.\<close>

definition lv_used :: "level_table \<Rightarrow> nat" where
  "lv_used t = length (filter (\<lambda>x. pkey (snd x) \<noteq> INVALID) (concat (lv_buckets t)))"

section \<open>Well-formed tables\<close>

definition lvl_ok :: "(bytes \<Rightarrow> u64 \<Rightarrow> u64) \<Rightarrow> u64 \<Rightarrow> u64 \<Rightarrow> nat \<Rightarrow> entry list \<Rightarrow> bool" where
  "lvl_ok std fs ss capacity lv \<longleftrightarrow> length lv = 3 * capacity \<and> (\<forall>c<length lv.
     fst (lv ! c) \<in> {0, 1} \<and>
     (fst (lv ! c) = 1 \<longrightarrow> c div 3 \<in> {lv_F std fs capacity (pkey (snd (lv ! c))), lv_S std ss capacity (pkey (snd (lv ! c)))}))"

definition level_ok :: "(bytes \<Rightarrow> u64 \<Rightarrow> u64) \<Rightarrow> level_table \<Rightarrow> bool" where
  "level_ok std t \<longleftrightarrow> length (lv_buckets t) = 2 \<and> length (level_item_num t) = 2 \<and>
     lv_levels_ok (lv_levels t) \<and> lv_addr_capacity t = 2 ^ lv_levels t \<and>
     (\<forall>i<2. lvl_ok std (lv_f_seed t) (lv_s_seed t) (lv_addr_capacity t div (1 + i)) (lv_buckets t ! i))"

definition ent :: "entry \<Rightarrow> Pair multiset" where
  "ent x = (if fst x = 1 then {#snd x#} else {#})"

definition lvl_live :: "entry list \<Rightarrow> Pair multiset" where
  "lvl_live lv = image_mset snd (filter_mset (\<lambda>x. fst x = 1) (mset lv))"

definition lv_live :: "level_table \<Rightarrow> Pair multiset" where
  "lv_live t = lvl_live (concat (lv_buckets t))"

lemma lvl_live_simps [simp]:
  "lvl_live [] = {#}" "lvl_live (x # xs) = ent x + lvl_live xs" "lvl_live (xs @ ys) = lvl_live xs + lvl_live ys"
  by (simp_all add: lvl_live_def ent_def)

lemma ent_simps [simp]: "ent (0, p) = {#}" "ent (1, p) = {#p#}"
  by (simp_all add: ent_def)

lemma lvl_live_update: "c < length lv \<Longrightarrow> lvl_live (lv[c := x]) + ent (lv ! c) = lvl_live lv + ent x"
proof (induction lv arbitrary: c)
  case (Cons y lv)
  then show ?case by (cases c) (auto simp: ac_simps)
qed simp

lemma lvl_live_mem: "p \<in># lvl_live lv \<longleftrightarrow> (\<exists>c<length lv. lv ! c = (1, p))"
proof -
  have "p \<in># lvl_live lv \<longleftrightarrow> (1, p) \<in> set lv" by (induction lv) (auto simp: ent_def)
  then show ?thesis by (simp add: in_set_conv_nth)
qed

lemma ASSOC_NUM_upt: "[0..<ASSOC_NUM] = [0, 1, 2]"
  by (simp add: ASSOC_NUM_def upt_rec)

lemma div3_cases: "c div 3 = b \<longleftrightarrow> c = 3 * b \<or> c = 3 * b + 1 \<or> c = 3 * b + (2 :: nat)"
  by presburger

lemma slots_mem [simp]: "c \<in> set (bucket_slots b) \<longleftrightarrow> c div 3 = b"
  unfolding div3_cases bucket_slots_def ASSOC_NUM_upt by (simp add: ASSOC_NUM_def)

lemma slots2_mem [simp]: "c \<in> set (bucket_slots2 b b') \<longleftrightarrow> c div 3 = b \<or> c div 3 = b'"
  unfolding div3_cases bucket_slots2_def ASSOC_NUM_upt by (auto simp: ASSOC_NUM_def)

lemma lv_idx_less:
  assumes "2 \<le> cap"
  shows "lv_F std fs cap k < cap" "lv_S std ss cap k < cap"
proof -
  have "0 < cap div 2" using assms by simp
  then have "lv_F std fs cap k < cap div 2" "lv_S std ss cap k < cap div 2 + cap div 2"
    by (simp_all add: lv_F_def lv_S_def)
  then show "lv_F std fs cap k < cap" "lv_S std ss cap k < cap" by linarith+
qed

lemma capacity_at_least:
  assumes "level_ok std t" "i < 2"
  shows "2 \<le> lv_addr_capacity t div (1 + i)"
proof -
  have "(2 :: nat) ^ 2 \<le> 2 ^ lv_levels t"
    using assms(1) by (intro power_increasing) (simp_all add: level_ok_def lv_levels_ok_def)
  then have "4 \<le> lv_addr_capacity t" using assms(1) by (simp add: level_ok_def)
  moreover have "i = 0 \<or> i = 1" using assms(2) by linarith
  ultimately show ?thesis by (elim disjE) (simp_all add: less_eq_div_iff_mult_less_eq)
qed

text \<open>The cells of a key are inside their level.\<close>

definition own :: "(bytes \<Rightarrow> u64 \<Rightarrow> u64) \<Rightarrow> level_table \<Rightarrow> Key_t \<Rightarrow> nat \<times> nat \<Rightarrow> bool" where
  "own std t k c \<longleftrightarrow> fst c < 2 \<and> snd c div 3 \<in> {lv_f_idx std t (fst c) k, lv_s_idx std t (fst c) k}"

lemma own_rdc:
  assumes ok: "level_ok std t" and own: "own std t k c"
  shows "snd c < length (lv_buckets t ! fst c)" "rdc t c = Some (lv_buckets t ! fst c ! snd c)"
    "fst (lv_buckets t ! fst c ! snd c) = 0 \<or> fst (lv_buckets t ! fst c ! snd c) = 1"
proof -
  let ?cap = "lv_addr_capacity t div (1 + fst c)" and ?lv = "lv_buckets t ! fst c"
  have c: "fst c < 2" using own by (simp add: own_def)
  then have lvl: "lvl_ok std (lv_f_seed t) (lv_s_seed t) ?cap ?lv" and two: "length (lv_buckets t) = 2"
    using ok unfolding level_ok_def by blast+
  have "snd c div 3 < ?cap"
    using own lv_idx_less [OF capacity_at_least [OF ok c]] unfolding own_def lv_f_idx_def lv_s_idx_def by auto
  then show len: "snd c < length ?lv" using lvl by (simp add: lvl_ok_def) 
  show "rdc t c = Some (?lv ! snd c)" using len two c by (simp add: rdc_def rd_ok)
  show "fst (?lv ! snd c) = 0 \<or> fst (?lv ! snd c) = 1" using lvl len by (simp add: lvl_ok_def)
qed

lemma insert_cells_own: "c \<in> set (insert_cells std t k) \<longleftrightarrow> own std t k c"
  by (cases c) (auto simp: insert_cells_def own_def less_2_cases_iff)

lemma get_cells_own: "c \<in> set (get_cells std t k) \<longleftrightarrow> own std t k c"
  by (cases c) (auto simp: get_cells_def own_def less_2_cases_iff)

text \<open>What a step may not change.\<close>

definition lv_same_shape :: "level_table \<Rightarrow> level_table \<Rightarrow> bool" where
  "lv_same_shape t t' \<longleftrightarrow> lv_addr_capacity t' = lv_addr_capacity t \<and> lv_f_seed t' = lv_f_seed t \<and>
     lv_s_seed t' = lv_s_seed t \<and> resize_num t' = resize_num t"

lemma lv_same_shape_own: "lv_same_shape t t' \<Longrightarrow> own std t' k c = own std t k c"
  by (simp add: lv_same_shape_def own_def lv_f_idx_def lv_s_idx_def)

lemma lv_same_shape_refl [simp]: "lv_same_shape t t"
  by (simp add: lv_same_shape_def)

lemma lv_same_shape_trans: "lv_same_shape t t' \<Longrightarrow> lv_same_shape t' t'' \<Longrightarrow> lv_same_shape t t''"
  by (simp add: lv_same_shape_def)

lemma count_items_ok [simp]:
  "level_ok std (count_items i n t) = level_ok std t" "lv_live (count_items i n t) = lv_live t"
  "lv_same_shape t0 (count_items i n t) = lv_same_shape t0 t" "rdc (count_items i n t) = rdc t"
  by (simp_all add: count_items_def level_ok_def lv_live_def lv_same_shape_def rdc_def fun_eq_iff)

section \<open>Storing and moving pairs\<close>

lemma lv_live_two: "length (lv_buckets t) = 2 \<Longrightarrow> lv_live t = lvl_live (lv_buckets t ! 0) + lvl_live (lv_buckets t ! 1)"
  by (auto simp: lv_live_def numeral_2_eq_2 length_Suc_conv)

lemma lvl_ok_update:
  assumes "lvl_ok std fs ss cap lv" "fst x = 0 \<or> fst x = 1"
    "fst x = 1 \<Longrightarrow> c div 3 \<in> {lv_F std fs cap (pkey (snd x)), lv_S std ss cap (pkey (snd x))}"
  shows "lvl_ok std fs ss cap (lv[c := x])"
proof -
  have "fst (lv[c := x] ! j) \<in> {0, 1} \<and> (fst (lv[c := x] ! j) = 1 \<longrightarrow>
      j div 3 \<in> {lv_F std fs cap (pkey (snd (lv[c := x] ! j))), lv_S std ss cap (pkey (snd (lv[c := x] ! j)))})"
    if "j < length lv" for j
  proof (cases "j = c")
    case True
    then show ?thesis using assms(2,3) that by auto
  next
    case False
    then show ?thesis using assms(1) that by (simp add: lvl_ok_def)
  qed
  moreover have "length lv = 3 * cap" using assms(1) by (simp add: lvl_ok_def)
  ultimately show ?thesis by (simp add: lvl_ok_def)
qed

text \<open>
  Writing a slot of one of the key's buckets: the table stays well formed, the written pair takes
  the place of what the slot held, and no other slot changes.
\<close>

lemma wrc_ok:
  assumes ok: "level_ok std t" and own: "own std t k c"
    and x: "fst x = 0 \<or> fst x = 1" "fst x = 1 \<Longrightarrow> own std t (pkey (snd x)) c"
  shows "\<exists>t'. wrc t c x = Some t' \<and> level_ok std t' \<and> lv_same_shape t t' \<and>
    (\<forall>d. rdc t' d = (if d = c then Some x else rdc t d)) \<and>
    (\<forall>y. rdc t c = Some y \<longrightarrow> lv_live t' + ent y = lv_live t + ent x)"
proof -
  obtain i j where c: "c = (i, j)" by (cases c)
  let ?lv = "lv_buckets t ! i"
  define t' where "t' = t\<lparr>lv_buckets := (lv_buckets t)[i := ?lv[j := x]]\<rparr>"
  have i: "i < 2" and two: "length (lv_buckets t) = 2" using ok own by (simp_all add: c own_def level_ok_def)
  have j: "j < length ?lv" using own_rdc(1) [OF ok own] by (simp add: c)
  have "wrc t c x = Some t'" using i j two by (simp add: c wrc_def rd_ok wr_ok t'_def)
  moreover have "level_ok std t'"
  proof -
    have "lvl_ok std (lv_f_seed t) (lv_s_seed t) (lv_addr_capacity t div (1 + i)) (?lv[j := x])"
    proof (rule lvl_ok_update [OF _ x(1)])
      show "lvl_ok std (lv_f_seed t) (lv_s_seed t) (lv_addr_capacity t div (1 + i)) ?lv"
        using ok i unfolding level_ok_def by blast
      show "j div 3 \<in> {lv_F std (lv_f_seed t) (lv_addr_capacity t div (1 + i)) (pkey (snd x)),
          lv_S std (lv_s_seed t) (lv_addr_capacity t div (1 + i)) (pkey (snd x))}" if "fst x = 1"
        using x(2) [OF that] by (simp add: c own_def lv_f_idx_def lv_s_idx_def)
    qed
    moreover have "lvl_ok std (lv_f_seed t) (lv_s_seed t) (lv_addr_capacity t div (1 + l)) (lv_buckets t ! l)"
      if "l < 2" for l using ok that unfolding level_ok_def by blast
    ultimately have "lvl_ok std (lv_f_seed t) (lv_s_seed t) (lv_addr_capacity t div (1 + l))
        ((lv_buckets t)[i := ?lv[j := x]] ! l)" if "l < 2" for l
      using two that by (cases "l = i") simp_all
    then show ?thesis using ok unfolding level_ok_def t'_def by simp
  qed
  moreover have "lv_same_shape t t'" by (simp add: t'_def lv_same_shape_def)
  moreover have "rdc t' d = (if d = c then Some x else rdc t d)" for d
    using i j two by (cases d) (auto simp: c rdc_def rd_def t'_def nth_list_update)
  moreover have "lv_live t' + ent y = lv_live t + ent x" if "rdc t c = Some y" for y
  proof -
    have y: "y = ?lv ! j" using that i j two by (simp add: c rdc_def rd_ok)
    have "lvl_live (?lv[j := x]) + ent y = lvl_live ?lv + ent x" using lvl_live_update [OF j] y by simp
    moreover have "lv_live t' = (if i = 0 then lvl_live (?lv[j := x]) + lvl_live (lv_buckets t ! 1)
        else lvl_live (lv_buckets t ! 0) + lvl_live (?lv[j := x]))"
      using i two by (auto simp: lv_live_two t'_def less_2_cases_iff)
    ultimately show ?thesis using i two by (auto simp: lv_live_two less_2_cases_iff ac_simps)
  qed
  ultimately show ?thesis by blast
qed

text \<open>Storing into a free slot.\<close>

lemma wrc_store:
  assumes "level_ok std t" "own std t (pkey p) c" "rdc t c = Some y" "fst y = 0"
  shows "\<exists>t'. wrc t c (1, p) = Some t' \<and> level_ok std t' \<and> lv_same_shape t t' \<and>
    (\<forall>d. rdc t' d = (if d = c then Some (1, p) else rdc t d)) \<and> lv_live t' = add_mset p (lv_live t)"
  using wrc_ok [OF assms(1,2), of "(1, p)"] assms(2-4) by (auto simp: ent_def)

text \<open>Moving a pair from a full slot to a free one of its own, and leaving the first slot free.\<close>

lemma wrc_move:
  assumes ok: "level_ok std t" and c: "own std t k c" "rdc t c = Some x" "fst x = 1"
    and d: "own std t (pkey (snd x)) d" "rdc t d = Some y" "fst y = 0"
  shows "\<exists>t1 t2. wrc t d (1, snd x) = Some t1 \<and> wrc t1 c (0, snd x) = Some t2 \<and> level_ok std t2 \<and> lv_same_shape t t2 \<and>
    rdc t2 c = Some (0, snd x) \<and> lv_live t2 = lv_live t"
proof -
  have "c \<noteq> d" using c(2,3) d(2,3) by auto
  with wrc_store [OF ok d] obtain t1 where t1: "wrc t d (1, snd x) = Some t1" "level_ok std t1" "lv_same_shape t t1"
    "rdc t1 c = rdc t c" "lv_live t1 = add_mset (snd x) (lv_live t)" by metis
  have own: "own std t1 k c" using c(1) lv_same_shape_own [OF t1(3)] by simp
  obtain t2 where t2: "wrc t1 c (0, snd x) = Some t2" "level_ok std t2" "lv_same_shape t1 t2"
    "rdc t2 c = Some (0, snd x)" "lv_live t2 + ent x = lv_live t1 + ent (0, snd x)"
    using wrc_ok [OF t1(2) own, of "(0, snd x)"] c(2) unfolding t1(4) [symmetric] by (metis fst_conv zero_neq_one)
  then have "lv_live t2 = lv_live t" using t1(5) c(3) by (simp add: ent_def)
  with t1(1) t2 lv_same_shape_trans [OF t1(3) t2(3)] show ?thesis by blast
qed

text \<open>Every slot of the key is taken.\<close>

definition lv_full :: "(bytes \<Rightarrow> u64 \<Rightarrow> u64) \<Rightarrow> level_table \<Rightarrow> Key_t \<Rightarrow> bool" where
  "lv_full std t k \<longleftrightarrow> (\<forall>c x. own std t k c \<and> rdc t c = Some x \<longrightarrow> fst x = 1)"

lemma own_readable: "level_ok std t \<Longrightarrow> \<forall>c\<in>set cs. own std t k c \<Longrightarrow> readable (rdc t) cs"
  using own_rdc(2) unfolding readable_def by blast

lemma try_loop_ok:
  assumes ok: "level_ok std t" and full: "lv_full std t (pkey p)"
    and cs: "\<forall>c\<in>set cs. own std t (pkey p) (lev, c)" and lev: "lev < 2"
  shows "try_loop std t lev idx p cs = Some (t, False) \<or>
    (\<exists>t'. try_loop std t lev idx p cs = Some (t', True) \<and> level_ok std t' \<and> lv_live t' = add_mset p (lv_live t))"
  using cs
proof (induction cs)
  case (Cons c cs)
  have own: "own std t (pkey p) (lev, c)" using Cons.prems by simp
  obtain x where x: "rdc t (lev, c) = Some x" "fst x = 1"
    using own_rdc(2) [OF ok own] full own unfolding lv_full_def by blast
  define jdx where "jdx = (if lv_f_idx std t lev (pkey (snd x)) = idx then lv_s_idx std t lev (pkey (snd x))
    else lv_f_idx std t lev (pkey (snd x)))"
  let ?ds = "map (Pair lev) (bucket_slots jdx)"
  have ds: "\<forall>d\<in>set ?ds. own std t (pkey (snd x)) d" using lev by (auto simp: own_def jdx_def)
  from own_readable [OF ok ds] show ?case
  proof (cases rule: pick_cases [where P = "\<lambda>y. fst y = 0"])
    case (found d y)
    from wrc_move [OF ok own x] ds found obtain t1 t2 where t2: "wrc t d (1, snd x) = Some t1"
      "wrc t1 (lev, c) (0, snd x) = Some t2" "level_ok std t2" "lv_same_shape t t2"
      "rdc t2 (lev, c) = Some (0, snd x)" "lv_live t2 = lv_live t" by blast
    have "own std t2 (pkey p) (lev, c)" using own lv_same_shape_own [OF t2(4)] by simp
    from wrc_store [OF t2(3) this t2(5)] obtain t3 where "wrc t2 (lev, c) (1, p) = Some t3" "level_ok std t3"
      "lv_live t3 = add_mset p (lv_live t)" using t2(6) by auto
    then show ?thesis using x(1) t2(1,2) found(1) by (simp add: Let_def jdx_def [symmetric])
  next
    case none
    then show ?thesis using x(1) Cons by (simp add: Let_def jdx_def [symmetric])
  qed
qed simp

lemma try_movements_ok:
  assumes ok: "level_ok std t" and full: "lv_full std t (pkey p)"
    and own: "\<forall>(idx, lev)\<in>set is. lev < 2 \<and> (\<forall>c. c div 3 = idx \<longrightarrow> own std t (pkey p) (lev, c))"
  shows "try_movements std t p is = Some (t, False) \<or>
    (\<exists>t'. try_movements std t p is = Some (t', True) \<and> level_ok std t' \<and> lv_live t' = add_mset p (lv_live t))"
  using own
proof (induction "is")
  case (Cons m "is")
  obtain idx lev where m: "m = (idx, lev)" by (cases m)
  have "try_movement std t idx lev p = Some (t, False) \<or>
    (\<exists>t'. try_movement std t idx lev p = Some (t', True) \<and> level_ok std t' \<and> lv_live t' = add_mset p (lv_live t))"
    unfolding try_movement_def by (rule try_loop_ok [OF ok full]) (use Cons.prems m in auto)
  then show ?case using Cons m by auto
qed simp

lemma b2t_loop_ok:
  assumes ok: "level_ok std t" and full: "lv_full std t k" and cs: "\<forall>c\<in>set cs. own std t k (1, c)"
  shows "b2t_loop std t cs = Some (t, None) \<or>
    (\<exists>t' c. b2t_loop std t cs = Some (t', Some c) \<and> c \<in> set cs \<and> level_ok std t' \<and> lv_same_shape t t' \<and>
       lv_live t' = lv_live t \<and> (\<exists>y. rdc t' (1, c) = Some y \<and> fst y = 0))"
  using cs
proof (induction cs)
  case (Cons c cs)
  have own: "own std t k (1, c)" using Cons.prems by simp
  obtain x where x: "rdc t (1, c) = Some x" "fst x = 1"
    using own_rdc(2) [OF ok own] full own unfolding lv_full_def by blast
  let ?ds = "map (Pair 0) (bucket_slots2 (lv_f_idx std t 0 (pkey (snd x))) (lv_s_idx std t 0 (pkey (snd x))))"
  have ds: "\<forall>d\<in>set ?ds. own std t (pkey (snd x)) d" by (auto simp: own_def)
  from own_readable [OF ok ds] show ?case
  proof (cases rule: pick_cases [where P = "\<lambda>y. fst y = 0"])
    case (found d y)
    from wrc_move [OF ok own x] ds found obtain t1 t2 where t2: "wrc t d (1, snd x) = Some t1"
      "wrc t1 (1, c) (0, snd x) = Some t2" "level_ok std t2" "lv_same_shape t t2"
      "rdc t2 (1, c) = Some (0, snd x)" "lv_live t2 = lv_live t" by blast
    then have "b2t_loop std t (c # cs) = Some (count_items 1 (- 1) (count_items 0 1 t2), Some c)"
      using x(1) found(1) by (simp add: Let_def)
    then show ?thesis using t2(3-6) by simp
  next
    case none
    then have "b2t_loop std t (c # cs) = b2t_loop std t cs" using x(1) by (simp add: Let_def)
    then show ?thesis using Cons by auto
  qed
qed simp

lemma b2t_attempts_ok:
  assumes ok: "level_ok std t" and full: "lv_full std t (pkey p)"
    and own: "\<forall>idx\<in>set is. \<forall>c. c div 3 = idx \<longrightarrow> own std t (pkey p) (1, c)"
  shows "b2t_attempts std t p is = Some (t, False) \<or>
    (\<exists>t'. b2t_attempts std t p is = Some (t', True) \<and> level_ok std t' \<and> lv_live t' = add_mset p (lv_live t))"
  using own
proof (induction "is")
  case (Cons idx "is")
  have "b2t_movement std t idx = Some (t, None) \<or>
    (\<exists>t' c. b2t_movement std t idx = Some (t', Some c) \<and> c \<in> set (bucket_slots idx) \<and> level_ok std t' \<and>
       lv_same_shape t t' \<and> lv_live t' = lv_live t \<and> (\<exists>y. rdc t' (1, c) = Some y \<and> fst y = 0))"
    unfolding b2t_movement_def by (rule b2t_loop_ok [OF ok full]) (use Cons.prems in auto)
  then show ?case
  proof
    assume "b2t_movement std t idx = Some (t, None)"
    then show ?thesis using Cons by simp
  next
    assume "\<exists>t' c. b2t_movement std t idx = Some (t', Some c) \<and> c \<in> set (bucket_slots idx) \<and> level_ok std t' \<and>
       lv_same_shape t t' \<and> lv_live t' = lv_live t \<and> (\<exists>y. rdc t' (1, c) = Some y \<and> fst y = 0)"
    then obtain t' c y where t': "b2t_movement std t idx = Some (t', Some c)" "c div 3 = idx" "level_ok std t'"
      "lv_same_shape t t'" "lv_live t' = lv_live t" "rdc t' (1, c) = Some y" "fst y = 0" by auto
    have "own std t' (pkey p) (1, c)" using Cons.prems t'(2) lv_same_shape_own [OF t'(4)] by simp
    from wrc_store [OF t'(3) this t'(6,7)] obtain t'' where "wrc t' (1, c) (1, p) = Some t''" "level_ok std t''"
      "lv_live t'' = add_mset p (lv_live t)" using t'(5) by auto
    then show ?thesis using t'(1) by simp
  qed
qed simp

section \<open>Resizing\<close>

definition zeroed :: "(nat \<Rightarrow> nat \<Rightarrow> u8) \<Rightarrow> bool" where
  "zeroed junk \<longleftrightarrow> (\<forall>n j. junk n j = 0)"

lemma new_nodes_ok:
  assumes "zeroed junk"
  shows "lvl_ok std fs ss n (new_nodes junk n)" "lvl_live (new_nodes junk n) = {#}"
  using assms by (auto simp: zeroed_def new_nodes_def ASSOC_NUM_def lvl_ok_def lvl_live_def filter_mset_eq_conv)

text \<open>Rehashing the bottom level never faults and invents no pair.\<close>

lemma lv_rehash_ok:
  assumes "2 \<le> cap" "lvl_ok std fs ss cap lv"
  shows "\<exists>lv' n'. lv_rehash std fs ss cap xs lv n = Some (lv', n') \<and> lvl_ok std fs ss cap lv' \<and>
    lvl_live lv' \<subseteq># lvl_live xs + lvl_live lv"
  using assms(2)
proof (induction xs arbitrary: lv n)
  case (Cons x xs)
  show ?case
  proof (cases "fst x = 1")
    case True
    let ?k = "pkey (snd x)"
    let ?cs = "bucket_slots2 (lv_F std fs cap ?k) (lv_S std ss cap ?k)"
    have len: "c < length lv" if "c \<in> set ?cs" for c
    proof -
      have "c div 3 < cap" using that lv_idx_less [OF assms(1)] by auto
      then show ?thesis using Cons.prems by (simp add: lvl_ok_def)
    qed
    have "readable (rd lv) ?cs" using len unfolding readable_def by (simp add: rd_def)
    then show ?thesis
    proof (cases rule: pick_cases [where P = "\<lambda>y. fst y = 0"])
      case (found c y)
      have c: "c < length lv" "lv ! c = y" using rd_SomeD [OF found(3)] by simp_all
      have lv: "lvl_ok std fs ss cap (lv[c := (1, snd x)])"
        by (rule lvl_ok_update [OF Cons.prems]) (use found(2) in auto)
      have "ent y = {#}" using found(4) by (simp add: ent_def)
      then have "lvl_live (lv[c := (1, snd x)]) = add_mset (snd x) (lvl_live lv)"
        using lvl_live_update [OF c(1), of "(1, snd x)"] c(2) by simp
      then show ?thesis using Cons.IH [OF lv, of "n + 1"] True c(1) found(1)
        by (auto simp: Let_def wr_ok ent_def)
    next
      case none
      obtain lv' n' where "lv_rehash std fs ss cap xs lv n = Some (lv', n')" "lvl_ok std fs ss cap lv'"
        "lvl_live lv' \<subseteq># lvl_live xs + lvl_live lv" using Cons.IH [OF Cons.prems] by blast
      then show ?thesis using True none(1)
        by (auto simp: Let_def ent_def intro: subset_mset.order_trans)
    qed
  next
    case False
    then show ?thesis using Cons by (simp add: ent_def)
  qed
qed simp

lemma lv_resize_ok:
  assumes ok: "level_ok std t" and junk: "zeroed junk" and r: "lv_resize std junk t = Some t'"
  shows "level_ok std t' \<and> lv_live t' \<subseteq># lv_live t"
proof -
  let ?l = "lv_levels t + 1" and ?top = "lv_buckets t ! 0" and ?bottom = "lv_buckets t ! 1"
  let ?cap = "2 ^ ?l :: nat"
  have two: "length (lv_buckets t) = 2" "length (level_item_num t) = 2" "lv_addr_capacity t = 2 ^ lv_levels t"
    "lv_levels_ok (lv_levels t)" using ok by (simp_all add: level_ok_def)
  have top: "lvl_ok std (lv_f_seed t) (lv_s_seed t) (lv_addr_capacity t div (1 + 0)) ?top"
    using ok unfolding level_ok_def by (metis zero_less_numeral)
  have l: "lv_levels_ok ?l" using r by (auto simp: lv_resize_def Let_def split: if_splits)
  have "2 \<le> ?cap" by simp
  from lv_rehash_ok [OF this new_nodes_ok(1) [OF junk], of std "lv_f_seed t" "lv_s_seed t" ?bottom 0]
  obtain lv n where lv: "lv_rehash std (lv_f_seed t) (lv_s_seed t) ?cap ?bottom (new_nodes junk ?cap) 0 = Some (lv, n)"
    "lvl_ok std (lv_f_seed t) (lv_s_seed t) ?cap lv" "lvl_live lv \<subseteq># lvl_live ?bottom"
    using new_nodes_ok(2) [OF junk] by auto
  have t': "t' = t\<lparr>lv_buckets := [lv, ?top], level_item_num := [n, level_item_num t ! 0], lv_levels := ?l,
      lv_addr_capacity := ?cap, lv_total_capacity := 2 ^ ?l + 2 ^ (?l - 1), resize_num := resize_num t + 1\<rparr>"
    using r l lv(1) two(1,2) by (simp add: lv_resize_def Let_def rd_ok)
  have "lvl_ok std (lv_f_seed t) (lv_s_seed t) (?cap div (1 + i)) ([lv, ?top] ! i)" if "i < 2" for i
    using that lv(2) top two(3) by (auto simp: less_2_cases_iff simp flip: numeral_2_eq_2)
  then have "level_ok std t'" using l by (simp add: t' level_ok_def)
  moreover have "lv_live t' \<subseteq># lv_live t" 
    unfolding lv_live_two [OF two(1)] using lv(3) by (simp add: t' lv_live_def add.commute)
  ultimately show ?thesis by blast
qed
section \<open>Insert and Get\<close>

lemma movements_own:
  "\<forall>(idx, lev)\<in>set (movements std t k). lev < 2 \<and> (\<forall>c. c div 3 = idx \<longrightarrow> own std t k (lev, c))"
  by (auto simp: movements_def own_def)

text \<open>One turn of \<open>Insert\<close>: either it stores the pair and keeps all others, or it resizes and tries again.\<close>

lemma lv_Insert_turn:
  fixes fuel :: nat
  assumes ok: "level_ok std t"
  shows "(\<exists>t'. lv_Insert std junk (Suc fuel) t key v = Some t' \<and> level_ok std t' \<and>
       lv_live t' = add_mset \<lparr>pkey = key, pvalue = v\<rparr> (lv_live t)) \<or>
    (lv_full std t key \<and> lv_Insert std junk (Suc fuel) t key v =
       do { t' \<leftarrow> lv_resize std junk t; lv_Insert std junk fuel t' key v })"
proof -
  let ?p = "\<lparr>pkey = key, pvalue = v\<rparr>"
  have "\<forall>c\<in>set (insert_cells std t key). own std t key c" by (simp add: insert_cells_own)
  from own_readable [OF ok this] show ?thesis
  proof (cases rule: pick_cases [where P = "\<lambda>y. fst y = 0"])
    case (found c y)
    have "own std t (pkey ?p) c" using found(2) by (simp add: insert_cells_own)
    from wrc_store [OF ok this found(3,4)] show ?thesis using found(1) by (auto simp: Let_def)
  next
    case none
    have full: "lv_full std t key" unfolding lv_full_def
    proof (intro allI impI, elim conjE)
      fix c x assume c: "own std t key c" "rdc t c = Some x"
      then have "fst x \<noteq> 0" using none(2) by (simp add: insert_cells_own)
      then show "fst x = 1" using own_rdc(2,3) [OF ok c(1)] c(2) by auto
    qed
    have "try_movements std t ?p (movements std t key) = Some (t, False) \<or>
      (\<exists>t'. try_movements std t ?p (movements std t key) = Some (t', True) \<and> level_ok std t' \<and>
         lv_live t' = add_mset ?p (lv_live t))"
      by (rule try_movements_ok [OF ok]) (use full movements_own in auto)
    then show ?thesis
    proof
      assume moves: "try_movements std t ?p (movements std t key) = Some (t, False)"
      let ?is = "[lv_f_idx std t 1 key, lv_s_idx std t 1 key]"
      have "b2t_attempts std t ?p ?is = Some (t, False) \<or>
        (\<exists>t'. b2t_attempts std t ?p ?is = Some (t', True) \<and> level_ok std t' \<and> lv_live t' = add_mset ?p (lv_live t))"
        by (rule b2t_attempts_ok [OF ok]) (use full in \<open>auto simp: own_def\<close>)
      then show ?thesis using none(1) moves full
        by (cases "0 < resize_num t") (auto simp: Let_def simp del: b2t_attempts.simps)
    next
      assume "\<exists>t'. try_movements std t ?p (movements std t key) = Some (t', True) \<and> level_ok std t' \<and>
         lv_live t' = add_mset ?p (lv_live t)"
      then show ?thesis using none(1) by (auto simp: Let_def)
    qed
  qed
qed

lemma lv_Insert_ok:
  assumes junk: "zeroed junk"
  shows "level_ok std t \<Longrightarrow> lv_Insert std junk fuel t key v = Some t' \<Longrightarrow>
    level_ok std t' \<and> (\<exists>m. m \<subseteq># lv_live t \<and> lv_live t' = add_mset \<lparr>pkey = key, pvalue = v\<rparr> m \<and>
      (fuel = 1 \<longrightarrow> m = lv_live t))"
proof (induction fuel arbitrary: t)
  case (Suc fuel)
  from lv_Insert_turn [OF Suc.prems(1), of junk fuel key v] show ?case
  proof (elim disjE exE conjE)
    fix t1 assume "lv_Insert std junk (Suc fuel) t key v = Some t1" "level_ok std t1"
      "lv_live t1 = add_mset \<lparr>pkey = key, pvalue = v\<rparr> (lv_live t)"
    then show ?thesis using Suc.prems(2) by auto
  next
    assume "lv_Insert std junk (Suc fuel) t key v =
       do { t' \<leftarrow> lv_resize std junk t; lv_Insert std junk fuel t' key v }"
    with Suc.prems(2) obtain t1 where t1: "lv_resize std junk t = Some t1" "lv_Insert std junk fuel t1 key v = Some t'"
      by (cases "lv_resize std junk t") auto
    then have "fuel \<noteq> 0" by (cases fuel) simp_all
    with lv_resize_ok [OF Suc.prems(1) junk t1(1)] Suc.IH [OF _ t1(2)] show ?thesis
      by (auto intro: subset_mset.order_trans)
  qed
qed simp

lemma lv_Get_unique:
  assumes ok: "level_ok std t" and p: "p \<in># lv_live t"
    and unique: "\<forall>q\<in>#lv_live t. pkey q = pkey p \<longrightarrow> q = p"
  shows "lv_Get std t (pkey p) = Some (pvalue p)"
proof -
  let ?P = "\<lambda>y. fst y = 1 \<and> pkey (snd y) = pkey p"
  have two: "length (lv_buckets t) = 2" using ok by (simp add: level_ok_def)
  have mem: "q \<in># lv_live t" if "own std t k c" "rdc t c = Some y" "fst y = 1" "snd y = q" for k c y q
  proof -
    have "fst c < 2" using that(1) by (simp add: own_def)
    moreover have "q \<in># lvl_live (lv_buckets t ! fst c)"
      unfolding lvl_live_mem using own_rdc(1,2) [OF ok that(1)] that(2-4)
      by (intro exI [of _ "snd c"]) (cases y, auto simp: prod_eq_iff)
    ultimately show ?thesis using two by (auto simp: lv_live_two less_2_cases_iff)
  qed
  obtain i where i: "i < 2" "p \<in># lvl_live (lv_buckets t ! i)"
    using p two by (force simp: lv_live_two less_2_cases_iff)
  then obtain j where j: "j < length (lv_buckets t ! i)" "lv_buckets t ! i ! j = (1, p)" by (auto simp: lvl_live_mem)
  have "lvl_ok std (lv_f_seed t) (lv_s_seed t) (lv_addr_capacity t div (1 + i)) (lv_buckets t ! i)"
    using ok i(1) unfolding level_ok_def by blast
  then have own: "own std t (pkey p) (i, j)"
    using i(1) j unfolding lvl_ok_def own_def lv_f_idx_def lv_s_idx_def by fastforce
  have cells: "\<forall>c\<in>set (get_cells std t (pkey p)). own std t (pkey p) c" by (simp add: get_cells_own)
  from own_readable [OF ok this]
  have "\<exists>c. pick (rdc t) ?P (get_cells std t (pkey p)) = Some (Some (c, (1, p)))"
  proof (cases rule: pick_cases [where P = ?P])
    case (found c y)
    have "own std t (pkey p) c" using cells found(2) by blast
    then have "snd y = p" using mem [OF _ found(3)] unique found(4) by blast
    then have "y = (1, p)" using found(4) by (cases y) simp
    then show ?thesis using found(1) by blast
  next
    case none
    have "rdc t (i, j) = Some (1, p)" using own_rdc(2) [OF ok own] j by simp
    then show ?thesis using none(2) [of "(i, j)"] own by (auto simp: get_cells_own)
  qed
  then show ?thesis by (auto simp: lv_Get_def)
qed



end
