(* ===== verification/Static_Hash.thy ===== *)
theory Static_Hash
  imports Extents
begin

text \<open>
  \<^verbatim>\<open>HashTable\<close> (\<^verbatim>\<open>server/src/static_hash.cpp\<close>): an array of pairs, one slot per key, no probing. The
  semaphore of the class is that of the segment lock. \<open>None\<close> is undefined behaviour or a loop that
  does not end; output to the console is left out.
\<close>

section \<open>State and operations\<close>

record htable =
  hashSize :: u64
  bucket :: "Pair list"

definition HashTable :: "u64 \<Rightarrow> htable" where
  "HashTable sz = \<lparr>hashSize = sz, bucket = replicate (unat sz) fresh_pair\<rparr>"

text \<open>\<^verbatim>\<open>int hKey = key % hashSize\<close>\<close>

definition hKey :: "htable \<Rightarrow> Key_t \<Rightarrow> nat option" where
  "hKey t key =
     (if hashSize t = 0 then None
      else let i = sint (ucast (key mod hashSize t) :: u32) in if i < 0 then None else Some (nat i))"

definition st_Get :: "htable \<Rightarrow> Key_t \<Rightarrow> Value_t option" where
  "st_Get t key = do {
     i \<leftarrow> hKey t key;
     p \<leftarrow> rd (bucket t) i;
     Some (if pkey p = key then pvalue p else NONE) }"

definition st_Insert :: "htable \<Rightarrow> Key_t \<Rightarrow> Value_t \<Rightarrow> htable option" where
  "st_Insert t key value = do {
     i \<leftarrow> hKey t key;
     ret \<leftarrow> st_Get t key;
     if ret \<noteq> NONE then Some t
     else do {
       p \<leftarrow> rd (bucket t) i;
       if pkey p = INVALID then do {
         b \<leftarrow> wr (bucket t) i \<lparr>pkey = key, pvalue = value\<rparr>;
         Some (t\<lparr>bucket := b\<rparr>) }
       else Some t } }"

text \<open>A deleted slot gets the key \<^verbatim>\<open>-INVALID\<close> and keeps its value.\<close>

definition st_Delete :: "htable \<Rightarrow> Key_t \<Rightarrow> (htable \<times> bool) option" where
  "st_Delete t key = do {
     i \<leftarrow> hKey t key;
     p \<leftarrow> rd (bucket t) i;
     if pkey p = key then do {
       b \<leftarrow> wr (bucket t) i (p\<lparr>pkey := - INVALID\<rparr>);
       Some (t\<lparr>bucket := b\<rparr>, True) }
     else Some (t, False) }"

text \<open>The pair written for every piece of the extent has \<open>key\<close>, not the key of the piece.\<close>

function st_Insert_extent :: "htable \<Rightarrow> Key_t \<Rightarrow> u64 \<Rightarrow> u64 \<Rightarrow> Value_t \<Rightarrow> htable option" where
  "st_Insert_extent t key cluster_num len value =
     (if len = 0 then Some t
      else let current_key = key + cluster_num in
        if hashSize t = 0 then None
        else do {
          b \<leftarrow> wr (bucket t) (unat (current_key mod hashSize t)) \<lparr>pkey = key, pvalue = value\<rparr>;
          if len = 1 then Some (t\<lparr>bucket := b\<rparr>)
          else do {
            n \<leftarrow> subextent current_key len;
            st_Insert_extent (t\<lparr>bucket := b\<rparr>) key (cluster_num + n) (len - n) value } })"
  by pat_completeness auto
termination
  by (relation "measure (\<lambda>(t, key, cluster_num, len, value). unat len)") (auto intro: subextent_decreases)

declare st_Insert_extent.simps [simp del]

text \<open>
  The loop of \<open>Get_extent\<close>: it looks at nothing it reads, and ends when \<open>current_key\<close> becomes zero;
  \<open>s\<close> is \<^verbatim>\<open>ffs(key)\<close>. A shift by 32 is undefined.
\<close>

fun st_extent_loop :: "nat \<Rightarrow> htable \<Rightarrow> u32 \<Rightarrow> nat \<Rightarrow> Key_t \<Rightarrow> Value_t option" where
  "st_extent_loop 0 t msk s current_key = None"
| "st_extent_loop (Suc fuel) t msk s current_key =
     (if hashSize t = 0 then None
      else do {
        _ \<leftarrow> rd (bucket t) (unat (current_key mod hashSize t));
        if current_key = 0 then Some NONE
        else if 32 \<le> s then None
        else st_extent_loop fuel t msk s (and current_key (ucast (and (push_bit s msk) msk))) })"

definition st_Get_extent :: "nat \<Rightarrow> htable \<Rightarrow> Key_t \<Rightarrow> u64 \<Rightarrow> Value_t option" where
  "st_Get_extent fuel t key cluster_num = do {
     n \<leftarrow> low_bit (key + cluster_num);
     st_extent_loop fuel t (push_bit n 1) (case low_bit key of None \<Rightarrow> 0 | Some m \<Rightarrow> m + 1) (key + cluster_num) }"

text \<open>The loop of \<open>Utilization\<close> counts \<open>cnt\<close> and not \<open>i\<close>.\<close>

fun st_util_loop :: "nat \<Rightarrow> htable \<Rightarrow> nat \<Rightarrow> nat \<Rightarrow> nat \<Rightarrow> (nat \<times> nat) option" where
  "st_util_loop 0 t i cnt used = None"
| "st_util_loop (Suc fuel) t i cnt used =
     (if i < unat (hashSize t) then do {
        p \<leftarrow> rd (bucket t) i;
        st_util_loop fuel t i (cnt + 1) (if pkey p \<noteq> INVALID then used + 1 else used) }
      else Some (cnt, used))"

definition st_Utilization :: "nat \<Rightarrow> htable \<Rightarrow> (nat \<times> nat) option" where
  "st_Utilization fuel t = st_util_loop fuel t 0 0 0"

definition st_Capacity :: "htable \<Rightarrow> u64" where
  "st_Capacity t = hashSize t"

definition st_FindAnyway :: "htable \<Rightarrow> Key_t \<Rightarrow> Value_t" where
  "st_FindAnyway t key = (case find (\<lambda>p. pkey p = key) (bucket t) of None \<Rightarrow> NONE | Some p \<Rightarrow> pvalue p)"

section \<open>Properties\<close>

definition st_ok :: "htable \<Rightarrow> bool" where
  "st_ok t \<longleftrightarrow> hashSize t \<noteq> 0 \<and> unat (hashSize t) \<le> 2 ^ 31 \<and> length (bucket t) = unat (hashSize t)"

definition st_slot :: "htable \<Rightarrow> Key_t \<Rightarrow> nat" where
  "st_slot t key = unat (key mod hashSize t)"

lemma st_slot_less: "st_ok t \<Longrightarrow> st_slot t key < length (bucket t)"
  by (simp add: st_ok_def st_slot_def unat_mod word_gt_0_no unat_gt_0)

lemma hKey_slot:
  assumes "st_ok t"
  shows "hKey t key = Some (st_slot t key)"
proof -
  let ?w = "key mod hashSize t"
  have less: "unat ?w < 2 ^ 31" using st_slot_less [OF assms, of key] assms by (simp add: st_ok_def st_slot_def)
  then have u: "unat (ucast ?w :: u32) = unat ?w" by (intro unat_ucast_u64_u32) simp
  have "sint (ucast ?w :: u32) = int (unat ?w)"
  proof -
    have "uint (ucast ?w :: u32) = int (unat ?w)" unfolding uint_nat u ..
    moreover have "int (unat ?w) < 2 ^ 31"
      unfolding of_nat_less_numeral_power_cancel_iff by (rule less)
    ultimately show ?thesis unfolding sint_uint by (simp add: signed_take_bit_int_eq_self del: of_nat_unat)
  qed
  then show ?thesis using assms by (simp add: hKey_def st_ok_def st_slot_def Let_def)
qed

lemma st_Get_slot:
  "st_ok t \<Longrightarrow> st_Get t key = Some (let p = bucket t ! st_slot t key in if pkey p = key then pvalue p else NONE)"
  by (simp add: st_Get_def hKey_slot rd_ok st_slot_less Let_def)

lemma st_update:
  assumes "st_ok t"
  shows "st_ok (t\<lparr>bucket := (bucket t)[i := p]\<rparr>)" "st_slot (t\<lparr>bucket := b\<rparr>) = st_slot t"
  using assms by (simp_all add: st_ok_def st_slot_def fun_eq_iff)

text \<open>\<open>Utilization\<close> of a table that is not empty does not return.\<close>

lemma st_Utilization_diverges: "st_ok t \<Longrightarrow> st_Utilization fuel t = None"
proof -
  assume ok: "st_ok t"
  have "st_util_loop fuel t 0 cnt used = None" for cnt used
  proof (induction fuel arbitrary: cnt used)
    case (Suc fuel)
    then show ?case using ok by (simp add: st_ok_def rd_ok unat_gt_0)
  qed simp
  then show ?thesis by (simp add: st_Utilization_def)
qed

text \<open>\<open>Get_extent\<close> never finds anything: it returns \<open>NONE\<close> or it does not return.\<close>

lemma st_Get_extent_nothing: "st_Get_extent fuel t key cluster_num = Some v \<Longrightarrow> v = NONE"
proof -
  have "st_extent_loop fuel t msk s k = Some v \<Longrightarrow> v = NONE" for msk s k
    by (induction fuel t msk s k rule: st_extent_loop.induct) (auto split: if_splits bind_splits)
  then show "st_Get_extent fuel t key cluster_num = Some v \<Longrightarrow> v = NONE"
    by (auto simp: st_Get_extent_def split: bind_splits)
qed

text \<open>
  Inserting a value under a key that is not in the table stores it when the key's slot is free,
  and then \<open>Get\<close> returns it; when another key has the slot, the table stays as it is. No lookup of
  another key changes.
\<close>

lemma static_insert_get:
  assumes "st_ok t" "key \<noteq> INVALID" "st_Get t key = Some NONE"
  shows "\<exists>t'. st_Insert t key v = Some t' \<and> st_ok t' \<and>
    (if pkey (bucket t ! st_slot t key) = INVALID then st_Get t' key = Some v else t' = t) \<and>
    (\<forall>k. k \<noteq> key \<and> k \<noteq> INVALID \<longrightarrow> st_Get t' k = st_Get t k)"
proof (cases "pkey (bucket t ! st_slot t key) = INVALID")
  case True
  let ?t = "t\<lparr>bucket := (bucket t)[st_slot t key := \<lparr>pkey = key, pvalue = v\<rparr>]\<rparr>"
  have len: "st_slot t key < length (bucket t)" by (rule st_slot_less [OF assms(1)])
  have "st_Insert t key v = Some ?t"
    using assms True len by (simp add: st_Insert_def hKey_slot rd_ok wr_ok)
  moreover have "st_Get ?t k = st_Get t k" if "k \<noteq> key" "k \<noteq> INVALID" for k
    using that True len st_update [OF assms(1)] assms(1)
    by (cases "st_slot t k = st_slot t key") (simp_all add: st_Get_slot Let_def)
  moreover have "st_Get ?t key = Some v"
    using len st_update [OF assms(1)] by (simp add: st_Get_slot)
  ultimately show ?thesis using True st_update(1) [OF assms(1)] by simp
next
  case False
  then show ?thesis using assms by (simp add: st_Insert_def hKey_slot rd_ok st_slot_less)
qed

text \<open>
  Deleting a key leaves its slot taken for ever: it holds the key \<open>1\<close>, so later insertions of
  other keys into the slot are lost, and looking up key \<open>1\<close>, if that is its slot, finds the deleted value.
\<close>

lemma static_delete_ghost:
  assumes "st_ok t" "pkey (bucket t ! st_slot t key) = key"
  shows "\<exists>t'. st_Delete t key = Some (t', True) \<and> st_ok t' \<and>
    (st_slot t 1 = st_slot t key \<longrightarrow> st_Get t' 1 = st_Get t key) \<and>
    (\<forall>k v. st_slot t k = st_slot t key \<and> k \<noteq> 1 \<longrightarrow> st_Insert t' k v = Some t' \<and> st_Get t' k = Some NONE)"
proof -
  let ?p = "(bucket t ! st_slot t key)\<lparr>pkey := 1\<rparr>"
  let ?t = "t\<lparr>bucket := (bucket t)[st_slot t key := ?p]\<rparr>"
  have len: "st_slot t key < length (bucket t)" by (rule st_slot_less [OF assms(1)])
  note ok = st_update [OF assms(1)]
  have "st_Delete t key = Some (?t, True)"
    using assms len by (simp add: st_Delete_def hKey_slot rd_ok wr_ok INVALID_def)
  moreover have "st_Get ?t 1 = st_Get t key" if "st_slot t 1 = st_slot t key"
    using that len ok assms by (simp add: st_Get_slot Let_def)
  moreover have "st_Get ?t k = Some NONE" if "st_slot t k = st_slot t key" "k \<noteq> 1" for k
    using that len ok by (simp add: st_Get_slot Let_def)
  moreover have "st_Insert ?t k v = Some ?t" if "st_slot t k = st_slot t key" "k \<noteq> 1" for k v
    using that len ok by (simp add: st_Insert_def hKey_slot rd_ok st_Get_slot Let_def INVALID_def)
  ultimately show ?thesis using ok(1) by blast
qed

theorem static_delete_ghost_witness:
  "\<exists>t'. st_Delete \<lparr>hashSize = 1, bucket = [\<lparr>pkey = 5, pvalue = 7\<rparr>]\<rparr> 5 = Some (t', True) \<and> st_Get t' 1 = Some 7 \<and>
     st_Insert t' 5 9 = Some t'"
proof -
  let ?t = "\<lparr>hashSize = 1, bucket = [\<lparr>pkey = 5, pvalue = 7\<rparr>]\<rparr>"
  have ok: "st_ok ?t" "st_slot ?t k = 0" for k by (simp_all add: st_ok_def st_slot_def)
  then have "st_Get ?t 5 = Some 7" by (simp add: st_Get_slot)
  then show ?thesis using static_delete_ghost [of ?t 5] ok by auto
qed

end
