(* ===== verification/Extendible_Hash.thy ===== *)
theory Extendible_Hash
  imports Hash_Functions
begin

text \<open>
  \<^verbatim>\<open>ExtendibleHash\<close> (\<^verbatim>\<open>server/src/extendible_hash.cpp\<close>, as it is configured: \<^verbatim>\<open>LSB\<close> defined, \<^verbatim>\<open>INPLACE\<close>
  not): a directory of pointers to blocks, indexed by the low bits of the hash; a full block is
  replaced by two, and the directory doubles when the block was at full depth. Blocks are the
  elements of a list that only grows, pointers are positions in it: the code never frees a block.
  An operation is one step. \<open>None\<close> is undefined behaviour or the end of fuel, which bounds the
  \<^verbatim>\<open>RETRY\<close> loop and the recursive call of \<open>Insert\<close>.
\<close>

section \<open>Blocks\<close>

definition kBlockSize :: nat where "kBlockSize = 256 * 1024"
definition ext_kNumSlot :: nat where "ext_kNumSlot = kBlockSize div 16"

record Block =
  entries :: "Pair list"
  block_depth :: nat
  block_sema :: int
  block_pattern :: nat

definition new_Block :: "nat \<Rightarrow> Block" where
  "new_Block depth = \<lparr>entries = replicate ext_kNumSlot fresh_pair, block_depth = depth, block_sema = 0, block_pattern = 0\<rparr>"

text \<open>The loop of \<open>Block::Insert\<close> and of \<open>Insert4split\<close>: the first free slot.\<close>

fun store_first :: "Pair list \<Rightarrow> Pair \<Rightarrow> (Pair list \<times> nat) option" where
  "store_first [] p = None"
| "store_first (q # qs) p =
     (if pkey q = INVALID then Some (p # qs, 0)
      else map_option (\<lambda>(qs', i). (q # qs', Suc i)) (store_first qs p))"

definition Block_Insert :: "Block \<Rightarrow> Key_t \<Rightarrow> Value_t \<Rightarrow> u64 \<Rightarrow> Block \<times> int" where
  "Block_Insert b key value key_hash =
     (if block_sema b = - 1 then (b, - 2)
      else if unat key_hash mod 2 ^ block_depth b \<noteq> block_pattern b then (b, - 2)
      else case store_first (entries b) \<lparr>pkey = key, pvalue = value\<rparr> of
        None \<Rightarrow> (b, - 1)
      | Some (qs, i) \<Rightarrow> (b\<lparr>entries := qs\<rparr>, int i))"

definition Block_Insert4split :: "Block \<Rightarrow> Pair \<Rightarrow> Block" where
  "Block_Insert4split b p =
     (case store_first (entries b) p of None \<Rightarrow> b | Some (qs, _) \<Rightarrow> b\<lparr>entries := qs\<rparr>)"

text \<open>The loop of \<open>Split\<close>.\<close>

fun Block_split_loop :: "(bytes \<Rightarrow> u64 \<Rightarrow> u64) \<Rightarrow> nat \<Rightarrow> Pair list \<Rightarrow> Block \<Rightarrow> Block \<Rightarrow> Block \<times> Block" where
  "Block_split_loop std depth [] s0 s1 = (s0, s1)"
| "Block_split_loop std depth (p # ps) s0 s1 =
     (if bit (h std (pkey p)) depth then Block_split_loop std depth ps s0 (Block_Insert4split s1 p)
      else Block_split_loop std depth ps (Block_Insert4split s0 p) s1)"

definition Block_Split :: "(bytes \<Rightarrow> u64 \<Rightarrow> u64) \<Rightarrow> Block \<Rightarrow> Block \<times> Block" where
  "Block_Split std b = Block_split_loop std (block_depth b) (entries b)
     (new_Block (block_depth b + 1)) (new_Block (block_depth b + 1))"

definition Block_numElem :: "Block \<Rightarrow> nat" where
  "Block_numElem b = length (filter (\<lambda>p. pkey p \<noteq> INVALID) (entries b))"

section \<open>The directory\<close>

record ext =
  blocks :: "Block list"
  ext_dir :: "nat list"
  ext_capacity :: nat
  global_depth :: nat

text \<open>\<^verbatim>\<open>log2(0)\<close> does not fit a \<^verbatim>\<open>size_t\<close>.\<close>

definition ExtendibleHash :: "nat \<Rightarrow> ext option" where
  "ExtendibleHash initCap =
     (if initCap = 0 then None
      else Some \<lparr>blocks = map (\<lambda>i. (new_Block (ilog2 initCap))\<lparr>block_pattern := i\<rparr>) [0..<initCap],
        ext_dir = [0..<initCap], ext_capacity = initCap, global_depth = ilog2 initCap\<rparr>)"

text \<open>\<open>Directory::LSBUpdate\<close>, by recursion on \<open>depth_diff\<close>.\<close>

fun LSBUpdate :: "nat \<Rightarrow> nat \<Rightarrow> nat \<Rightarrow> nat \<Rightarrow> nat \<Rightarrow> nat list \<Rightarrow> nat list option" where
  "LSBUpdate 0 dir_cap x s0 s1 d =
     (if dir_cap div 2 \<le> x mod dir_cap
      then do { d' \<leftarrow> wr d (x - dir_cap div 2) s0; wr d' x s1 }
      else do { d' \<leftarrow> wr d x s0; wr d' (x + dir_cap div 2) s1 })"
| "LSBUpdate (Suc n) dir_cap x s0 s1 d =
     (if dir_cap div 2 \<le> x mod dir_cap
      then do { d' \<leftarrow> LSBUpdate n (dir_cap div 2) (x - dir_cap div 2) s0 s1 d; LSBUpdate n (dir_cap div 2) x s0 s1 d' }
      else do { d' \<leftarrow> LSBUpdate n (dir_cap div 2) x s0 s1 d; LSBUpdate n (dir_cap div 2) (x + dir_cap div 2) s0 s1 d' })"

text \<open>
  The directory after a split of the block of entry \<open>x\<close> at depth \<open>l\<close> into \<open>s0\<close> and \<open>s1\<close>: updated in
  place, or doubled.
\<close>

definition ext_update_dir :: "ext \<Rightarrow> nat \<Rightarrow> nat \<Rightarrow> nat \<Rightarrow> nat \<Rightarrow> ext option" where
  "ext_update_dir t l x s0 s1 =
     (if l < global_depth t then do {
        d \<leftarrow> LSBUpdate (global_depth t - (l + 1)) (ext_capacity t) x s0 s1 (ext_dir t);
        Some (t\<lparr>ext_dir := d\<rparr>) }
      else do {
        d \<leftarrow> wr (ext_dir t @ ext_dir t) x s0;
        d' \<leftarrow> wr d (x + ext_capacity t) s1;
        Some (t\<lparr>ext_dir := d', ext_capacity := 2 * ext_capacity t, global_depth := global_depth t + 1\<rparr>) })"

text \<open>
  The branch of \<open>Insert\<close> for a full block. The patterns are computed with an \<^verbatim>\<open>int\<close> shift by the depth
  of the block, which is undefined from 31 on.
\<close>

definition ext_split :: "(bytes \<Rightarrow> u64 \<Rightarrow> u64) \<Rightarrow> ext \<Rightarrow> nat \<Rightarrow> nat \<Rightarrow> Block \<Rightarrow> u64 \<Rightarrow> ext option" where
  "ext_split std t x target b key_hash =
     (let l = block_depth b; (s0, s1) = Block_Split std b; pat = unat key_hash mod 2 ^ l; n = length (blocks t)
      in if 31 \<le> l then None
         else ext_update_dir (t\<lparr>blocks := (blocks t)[target := b\<lparr>block_sema := - 1\<rparr>] @
                [s0\<lparr>block_pattern := pat\<rparr>, s1\<lparr>block_pattern := pat + 2 ^ l\<rparr>]\<rparr>) l x n (n + 1))"

fun ext_Insert :: "(bytes \<Rightarrow> u64 \<Rightarrow> u64) \<Rightarrow> nat \<Rightarrow> ext \<Rightarrow> Key_t \<Rightarrow> Value_t \<Rightarrow> ext option" where
  "ext_Insert std 0 t key value = None"
| "ext_Insert std (Suc fuel) t key value = (let key_hash = h std key; x = unat key_hash mod ext_capacity t in do {
     target \<leftarrow> rd (ext_dir t) x;
     b \<leftarrow> rd (blocks t) target;
     case Block_Insert b key value key_hash of (b', ret) \<Rightarrow>
       if ret = - 1 then
         if block_sema b \<noteq> 0 then ext_Insert std fuel t key value
         else do { t' \<leftarrow> ext_split std t x target b key_hash; ext_Insert std fuel t' key value }
       else if ret = - 2 then ext_Insert std fuel t key value
       else Some (t\<lparr>blocks := (blocks t)[target := b']\<rparr>) })"

definition ext_InsertOnly :: "(bytes \<Rightarrow> u64 \<Rightarrow> u64) \<Rightarrow> ext \<Rightarrow> Key_t \<Rightarrow> Value_t \<Rightarrow> (ext \<times> bool) option" where
  "ext_InsertOnly std t key value = do {
     target \<leftarrow> rd (ext_dir t) (unat (h std key) mod ext_capacity t);
     b \<leftarrow> rd (blocks t) target;
     case Block_Insert b key value (h std key) of (b', ret) \<Rightarrow>
       Some (t\<lparr>blocks := (blocks t)[target := b']\<rparr>, - 1 < ret) }"

definition ext_Delete :: "ext \<Rightarrow> Key_t \<Rightarrow> bool" where
  "ext_Delete t key = False"

definition ext_Get :: "(bytes \<Rightarrow> u64 \<Rightarrow> u64) \<Rightarrow> ext \<Rightarrow> Key_t \<Rightarrow> Value_t option" where
  "ext_Get std t key = do {
     target \<leftarrow> rd (ext_dir t) (unat (h std key) mod ext_capacity t);
     b \<leftarrow> rd (blocks t) target;
     Some (case find (\<lambda>p. pkey p = key) (entries b) of None \<Rightarrow> NONE | Some p \<Rightarrow> pvalue p) }"

text \<open>The blocks of the directory, each once; \<open>Utilization\<close> is \<open>100 * ext_used t / ext_Capacity t\<close>.\<close>

definition ext_live_blocks :: "ext \<Rightarrow> nat list" where
  "ext_live_blocks t = remdups (ext_dir t)"

definition ext_used :: "ext \<Rightarrow> nat" where
  "ext_used t = sum_list (map (\<lambda>i. Block_numElem (blocks t ! i)) (ext_live_blocks t))"

definition ext_Capacity :: "ext \<Rightarrow> nat" where
  "ext_Capacity t = length (ext_live_blocks t) * ext_kNumSlot"

text \<open>\<open>SanityCheck\<close> ends the process when the directory holds the pointer.\<close>

definition ext_SanityCheck :: "ext \<Rightarrow> nat \<Rightarrow> unit option" where
  "ext_SanityCheck t addr = (if addr \<in> set (ext_dir t) then None else Some ())"

section \<open>Blocks: inserting and splitting\<close>

abbreviation has :: "Pair list \<Rightarrow> Key_t \<Rightarrow> Pair option" where
  "has qs k \<equiv> find (\<lambda>p. pkey p = k) qs"

lemma store_first_Some:
  assumes "store_first qs p = Some (qs', i)"
  shows "length qs' = length qs" "set qs' \<subseteq> insert p (set qs)"
    "k \<noteq> INVALID \<Longrightarrow> k \<noteq> pkey p \<Longrightarrow> has qs' k = has qs k"
    "has qs (pkey p) = None \<Longrightarrow> has qs' (pkey p) = Some p"
  using assms by (induction qs p arbitrary: qs' i rule: store_first.induct) (auto split: if_splits)

lemma store_first_None: "store_first qs p = None \<longleftrightarrow> (\<forall>q\<in>set qs. pkey q \<noteq> INVALID)"
  by (induction qs) auto

lemma store_first_append:
  "\<forall>q\<in>set qs. pkey q \<noteq> INVALID \<Longrightarrow>
   store_first (qs @ replicate (Suc m) fresh_pair) p = Some (qs @ p # replicate m fresh_pair, length qs)"
  by (induction qs) (simp_all add: fresh_pair_def)

definition filled :: "Block \<Rightarrow> Pair list \<Rightarrow> nat \<Rightarrow> bool" where
  "filled s qs m \<longleftrightarrow> entries s = qs @ replicate m fresh_pair \<and> (\<forall>q\<in>set qs. pkey q \<noteq> INVALID)"

lemma Insert4split_filled:
  assumes "filled s qs (Suc m)" "pkey p \<noteq> INVALID"
  shows "filled (Block_Insert4split s p) (qs @ [p]) m"
    "block_depth (Block_Insert4split s p) = block_depth s" "block_sema (Block_Insert4split s p) = block_sema s"
  using assms store_first_append [of qs m p] by (auto simp: filled_def Block_Insert4split_def)

lemma split_loop_filled:
  assumes "filled s0 qs0 m0" "filled s1 qs1 m1" "length ps \<le> m0" "length ps \<le> m1" "\<forall>p\<in>set ps. pkey p \<noteq> INVALID"
  shows "\<exists>t0 t1 n0 n1. Block_split_loop std depth ps s0 s1 = (t0, t1) \<and>
    filled t0 (qs0 @ filter (\<lambda>p. \<not> bit (h std (pkey p)) depth) ps) n0 \<and>
    filled t1 (qs1 @ filter (\<lambda>p. bit (h std (pkey p)) depth) ps) n1 \<and>
    length (entries t0) = length (entries s0) \<and> length (entries t1) = length (entries s1) \<and>
    block_depth t0 = block_depth s0 \<and> block_depth t1 = block_depth s1 \<and>
    block_sema t0 = block_sema s0 \<and> block_sema t1 = block_sema s1"
  using assms
proof (induction ps arbitrary: s0 s1 qs0 qs1 m0 m1)
  case (Cons p ps)
  obtain m0' m1' where m: "m0 = Suc m0'" "m1 = Suc m1'" using Cons.prems(3,4) by (cases m0; cases m1) auto
  show ?case
  proof (cases "bit (h std (pkey p)) depth")
    case True
    have p: "filled s1 qs1 (Suc m1')" "pkey p \<noteq> INVALID" using Cons.prems m by simp_all
    note s = Insert4split_filled [OF p]
    have "length (entries (Block_Insert4split s1 p)) = length (entries s1)" using s(1) p(1) by (simp add: filled_def)
    with Cons.IH [OF Cons.prems(1) s(1)] Cons.prems(3-5) m s(2,3) True show ?thesis by simp
  next
    case False
    have p: "filled s0 qs0 (Suc m0')" "pkey p \<noteq> INVALID" using Cons.prems m by simp_all
    note s = Insert4split_filled [OF p]
    have "length (entries (Block_Insert4split s0 p)) = length (entries s0)" using s(1) p(1) by (simp add: filled_def)
    with Cons.IH [OF s(1) Cons.prems(2)] Cons.prems(3-5) m s(2,3) False show ?thesis by simp
  qed
qed auto

lemma has_filled:
  assumes "filled s (filter (\<lambda>p. P (pkey p)) qs) m" "k \<noteq> INVALID"
  shows "has (entries s) k = (if P k then has qs k else None)"
proof -
  have "has (filter (\<lambda>p. P (pkey p)) qs @ replicate m fresh_pair) k = (if P k then has qs k else None)"
  proof (induction qs)
    case Nil
    show ?case using assms(2) by (induction m) (simp_all add: fresh_pair_def)
  qed auto
  then show ?thesis using assms(1) by (simp add: filled_def)
qed

text \<open>Splitting a full block: every pair goes to the half that its hash selects.\<close>

lemma Block_Split_ok:
  assumes "\<forall>p\<in>set (entries b). pkey p \<noteq> INVALID" "length (entries b) = ext_kNumSlot"
  obtains s0 s1 where "Block_Split std b = (s0, s1)"
    "length (entries s0) = ext_kNumSlot" "length (entries s1) = ext_kNumSlot"
    "block_depth s0 = block_depth b + 1" "block_depth s1 = block_depth b + 1" "block_sema s0 = 0" "block_sema s1 = 0"
    "\<And>k. k \<noteq> INVALID \<Longrightarrow> has (entries s0) k = (if bit (h std k) (block_depth b) then None else has (entries b) k)"
    "\<And>k. k \<noteq> INVALID \<Longrightarrow> has (entries s1) k = (if bit (h std k) (block_depth b) then has (entries b) k else None)"
proof -
  let ?n = "new_Block (block_depth b + 1)"
  have n: "filled ?n [] ext_kNumSlot" by (simp add: filled_def new_Block_def)
  obtain s0 s1 n0 n1 where s: "Block_Split std b = (s0, s1)"
    "filled s0 (filter (\<lambda>p. \<not> bit (h std (pkey p)) (block_depth b)) (entries b)) n0"
    "filled s1 (filter (\<lambda>p. bit (h std (pkey p)) (block_depth b)) (entries b)) n1"
    "length (entries s0) = length (entries ?n)" "length (entries s1) = length (entries ?n)"
    "block_depth s0 = block_depth ?n" "block_depth s1 = block_depth ?n" "block_sema s0 = block_sema ?n" "block_sema s1 = block_sema ?n"
    using split_loop_filled [OF n n _ _ assms(1), of std "block_depth b"] assms(2) by (auto simp: Block_Split_def)
  show ?thesis
    using s has_filled [OF s(2)] has_filled [OF s(3)] by (intro that [of s0 s1]) (simp_all add: new_Block_def)
qed

section \<open>The directory update\<close>

lemma lsb_halves:
  fixes x half :: nat
  assumes "0 < half"
  defines "y \<equiv> (if half \<le> x mod (2 * half) then x - half else x)"
  shows "y div half = 2 * (x div (2 * half))" "y mod half = x mod half"
    "(y + half) div half = 2 * (x div (2 * half)) + 1" "(y + half) mod half = x mod half"
    "x = (if half \<le> x mod (2 * half) then y + half else y)"
proof -
  let ?q = "x div (2 * half)" and ?r = "x mod (2 * half)"
  have x: "x = half * (2 * ?q) + ?r" "?r < 2 * half"
    using assms(1) mult_div_mod_eq [of "2 * half" x] by (simp_all only: mult.assoc mult.left_commute [of half 2]) simp_all
  define r where "r = (if half \<le> ?r then ?r - half else ?r)"
  have r: "r < half" using x(2) by (auto simp: r_def)
  have y: "y = half * (2 * ?q) + r" 
  proof (cases "half \<le> ?r")
    case True
    then have "y = x - half" "r = ?r - half" by (simp_all add: y_def r_def)
    then show ?thesis using x(1) True by linarith
  next
    case False
    then have "y = x" "r = ?r" by (simp_all add: y_def r_def)
    then show ?thesis using x(1) False by linarith
  qed
  have "y div half = 2 * ?q \<and> y mod half = r" unfolding y using r by simp
  moreover have "x mod half = r"
  proof -
    have "x mod half = (half * (2 * ?q) + ?r) mod half" using x(1) by (rule arg_cong)
    also have "\<dots> = ?r mod half" by (rule mod_mult_self4)
    also have "?r mod half = r"
      using x(2) r by (cases "half \<le> ?r") (simp_all add: r_def le_mod_geq)
    finally show ?thesis .
  qed
  ultimately show "y div half = 2 * ?q" "y mod half = x mod half"
    "(y + half) div half = 2 * ?q + 1" "(y + half) mod half = x mod half" using assms(1) by (simp_all add: div_add_self2)
  show "x = (if half \<le> ?r then y + half else y)"
  proof (cases "half \<le> ?r")
    case True
    then have "half \<le> x" using mod_less_eq_dividend le_trans by blast
    then show ?thesis using True by (simp add: y_def)
  qed (simp add: y_def)
qed

text \<open>
  \<open>LSBUpdate\<close> changes exactly the entries of its part of the directory that agree with \<open>x\<close> on the
  low \<open>l\<close> bits; bit \<open>l\<close> selects the new block.
\<close>

definition lsb_entry :: "nat \<Rightarrow> nat \<Rightarrow> nat \<Rightarrow> nat \<Rightarrow> (nat \<Rightarrow> nat) \<Rightarrow> nat \<Rightarrow> nat" where
  "lsb_entry l x s0 s1 D j = (if j mod 2 ^ l = x mod 2 ^ l then if bit j l then s1 else s0 else D j)"

lemma LSBUpdate_base:
  fixes x :: nat
  assumes "2 ^ (l + 1) * Suc (x div 2 ^ (l + 1)) \<le> length d"
  shows "\<exists>d'. LSBUpdate 0 (2 ^ (l + 1)) x s0 s1 d = Some d' \<and> length d' = length d \<and>
    (\<forall>j<length d. d' ! j = (if j div 2 ^ (l + 1) = x div 2 ^ (l + 1) then lsb_entry l x s0 s1 ((!) d) j else d ! j))"
proof -
  define half :: nat where "half = 2 ^ l"
  have half: "0 < half" "2 ^ (l + 1) = 2 * half" by (simp_all add: half_def)
  let ?q = "x div (2 * half)"
  define y where "y = (if half \<le> x mod (2 * half) then x - half else x)"
  note y = lsb_halves [OF half(1), of x, folded y_def]
  have "y < half * Suc (2 * ?q)" by (rule dividend_less_times_div [THEN less_le_trans]) (use half(1) y(1) in \<open>auto simp: ac_simps\<close>)
  then have len: "y + half < length d" using assms unfolding half(2) by (simp add: algebra_simps)
  have "LSBUpdate 0 (2 * half) x s0 s1 d = Some (d[y := s0, y + half := s1])"
    using y(5) len by (cases "half \<le> x mod (2 * half)") (simp_all add: wr_ok)
  moreover have "d[y := s0, y + half := s1] ! j =
      (if j div (2 * half) = ?q then lsb_entry l x s0 s1 ((!) d) j else d ! j)" if "j < length d" for j
  proof (cases "j div (2 * half) = ?q \<and> j mod half = x mod half")
    case True
    have "j div half div 2 = ?q" using True by (simp add: div_mult2_eq mult.commute)
    then consider "j div half = 2 * ?q" | "j div half = 2 * ?q + 1" by linarith
    then have "(j = y \<and> even (j div half)) \<or> (j = y + half \<and> odd (j div half))"
    proof cases
      case 1
      then have "j div half = y div half" "j mod half = y mod half" using True y(1,2) by simp_all
      then have "j = y" by (metis mult_div_mod_eq)
      with 1 show ?thesis by simp
    next
      case 2
      then have "j div half = (y + half) div half" "j mod half = (y + half) mod half" using True y(3,4) by simp_all
      then have "j = y + half" by (metis mult_div_mod_eq)
      with 2 show ?thesis by simp
    qed
    then have "(j = y \<and> \<not> bit j l) \<or> (j = y + half \<and> bit j l)" unfolding bit_iff_odd half_def [symmetric] by blast
    moreover have "d[y := s0, y + half := s1] ! y = s0" "d[y := s0, y + half := s1] ! (y + half) = s1"
      using len half(1) by simp_all
    ultimately show ?thesis using True unfolding lsb_entry_def half_def [symmetric] by auto
  next
    case False
    have "y div half div 2 = ?q" "(y + half) div half div 2 = ?q" unfolding y(1,3) by simp_all
    then have "y div (2 * half) = ?q" "(y + half) div (2 * half) = ?q"
      by (simp_all only: div_mult2_eq [symmetric] mult.commute [of half 2])
    then have "j \<noteq> y" "j \<noteq> y + half" using False y(2,4) by metis+
    then show ?thesis using False unfolding lsb_entry_def half_def [symmetric] by auto
  qed
  ultimately show ?thesis unfolding half(2) by auto
qed

lemma LSBUpdate_ok:
  "2 ^ (l + 1 + n) * Suc (x div 2 ^ (l + 1 + n)) \<le> length d \<Longrightarrow>
   \<exists>d'. LSBUpdate n (2 ^ (l + 1 + n)) x s0 s1 d = Some d' \<and> length d' = length d \<and>
    (\<forall>j<length d. d' ! j = (if j div 2 ^ (l + 1 + n) = x div 2 ^ (l + 1 + n) then lsb_entry l x s0 s1 ((!) d) j else d ! j))"
proof (induction n arbitrary: x d)
  case 0
  then show ?case using LSBUpdate_base [of l x d s0 s1] by simp
next
  case (Suc n)
  define half :: nat where "half = 2 ^ (l + 1 + n)"
  have half: "0 < half" "2 ^ (l + 1 + Suc n) = 2 * half" by (simp_all add: half_def)
  let ?q = "x div (2 * half)"
  define y where "y = (if half \<le> x mod (2 * half) then x - half else x)"
  note y = lsb_halves [OF half(1), of x, folded y_def]
  have "2 ^ l dvd half" unfolding half_def by (simp add: le_imp_power_dvd)
  then have low: "y mod 2 ^ l = x mod 2 ^ l" "(y + half) mod 2 ^ l = x mod 2 ^ l"
    by (metis mod_mod_cancel y(2), metis mod_mod_cancel y(4))
  have len: "half * Suc (y div half) \<le> length d" "half * Suc ((y + half) div half) \<le> length d"
    using Suc.prems unfolding half(2) y(1,3) by (simp_all add: algebra_simps)
  obtain d1 where d1: "LSBUpdate n half y s0 s1 d = Some d1" "length d1 = length d"
    "\<And>j. j < length d \<Longrightarrow> d1 ! j = (if j div half = 2 * ?q then lsb_entry l y s0 s1 ((!) d) j else d ! j)"
    using Suc.IH [of y d, folded half_def, OF len(1)] unfolding y(1) by blast
  obtain d2 where d2: "LSBUpdate n half (y + half) s0 s1 d1 = Some d2" "length d2 = length d1"
    "\<And>j. j < length d1 \<Longrightarrow> d2 ! j = (if j div half = 2 * ?q + 1 then lsb_entry l (y + half) s0 s1 ((!) d1) j else d1 ! j)"
    using Suc.IH [of "y + half" d1, folded half_def] len(2) unfolding d1(2) y(3) by metis
  have "LSBUpdate (Suc n) (2 * half) x s0 s1 d = Some d2"
    using y(5) d1(1) d2(1) by (cases "half \<le> x mod (2 * half)") simp_all
  moreover have "d2 ! j = (if j div (2 * half) = ?q then lsb_entry l x s0 s1 ((!) d) j else d ! j)"
    if j: "j < length d" for j
  proof -
    have "j div half div 2 = j div (2 * half)" by (simp only: div_mult2_eq mult.commute [of 2 half])
    then consider "j div half = 2 * ?q" "j div (2 * half) = ?q" | "j div half = 2 * ?q + 1" "j div (2 * half) = ?q"
      | "j div half \<noteq> 2 * ?q" "j div half \<noteq> 2 * ?q + 1" "j div (2 * half) \<noteq> ?q" by linarith
    then show ?thesis using d1(3) [OF j] d2(3) [of j] j d1(2) low by cases (simp_all add: lsb_entry_def)
  qed
  ultimately show ?case unfolding half(2) using d1(2) d2(2) by auto
qed

section \<open>Well-formed directories\<close>

definition block_ok :: "Block \<Rightarrow> bool" where
  "block_ok b \<longleftrightarrow> block_sema b = 0 \<and> length (entries b) = ext_kNumSlot"

text \<open>
  Entry \<open>i\<close> of a directory of depth \<open>g\<close> leads to a block whose pattern is the low bits of \<open>i\<close>, and
  so do exactly the entries that agree with \<open>i\<close> on these bits.
\<close>

definition lsb_dir_ok :: "nat \<Rightarrow> (nat \<Rightarrow> nat) \<Rightarrow> Block list \<Rightarrow> bool" where
  "lsb_dir_ok g D B \<longleftrightarrow> (\<forall>i<2 ^ g. D i < length B \<and> block_ok (B ! D i) \<and> block_depth (B ! D i) \<le> g \<and>
     block_pattern (B ! D i) = i mod 2 ^ block_depth (B ! D i) \<and>
     (\<forall>j<2 ^ g. j mod 2 ^ block_depth (B ! D i) = i mod 2 ^ block_depth (B ! D i) \<longrightarrow> D j = D i))"

definition lookup :: "(bytes \<Rightarrow> u64 \<Rightarrow> u64) \<Rightarrow> nat \<Rightarrow> (nat \<Rightarrow> nat) \<Rightarrow> Block list \<Rightarrow> Key_t \<Rightarrow> Pair option" where
  "lookup std g D B k = has (entries (B ! D (unat (h std k) mod 2 ^ g))) k"

lemma lsb_dir_okD:
  assumes "lsb_dir_ok g D B" "i < 2 ^ g"
  shows "D i < length B" "block_ok (B ! D i)" "block_depth (B ! D i) \<le> g"
    "block_pattern (B ! D i) = i mod 2 ^ block_depth (B ! D i)"
    "j < 2 ^ g \<Longrightarrow> j mod 2 ^ block_depth (B ! D i) = i mod 2 ^ block_depth (B ! D i) \<Longrightarrow> D j = D i"
  using assms unfolding lsb_dir_ok_def by blast+

lemma lsb_dir_ok_cong: "(\<And>j. j < 2 ^ g \<Longrightarrow> D' j = D j) \<Longrightarrow> lsb_dir_ok g D' B = lsb_dir_ok g D B"
  unfolding lsb_dir_ok_def by simp

lemma lsb_dir_ok_same: "lsb_dir_ok g D B \<Longrightarrow> i < 2 ^ g \<Longrightarrow> j < 2 ^ g \<Longrightarrow> D i = D j \<Longrightarrow>
  i mod 2 ^ block_depth (B ! D i) = j mod 2 ^ block_depth (B ! D i)"
  using lsb_dir_okD(4) [of g D B i] lsb_dir_okD(4) [of g D B j] by simp

text \<open>Doubling the directory changes no lookup.\<close>

lemma lsb_dir_ok_double:
  fixes D :: "nat \<Rightarrow> nat"
  assumes ok: "lsb_dir_ok g D B"
  shows "lsb_dir_ok (g + 1) (\<lambda>i. D (i mod 2 ^ g)) B" "lookup std (g + 1) (\<lambda>i. D (i mod 2 ^ g)) B = lookup std g D B"
proof -
  have mod: "i mod 2 ^ g mod 2 ^ l = i mod 2 ^ l" if "l \<le> g" for i l :: nat
    using that by (simp add: mod_mod_cancel le_imp_power_dvd)
  have less: "i mod 2 ^ g < 2 ^ g" for i :: nat by simp
  show "lsb_dir_ok (g + 1) (\<lambda>i. D (i mod 2 ^ g)) B"
    unfolding lsb_dir_ok_def
  proof (intro allI impI conjI)
    fix i :: nat
    note e = lsb_dir_okD [OF ok less [of i]]
    show "D (i mod 2 ^ g) < length B" "block_ok (B ! D (i mod 2 ^ g))" by (fact e)+
    show "block_depth (B ! D (i mod 2 ^ g)) \<le> g + 1" using e(3) by simp
    show "block_pattern (B ! D (i mod 2 ^ g)) = i mod 2 ^ block_depth (B ! D (i mod 2 ^ g))" using e(4) mod [OF e(3)] by simp
    fix j :: nat assume "j mod 2 ^ block_depth (B ! D (i mod 2 ^ g)) = i mod 2 ^ block_depth (B ! D (i mod 2 ^ g))"
    then show "D (j mod 2 ^ g) = D (i mod 2 ^ g)" using e(5) [OF less [of j]] mod [OF e(3)] by simp
  qed
  have "unat (h std k) mod 2 ^ (g + 1) mod 2 ^ g = unat (h std k) mod 2 ^ g" for k
    by (rule mod_mod_cancel) simp
  then show "lookup std (g + 1) (\<lambda>i. D (i mod 2 ^ g)) B = lookup std g D B" by (simp add: lookup_def fun_eq_iff)
qed

lemma mod_Suc_bit: "(j :: nat) mod 2 ^ Suc l = j mod 2 ^ l + (if bit j l then 2 ^ l else 0)"
proof -
  have "j mod (2 ^ l * 2) = 2 ^ l * (j div 2 ^ l mod 2) + j mod 2 ^ l" by (rule mod_mult2_eq)
  then show ?thesis by (auto simp: bit_iff_odd mult.commute odd_iff_mod_2_eq_one)
qed

lemma bit_hash: "l < g \<Longrightarrow> bit (unat w mod 2 ^ g) l = bit (w :: u64) l"
proof -
  assume "l < g"
  then have "bit (unat w mod 2 ^ g) l = bit (unat w) l" by (simp flip: take_bit_eq_mod add: bit_take_bit_iff)
  moreover have "bit w l \<longrightarrow> l < 64" using bit_imp_le_length by force
  ultimately show ?thesis by (auto simp: bit_unsigned_iff)
qed

lemma low_bits: "(j :: nat) mod 2 ^ (l + 1) mod 2 ^ l = j mod 2 ^ l" "bit (j mod 2 ^ (l + 1)) l = bit j l"
  by (simp add: mod_mod_cancel) (simp only: take_bit_eq_mod [symmetric] bit_take_bit_iff, simp)

text \<open>Replacing a block by its two halves in all entries that lead to it.\<close>

lemma lsb_dir_ok_split:
  fixes D :: "nat \<Rightarrow> nat" and x :: nat
  assumes ok: "lsb_dir_ok g D B" and x: "x < 2 ^ g" and b: "b = B ! D x" "l = block_depth b" "l < g"
    and s: "block_ok s0" "block_ok s1" "block_depth s0 = l + 1" "block_depth s1 = l + 1"
      "block_pattern s0 = x mod 2 ^ l" "block_pattern s1 = x mod 2 ^ l + 2 ^ l"
    and n: "n = length B" and B': "B' = B[D x := c] @ [s0, s1]"
  shows "lsb_dir_ok g (lsb_entry l x n (n + 1) D) B'"
  unfolding lsb_dir_ok_def
proof (intro allI impI)
  fix i :: nat assume i: "i < 2 ^ g"
  let ?D = "lsb_entry l x n (n + 1) D"
  have new: "B' ! n = s0" "B' ! (n + 1) = s1" "length B' = n + 2" by (simp_all add: B' n nth_append)
  have target: "D j = D x \<longleftrightarrow> j mod 2 ^ l = x mod 2 ^ l" if "j < 2 ^ g" for j
    using lsb_dir_okD(5) [OF ok x that] lsb_dir_ok_same [OF ok x that] unfolding b by metis
  show "?D i < length B' \<and> block_ok (B' ! ?D i) \<and> block_depth (B' ! ?D i) \<le> g \<and>
     block_pattern (B' ! ?D i) = i mod 2 ^ block_depth (B' ! ?D i) \<and>
     (\<forall>j<2 ^ g. j mod 2 ^ block_depth (B' ! ?D i) = i mod 2 ^ block_depth (B' ! ?D i) \<longrightarrow> ?D j = ?D i)"
  proof (cases "i mod 2 ^ l = x mod 2 ^ l")
    case True
    define e where "e = (if bit i l then s1 else s0)"
    have Di: "?D i = (if bit i l then n + 1 else n)" "B' ! ?D i = e"
      using True new by (simp_all add: lsb_entry_def e_def)
    have e: "block_ok e" "block_depth e = l + 1" "block_pattern e = i mod 2 ^ (l + 1)"
      using s True mod_Suc_bit [of i l] by (simp_all add: e_def)
    have "?D j = ?D i" if "j mod 2 ^ (l + 1) = i mod 2 ^ (l + 1)" for j
    proof -
      have "j mod 2 ^ l = i mod 2 ^ l" "bit j l = bit i l" using low_bits [of j l] low_bits [of i l] that by simp_all
      then show ?thesis using True by (simp add: lsb_entry_def)
    qed
    then have "\<forall>j<2 ^ g. j mod 2 ^ block_depth e = i mod 2 ^ block_depth e \<longrightarrow> ?D j = ?D i" unfolding e(2) by blast
    moreover have "?D i < length B'" unfolding Di(1) new(3) by simp
    ultimately show ?thesis using e b(3) unfolding Di(2) by simp
  next
    case False
    have "D i \<noteq> D x" using target [OF i] False by simp
    have Di: "?D i = D i" using False by (simp add: lsb_entry_def)
    note e = lsb_dir_okD [OF ok i]
    have B'i: "B' ! D i = B ! D i" using e(1) \<open>D i \<noteq> D x\<close> by (simp add: B' nth_append)
    have "?D j = D i" if j: "j < 2 ^ g" "j mod 2 ^ block_depth (B ! D i) = i mod 2 ^ block_depth (B ! D i)" for j
    proof -
      have "D j = D i" by (rule e(5) [OF j])
      then have "j mod 2 ^ l \<noteq> x mod 2 ^ l" using target [OF j(1)] \<open>D i \<noteq> D x\<close> by simp
      then show ?thesis using \<open>D j = D i\<close> by (simp add: lsb_entry_def)
    qed
    then show ?thesis using e(1-4) new(3) n unfolding Di B'i by simp
  qed
qed

lemma lookup_split:
  fixes D :: "nat \<Rightarrow> nat" and x :: nat
  assumes ok: "lsb_dir_ok g D B" and x: "x < 2 ^ g" and b: "b = B ! D x" "l = block_depth b" "l < g"
    and s: "has (entries s0) k = (if bit (h std k) l then None else has (entries b) k)"
      "has (entries s1) k = (if bit (h std k) l then has (entries b) k else None)"
    and n: "n = length B" and B': "B' = B[D x := c] @ [s0, s1]"
  shows "lookup std g (lsb_entry l x n (n + 1) D) B' k = lookup std g D B k"
proof -
  let ?i = "unat (h std k) mod 2 ^ g"
  have i: "?i < 2 ^ g" by simp
  have new: "B' ! n = s0" "B' ! (n + 1) = s1" by (simp_all add: B' n nth_append)
  show ?thesis
  proof (cases "?i mod 2 ^ l = x mod 2 ^ l")
    case True
    then have "D ?i = D x" using lsb_dir_okD(5) [OF ok x i] b by simp
    then show ?thesis using True new s b(1) bit_hash [OF b(3), of "h std k"] by (simp add: lookup_def lsb_entry_def)
  next
    case False
    then have "D ?i \<noteq> D x" using lsb_dir_ok_same [OF ok x i] b by auto
    then show ?thesis using False lsb_dir_okD(1) [OF ok i] by (simp add: lookup_def lsb_entry_def B' nth_append)
  qed
qed

section \<open>Insert and Get\<close>

definition ext_ok :: "ext \<Rightarrow> bool" where
  "ext_ok t \<longleftrightarrow> ext_capacity t = 2 ^ global_depth t \<and> length (ext_dir t) = ext_capacity t \<and>
     lsb_dir_ok (global_depth t) ((!) (ext_dir t)) (blocks t)"

definition ext_lookup :: "(bytes \<Rightarrow> u64 \<Rightarrow> u64) \<Rightarrow> ext \<Rightarrow> Key_t \<Rightarrow> Pair option" where
  "ext_lookup std t k = lookup std (global_depth t) ((!) (ext_dir t)) (blocks t) k"

lemma ext_Get_lookup:
  assumes "ext_ok t"
  shows "ext_Get std t k = Some (case ext_lookup std t k of None \<Rightarrow> NONE | Some p \<Rightarrow> pvalue p)"
proof -
  have "unat (h std k) mod ext_capacity t < length (ext_dir t)" "unat (h std k) mod 2 ^ global_depth t < 2 ^ global_depth t"
    using assms by (simp_all add: ext_ok_def)
  moreover from this(2) have "ext_dir t ! (unat (h std k) mod 2 ^ global_depth t) < length (blocks t)"
    using assms lsb_dir_okD(1) unfolding ext_ok_def by blast
  ultimately show ?thesis using assms by (simp add: ext_Get_def ext_lookup_def lookup_def ext_ok_def rd_ok)
qed

lemma ext_update_dir_ok:
  assumes len: "ext_capacity t = 2 ^ global_depth t" "length (ext_dir t) = ext_capacity t"
    and x: "x < 2 ^ global_depth t" and l: "l \<le> global_depth t"
  shows "\<exists>t'. ext_update_dir t l x s0 s1 = Some t' \<and> blocks t' = blocks t \<and> l < global_depth t' \<and>
    global_depth t' = (if l < global_depth t then global_depth t else global_depth t + 1) \<and>
    ext_capacity t' = 2 ^ global_depth t' \<and> length (ext_dir t') = ext_capacity t' \<and>
    (\<forall>j<2 ^ global_depth t'. ext_dir t' ! j =
       lsb_entry l x s0 s1 (\<lambda>i. ext_dir t ! (i mod 2 ^ global_depth t)) j)"
proof (cases "l < global_depth t")
  case True
  let ?n = "global_depth t - (l + 1)"
  have g: "l + 1 + ?n = global_depth t" using True by simp
  have "\<exists>d'. LSBUpdate ?n (2 ^ (l + 1 + ?n)) x s0 s1 (ext_dir t) = Some d' \<and> length d' = length (ext_dir t) \<and>
    (\<forall>j<length (ext_dir t). d' ! j = (if j div 2 ^ (l + 1 + ?n) = x div 2 ^ (l + 1 + ?n)
       then lsb_entry l x s0 s1 ((!) (ext_dir t)) j else ext_dir t ! j))"
    by (rule LSBUpdate_ok) (simp only: g, use len x in simp)
  then obtain d' where d': "LSBUpdate ?n (ext_capacity t) x s0 s1 (ext_dir t) = Some d'" "length d' = ext_capacity t"
    "\<And>j. j < 2 ^ global_depth t \<Longrightarrow> d' ! j = lsb_entry l x s0 s1 ((!) (ext_dir t)) j"
    unfolding g using len x by auto
  then show ?thesis using True len by (simp add: ext_update_dir_def lsb_entry_def)
next
  case False
  then have lg: "l = global_depth t" using l by simp
  let ?d = "(ext_dir t @ ext_dir t)[x := s0, x + ext_capacity t := s1]"
  have "?d ! j = lsb_entry l x s0 s1 (\<lambda>i. ext_dir t ! (i mod 2 ^ l)) j" if j: "j < 2 * 2 ^ l" for j
  proof -
    consider "j < 2 ^ l" | i where "j = i + 2 ^ l" "i < 2 ^ l" using j by (metis add.commute le_iff_add mult_2 nat_add_left_cancel_less not_less)
    then show ?thesis
      using x len lg by cases (auto simp: lsb_entry_def nth_append nth_list_update bit_iff_odd div_add_self2)
  qed
  then show ?thesis using False x len lg by (simp add: ext_update_dir_def wr_ok)
qed

lemma ext_split_ok:
  assumes ok: "ext_ok t" and x: "x = unat key_hash mod ext_capacity t"
    and b: "b = blocks t ! (ext_dir t ! x)" "\<forall>p\<in>set (entries b). pkey p \<noteq> INVALID"
    and r: "ext_split std t x (ext_dir t ! x) b key_hash = Some t'"
  shows "ext_ok t' \<and> (\<forall>k. k \<noteq> INVALID \<longrightarrow> ext_lookup std t' k = ext_lookup std t k)"
proof -
  let ?g = "global_depth t" and ?D = "(!) (ext_dir t)" and ?B = "blocks t" and ?l = "block_depth b"
  have len: "ext_capacity t = 2 ^ ?g" "length (ext_dir t) = ext_capacity t" and dir: "lsb_dir_ok ?g ?D ?B"
    using ok by (simp_all add: ext_ok_def)
  have xg: "x < 2 ^ ?g" using x len by simp
  note e = lsb_dir_okD [OF dir xg, folded b(1)]
  obtain s0 s1 where s: "Block_Split std b = (s0, s1)"
    "length (entries s0) = ext_kNumSlot" "length (entries s1) = ext_kNumSlot"
    "block_depth s0 = ?l + 1" "block_depth s1 = ?l + 1" "block_sema s0 = 0" "block_sema s1 = 0"
    "\<And>k. k \<noteq> INVALID \<Longrightarrow> has (entries s0) k = (if bit (h std k) ?l then None else has (entries b) k)"
    "\<And>k. k \<noteq> INVALID \<Longrightarrow> has (entries s1) k = (if bit (h std k) ?l then has (entries b) k else None)"
    using Block_Split_ok [OF b(2)] e(2) by (auto simp: block_ok_def)
  define pat where "pat = unat key_hash mod 2 ^ ?l"
  have pat: "pat = x mod 2 ^ ?l" unfolding pat_def x len(1) using e(3) by (simp add: mod_mod_cancel le_imp_power_dvd)
  define B' where "B' = ?B[ext_dir t ! x := b\<lparr>block_sema := - 1\<rparr>] @
    [s0\<lparr>block_pattern := pat\<rparr>, s1\<lparr>block_pattern := pat + 2 ^ ?l\<rparr>]"
  let ?n = "length ?B" and ?t = "t\<lparr>blocks := B'\<rparr>"
  have upd: "ext_update_dir ?t ?l x ?n (?n + 1) = Some t'"
    using r s(1) by (auto simp: ext_split_def Let_def pat_def B'_def split: if_splits)
  obtain g' where g': "?l < g'" "g' = (if ?l < ?g then ?g else ?g + 1)" "global_depth t' = g'" "blocks t' = B'"
    "ext_capacity t' = 2 ^ g'" "length (ext_dir t') = ext_capacity t'"
    "\<And>j. j < 2 ^ g' \<Longrightarrow> ext_dir t' ! j = lsb_entry ?l x ?n (?n + 1) (\<lambda>i. ext_dir t ! (i mod 2 ^ ?g)) j"
    using ext_update_dir_ok [of ?t x ?l ?n "?n + 1"] len xg e(3) upd by auto
  let ?D2 = "\<lambda>i. ext_dir t ! (i mod 2 ^ ?g)"
  have D2: "lsb_dir_ok g' ?D2 ?B" "lookup std g' ?D2 ?B = lookup std ?g ?D ?B"
    using g'(2) dir lsb_dir_ok_double [OF dir] lsb_dir_ok_cong [of ?g ?D2 ?D ?B]
    by (auto simp: lookup_def fun_eq_iff)
  have xg': "x < 2 ^ g'" using xg g'(2) by auto
  have bx: "b = ?B ! ?D2 x" "?D2 x = ext_dir t ! x" using b(1) xg by simp_all
  have "lsb_dir_ok g' (lsb_entry ?l x ?n (?n + 1) ?D2) B'"
    by (rule lsb_dir_ok_split [OF D2(1) xg' bx(1) refl g'(1) _ _ _ _ _ _ refl B'_def [folded bx(2)]])
      (use s pat in \<open>simp_all add: block_ok_def\<close>)
  moreover have "lsb_dir_ok g' ((!) (ext_dir t')) B' = lsb_dir_ok g' (lsb_entry ?l x ?n (?n + 1) ?D2) B'"
    by (rule lsb_dir_ok_cong) (rule g'(7))
  ultimately have "lsb_dir_ok g' ((!) (ext_dir t')) B'" by simp
  then have "ext_ok t'" using g'(3-6) by (simp add: ext_ok_def)
  moreover have "ext_lookup std t' k = ext_lookup std t k" if "k \<noteq> INVALID" for k
  proof -
    have "lookup std g' (lsb_entry ?l x ?n (?n + 1) ?D2) B' k = lookup std g' ?D2 ?B k"
      by (rule lookup_split [OF D2(1) xg' bx(1) refl g'(1) _ _ refl B'_def [folded bx(2)]])
        (use s(8,9) that in simp_all)
    then show ?thesis using g'(3,4,7) D2(2) by (simp add: ext_lookup_def lookup_def)
  qed
  ultimately show ?thesis by blast
qed

text \<open>The block of the key has a free slot.\<close>

definition ext_room :: "(bytes \<Rightarrow> u64 \<Rightarrow> u64) \<Rightarrow> ext \<Rightarrow> Key_t \<Rightarrow> bool" where
  "ext_room std t key \<longleftrightarrow>
     (\<exists>p\<in>set (entries (blocks t ! (ext_dir t ! (unat (h std key) mod ext_capacity t)))). pkey p = INVALID)"

lemma ext_Insert_turn:
  fixes fuel :: nat and std :: "bytes \<Rightarrow> u64 \<Rightarrow> u64"
  assumes ok: "ext_ok t" and key: "key \<noteq> INVALID"
  defines "x \<equiv> unat (h std key) mod ext_capacity t"
  shows "ext_room std t key \<Longrightarrow> \<exists>t'. ext_Insert std (Suc fuel) t key v = Some t' \<and> ext_ok t' \<and>
      (ext_lookup std t key = None \<longrightarrow> ext_lookup std t' key = Some \<lparr>pkey = key, pvalue = v\<rparr>) \<and>
      (\<forall>k. k \<noteq> key \<and> k \<noteq> INVALID \<longrightarrow> ext_lookup std t' k = ext_lookup std t k)"
    and "\<not> ext_room std t key \<Longrightarrow> ext_Insert std (Suc fuel) t key v =
      do { t' \<leftarrow> ext_split std t x (ext_dir t ! x) (blocks t ! (ext_dir t ! x)) (h std key); ext_Insert std fuel t' key v }"
proof -
  let ?p = "\<lparr>pkey = key, pvalue = v\<rparr>" and ?g = "global_depth t"
  define b where "b = blocks t ! (ext_dir t ! x)"
  have len: "ext_capacity t = 2 ^ ?g" "length (ext_dir t) = ext_capacity t" and dir: "lsb_dir_ok ?g ((!) (ext_dir t)) (blocks t)"
    using ok by (simp_all add: ext_ok_def)
  have xg: "x < 2 ^ ?g" using len by (simp add: x_def)
  note e = lsb_dir_okD [OF dir xg, folded b_def]
  have pat: "unat (h std key) mod 2 ^ block_depth b = block_pattern b"
    unfolding e(4) x_def len(1) using e(3) by (simp add: mod_mod_cancel le_imp_power_dvd)
  have rd: "rd (ext_dir t) x = Some (ext_dir t ! x)" "rd (blocks t) (ext_dir t ! x) = Some b"
    using xg len e(1) by (simp_all add: rd_ok b_def)
  have sema: "block_sema b = 0" "length (entries b) = ext_kNumSlot" using e(2) by (simp_all add: block_ok_def)
  {
    assume "\<not> ext_room std t key"
    then have "store_first (entries b) ?p = None" by (auto simp: ext_room_def store_first_None b_def x_def)
    then have "Block_Insert b key v (h std key) = (b, - 1)" using pat sema by (simp add: Block_Insert_def)
    then show "ext_Insert std (Suc fuel) t key v =
      do { t' \<leftarrow> ext_split std t x (ext_dir t ! x) (blocks t ! (ext_dir t ! x)) (h std key); ext_Insert std fuel t' key v }"
      using rd sema by (simp add: Let_def b_def x_def)
  }
  assume "ext_room std t key"
  then have "store_first (entries b) ?p \<noteq> None" unfolding store_first_None by (auto simp: ext_room_def b_def x_def)
  then obtain qs i where qs: "store_first (entries b) ?p = Some (qs, i)" by auto
  note st = store_first_Some [OF qs]
  define B where "B = (blocks t)[ext_dir t ! x := b\<lparr>entries := qs\<rparr>]"
  let ?t = "t\<lparr>blocks := B\<rparr>"
  have "Block_Insert b key v (h std key) = (b\<lparr>entries := qs\<rparr>, int i)" using pat sema qs by (simp add: Block_Insert_def)
  then have ins: "ext_Insert std (Suc fuel) t key v = Some ?t" using rd by (simp add: Let_def x_def B_def)
  have blk: "B ! j = (if j = ext_dir t ! x then b\<lparr>entries := qs\<rparr> else blocks t ! j)" for j using e(1) by (simp add: B_def)
  have same: "block_depth (B ! j) = block_depth (blocks t ! j)" "block_pattern (B ! j) = block_pattern (blocks t ! j)"
    "block_ok (B ! j) = block_ok (blocks t ! j)" "length B = length (blocks t)" for j
    using st(1) by (simp_all add: blk b_def block_ok_def) (simp add: B_def)
  have "lsb_dir_ok ?g ((!) (ext_dir t)) B" using dir unfolding lsb_dir_ok_def same .
  then have "ext_ok ?t" using len by (simp add: ext_ok_def)
  moreover have "ext_lookup std ?t k = ext_lookup std t k" if "k \<noteq> key" "k \<noteq> INVALID" for k
    using st(3) [of k] that unfolding ext_lookup_def lookup_def by (simp add: blk b_def)
  moreover have "ext_lookup std ?t key = Some ?p" if "ext_lookup std t key = None"
    using st(4) that len(1) unfolding ext_lookup_def lookup_def by (simp add: blk b_def x_def)
  ultimately show "\<exists>t'. ext_Insert std (Suc fuel) t key v = Some t' \<and> ext_ok t' \<and>
      (ext_lookup std t key = None \<longrightarrow> ext_lookup std t' key = Some ?p) \<and>
      (\<forall>k. k \<noteq> key \<and> k \<noteq> INVALID \<longrightarrow> ext_lookup std t' k = ext_lookup std t k)" using ins
    by (intro exI [of _ ?t]) (simp del: ext_Insert.simps)
qed

lemma ext_Insert_ok:
  assumes key: "key \<noteq> INVALID"
  shows "ext_ok t \<Longrightarrow> ext_Insert std fuel t key v = Some t' \<Longrightarrow> ext_ok t' \<and>
      (ext_lookup std t key = None \<longrightarrow> ext_lookup std t' key = Some \<lparr>pkey = key, pvalue = v\<rparr>) \<and>
      (\<forall>k. k \<noteq> key \<and> k \<noteq> INVALID \<longrightarrow> ext_lookup std t' k = ext_lookup std t k)"
proof (induction fuel arbitrary: t)
  case (Suc fuel)
  note turn = ext_Insert_turn [OF Suc.prems(1) key, of std fuel v]
  show ?case
  proof (cases "ext_room std t key")
    case True
    with turn(1) Suc.prems(2) show ?thesis by (metis option.inject)
  next
    case False
    let ?x = "unat (h std key) mod ext_capacity t"
    let ?b = "blocks t ! (ext_dir t ! ?x)"
    from turn(2) [OF False] Suc.prems(2) obtain t1 where
      t1: "ext_split std t ?x (ext_dir t ! ?x) ?b (h std key) = Some t1" "ext_Insert std fuel t1 key v = Some t'"
      by (cases "ext_split std t ?x (ext_dir t ! ?x) ?b (h std key)") simp_all
    have "\<forall>p\<in>set (entries ?b). pkey p \<noteq> INVALID" using False by (auto simp: ext_room_def)
    from ext_split_ok [OF Suc.prems(1) refl refl this t1(1)] Suc.IH [OF _ t1(2)] key show ?thesis by simp
  qed
qed simp

text \<open>
  C29: an \<open>Insert\<close> that returns, after any number of block splits and directory doublings, keeps the
  directory well formed, makes \<open>Get\<close> find the value of a new key, and changes the lookup of no other
  key. When the block of the key has room it returns in the first turn.
\<close>

theorem extendible_insert_then_get:
  assumes "ext_ok t" "key \<noteq> INVALID"
  shows "(\<forall>fuel t'. ext_Insert std fuel t key v = Some t' \<longrightarrow> ext_ok t' \<and>
      (ext_lookup std t key = None \<longrightarrow> ext_Get std t' key = Some v) \<and>
      (\<forall>k. k \<noteq> key \<and> k \<noteq> INVALID \<longrightarrow> ext_Get std t' k = ext_Get std t k)) \<and>
    (ext_room std t key \<longrightarrow> (\<exists>t'. ext_Insert std 1 t key v = Some t'))"
proof (intro conjI allI impI)
  fix fuel t' assume "ext_Insert std fuel t key v = Some t'"
  note t' = ext_Insert_ok [OF assms(2,1) this]
  show ok: "ext_ok t'" using t' by blast
  show "ext_Get std t' key = Some v" if "ext_lookup std t key = None"
    using t' that by (simp add: ext_Get_lookup [OF ok])
  show "ext_Get std t' k = ext_Get std t k" if "k \<noteq> key \<and> k \<noteq> INVALID" for k
    using t' that by (simp add: ext_Get_lookup [OF ok] ext_Get_lookup [OF assms(1)])
next
  assume "ext_room std t key"
  from ext_Insert_turn(1) [OF assms this, of 0 v] show "\<exists>t'. ext_Insert std 1 t key v = Some t'"
    unfolding One_nat_def by blast
qed

theorem extendible_insert_then_get_witness:
  "\<exists>t t'. ExtendibleHash 1 = Some t \<and> ext_Insert (\<lambda>_ _. 0) 1 t 5 7 = Some t' \<and> ext_Get (\<lambda>_ _. 0) t' 5 = Some 7"
proof -
  let ?b = "new_Block 0" and ?t = "\<lparr>blocks = [new_Block 0], ext_dir = [0], ext_capacity = 1, global_depth = 0\<rparr>"
  have t: "ExtendibleHash 1 = Some ?t"
    by (simp add: ExtendibleHash_def ilog2.simps [of "Suc 0"] new_Block_def)
  have ok: "ext_ok ?t" by (simp add: ext_ok_def lsb_dir_ok_def block_ok_def new_Block_def)
  have key: "(5 :: Key_t) \<noteq> INVALID" by (simp add: INVALID_def)
  have "entries ?b = fresh_pair # replicate (ext_kNumSlot - 1) fresh_pair"
    by (simp add: new_Block_def ext_kNumSlot_def kBlockSize_def flip: replicate_Suc)
  then have "ext_room (\<lambda>_ _. 0) ?t 5" by (simp add: ext_room_def fresh_pair_def)
  then obtain t' where t': "ext_Insert (\<lambda>_ _. 0) 1 ?t 5 7 = Some t'"
    using extendible_insert_then_get [OF ok key, of "\<lambda>_ _. 0" 7] by blast
  have "has (replicate n fresh_pair) 5 = None" for n by (induction n) (simp_all add: fresh_pair_def INVALID_def)
  then have "ext_lookup (\<lambda>_ _. 0) ?t 5 = None" by (simp add: ext_lookup_def lookup_def new_Block_def)
  with extendible_insert_then_get [OF ok key, of "\<lambda>_ _. 0" 7] t' have "ext_Get (\<lambda>_ _. 0) t' 5 = Some 7" by blast
  with t t' show ?thesis by blast
qed

end
