(* ===== verification/Page_Server.thy ===== *)
theory Page_Server
  imports Wire_Protocol KV_Store
begin

text \<open>
  The request handlers of the server (\<^verbatim>\<open>server/rdma_svr.cpp\<close>): one polling thread per queue takes
  a receive completion, decodes the immediate word and runs the put or get handler of the
  build; pages live in one shared region that is handed out by a counter. The connection
  manager that gives the queues to the clients is the last section.

  The memory of the server is a map from the addresses of 64-bit words to their values; an
  address is a \<open>nat\<close>, its value in a table a \<open>u64\<close>. What the verbs library does is an input:
  the completions the handlers poll. \<open>None\<close> is \<^verbatim>\<open>die\<close>, a fault, or a handler that never returns.
\<close>

section \<open>Memory\<close>

type_synonym memory = "nat \<Rightarrow> u64"

fun store_words :: "memory \<Rightarrow> nat \<Rightarrow> u64 list \<Rightarrow> memory" where
  "store_words m a [] = m"
| "store_words m a (w # ws) = store_words (m(a := w)) (a + 8) ws"

definition load_words :: "memory \<Rightarrow> nat \<Rightarrow> nat \<Rightarrow> u64 list" where
  "load_words m a n = map (\<lambda>i. m (a + 8 * i)) [0..<n]"

definition PAGE_WORDS :: nat where [layout]: "PAGE_WORDS = PAGE_SIZE div 8"

abbreviation page_at :: "memory \<Rightarrow> nat \<Rightarrow> u64 list" where
  "page_at m a \<equiv> load_words m a PAGE_WORDS"

lemma length_load_words [simp]: "length (load_words m a n) = n"
  by (simp add: load_words_def)

lemma load_words_nth [simp]: "i < n \<Longrightarrow> load_words m a n ! i = m (a + 8 * i)"
  by (simp add: load_words_def)

lemma store_words_outside: "x < a \<or> a + 8 * length ws \<le> x \<Longrightarrow> store_words m a ws x = m x"
  by (induction ws arbitrary: m a) auto

lemma store_words_inside: "i < length ws \<Longrightarrow> store_words m a ws (a + 8 * i) = ws ! i"
proof (induction ws arbitrary: m a i)
  case (Cons w ws)
  show ?case
  proof (cases i)
    case 0
    then show ?thesis by (simp add: store_words_outside)
  next
    case (Suc j)
    then have "a + 8 * i = (a + 8) + 8 * j" by simp
    then show ?thesis using Cons.IH [of j] Cons.prems Suc by (metis Suc_less_SucD length_Cons nth_Cons_Suc store_words.simps(2))
  qed
qed simp

lemma load_store_other:
  "a + 8 * n \<le> b \<or> b + 8 * length ws \<le> a \<Longrightarrow> load_words (store_words m b ws) a n = load_words m a n"
  by (auto simp: load_words_def store_words_outside)

lemma load_store_same: "load_words (store_words m a ws) a (length ws) = ws"
  by (rule nth_equalityI) (simp_all add: store_words_inside)

lemma load_store_part:
  "i + n \<le> length ws \<Longrightarrow> load_words (store_words m a ws) (a + 8 * i) n = take n (drop i ws)"
proof (rule nth_equalityI)
  fix j assume n: "i + n \<le> length ws" and "j < length (load_words (store_words m a ws) (a + 8 * i) n)"
  then have "j < n" by simp
  then have "store_words m a ws (a + 8 * (i + j)) = ws ! (i + j)"
    using n by (intro store_words_inside) simp
  then show "load_words (store_words m a ws) (a + 8 * i) n ! j = take n (drop i ws) ! j"
    using \<open>j < n\<close> n by (simp add: algebra_simps)
qed simp

section \<open>State\<close>

text \<open>
  \<open>posted cid qid\<close> are the work-request numbers of the receive requests posted on a queue: the
  address of the buffer, or 0 for a request without one. \<open>BUFFER_SIZE\<close> is a command-line option.
\<close>

record 's server =
  sv_kv :: "'s KV"
  sv_mem :: memory
  global_mr :: nat
  BUFFER_SIZE :: nat
  page_offset :: u64
  posted :: "nat \<Rightarrow> nat \<Rightarrow> nat list"
  sv_putcnt :: u32
  sv_getcnt :: u32
  found_cnt :: u32
  notfound_cnt :: u32

text \<open>The state after \<open>get_device\<close> allocated the region at \<open>base\<close>, before any request is posted.\<close>

definition new_server :: "'s KV \<Rightarrow> memory \<Rightarrow> nat \<Rightarrow> nat \<Rightarrow> 's server" where
  "new_server kv m base len =
     \<lparr>sv_kv = kv, sv_mem = m, global_mr = base, BUFFER_SIZE = len, page_offset = 0, posted = (\<lambda>_ _. []),
      sv_putcnt = 0, sv_getcnt = 0, found_cnt = 0, notfound_cnt = 0\<rparr>"

text \<open>\<open>get_device\<close>: the metadata of client \<open>cid\<close> follows the page buffer.\<close>

definition local_mm :: "'s server \<Rightarrow> nat \<Rightarrow> nat" where
  "local_mm st cid = global_mr st + BUFFER_SIZE st + LOCAL_META_REGION_SIZE * cid"

definition mr_size :: "'s server \<Rightarrow> nat" where
  "mr_size st = BUFFER_SIZE st + NUM_CLIENT * LOCAL_META_REGION_SIZE"

definition free_page :: "'s server \<Rightarrow> nat" where
  "free_page st = GET_FREE_PAGE_REGION (global_mr st) + PAGE_SIZE * unat (page_offset st)"

definition GET_OFFSET_FROM_BASE_TO_ADDR :: "nat \<Rightarrow> nat \<Rightarrow> nat" where [layout]:
  "GET_OFFSET_FROM_BASE_TO_ADDR qid mid = NUM_ENTRY * ENTRY_SIZE * qid + ENTRY_SIZE * mid + 16"

abbreviation meta_entry :: "'s server \<Rightarrow> nat \<Rightarrow> nat \<Rightarrow> nat \<Rightarrow> nat" where
  "meta_entry st cid qid mid \<equiv> GET_LOCAL_META_REGION (local_mm st cid) qid mid"

section \<open>Handlers\<close>

text \<open>
  A reply is the immediate word and, for an RDMA write with data, the client address and the
  words written there.
\<close>

record reply =
  r_imm :: u32
  r_data :: "(u64 \<times> u64 list) option"

definition reply_to :: "nat \<Rightarrow> nat \<Rightarrow> tx_state \<Rightarrow> (u64 \<times> u64 list) option \<Rightarrow> reply" where
  "reply_to qid mid tx data =
     \<lparr>r_imm = htonl (bit_mask 0 (of_nat mid) (msg_code MSG_READ_REPLY) (tx_code tx) (of_nat qid)),
      r_data = data\<rparr>"

definition post_recv :: "'s server \<Rightarrow> nat \<Rightarrow> nat \<Rightarrow> 's server" where
  "post_recv st cid qid =
     st\<lparr>posted := (posted st)(cid := (posted st cid)(qid := posted st cid qid @ [0]))\<rparr>"

definition post_recv_with_addr :: "'s server \<Rightarrow> nat \<Rightarrow> nat \<Rightarrow> nat \<Rightarrow> 's server" where
  "post_recv_with_addr st addr cid qid =
     st\<lparr>posted := (posted st)(cid := (posted st cid)(qid := posted st cid qid @ [addr]))\<rparr>"

text \<open>\<open>page_offset.fetch_add(BATCH_SIZE)\<close>, and a receive buffer of four pages at the old offset.\<close>

definition post_page_buffer :: "'s server \<Rightarrow> nat \<Rightarrow> nat \<Rightarrow> 's server" where
  "post_page_buffer st cid qid =
     post_recv_with_addr (st\<lparr>page_offset := page_offset st + of_nat BATCH_SIZE\<rparr>) (free_page st) cid qid"

definition sv_insert ::
  "('s \<Rightarrow> Key_t \<Rightarrow> Value_t \<Rightarrow> ('s \<times> Key_t) option) \<Rightarrow> 's server \<Rightarrow> Key_t \<Rightarrow> nat \<Rightarrow> 's server option" where
  "sv_insert ins st key addr = do {
     (kv, _) \<leftarrow> KV_Insert ins (sv_kv st) key (of_nat addr);
     Some (st\<lparr>sv_kv := kv\<rparr>) }"

fun batch_loop ::
  "('s \<Rightarrow> Key_t \<Rightarrow> Value_t \<Rightarrow> ('s \<times> Key_t) option) \<Rightarrow> 's server \<Rightarrow> (Key_t \<times> nat) list \<Rightarrow> 's server option" where
  "batch_loop ins st [] = Some st"
| "batch_loop ins st ((key, addr) # rest) = do {
     st' \<leftarrow> sv_insert ins st key addr;
     batch_loop ins st' rest }"

text \<open>
  The two parts of \<open>process_write_twosided\<close>: the local copy of the keys, paired with the pages of
  the buffer the message arrived in, and the loop. The reply is posted before the loop; if its
  completion is an error (\<open>polled\<close> is false) no new buffer is posted.
\<close>

definition write_batch :: "'s server \<Rightarrow> nat \<Rightarrow> nat \<Rightarrow> nat \<Rightarrow> (Key_t \<times> nat) list" where
  "write_batch st target cid qid =
     zip (load_words (sv_mem st) (meta_entry st cid qid 0) BATCH_SIZE)
         (map (\<lambda>i. target + PAGE_SIZE * i) [0..<BATCH_SIZE])"

definition process_write_twosided ::
  "('s \<Rightarrow> Key_t \<Rightarrow> Value_t \<Rightarrow> ('s \<times> Key_t) option) \<Rightarrow> bool \<Rightarrow> 's server \<Rightarrow> nat \<Rightarrow> nat \<Rightarrow> nat \<Rightarrow> nat \<Rightarrow>
     ('s server \<times> reply) option" where
  "process_write_twosided ins polled st target cid qid mid = do {
     st' \<leftarrow> batch_loop ins st (write_batch st target cid qid);
     Some (if polled then post_page_buffer st' cid qid else st', reply_to qid mid TX_WRITE_COMMITTED None) }"

text \<open>The put handler of the \<^verbatim>\<open>NORMALPUT\<close> build copies the page out of the metadata entry.\<close>

definition process_write ::
  "('s \<Rightarrow> Key_t \<Rightarrow> Value_t \<Rightarrow> ('s \<times> Key_t) option) \<Rightarrow> 's server \<Rightarrow> nat \<Rightarrow> nat \<Rightarrow> nat \<Rightarrow>
     ('s server \<times> reply) option" where
  "process_write ins st cid qid mid =
     (let local_key = sv_mem st (meta_entry st cid qid mid);
          page = GET_LOCAL_PAGE_REGION (local_mm st cid) qid mid;
          save_page = free_page st
      in do {
        st' \<leftarrow> sv_insert ins
          (st\<lparr>page_offset := page_offset st + 1,
              sv_mem := store_words (sv_mem st) save_page (page_at (sv_mem st) page)\<rparr>) local_key save_page;
        Some (st', reply_to qid mid TX_WRITE_COMMITTED None) })"

text \<open>
  The put handler of the \<^verbatim>\<open>BIGMRPUT\<close> build only reserves a page and writes its address into the
  client's memory, at \<open>base\<close> plus the offset of the entry; the client then writes the page.
\<close>

definition process_write_odp ::
  "('s \<Rightarrow> Key_t \<Rightarrow> Value_t \<Rightarrow> ('s \<times> Key_t) option) \<Rightarrow> u64 \<Rightarrow> 's server \<Rightarrow> nat \<Rightarrow> nat \<Rightarrow> nat \<Rightarrow>
     ('s server \<times> reply) option" where
  "process_write_odp ins base st cid qid mid =
     (let local_key = sv_mem st (meta_entry st cid qid mid);
          target_addr = GET_REMOTE_ADDRESS_BASE (local_mm st cid) qid mid;
          save_page = free_page st
      in do {
        st' \<leftarrow> sv_insert ins
          (st\<lparr>page_offset := page_offset st + 1, sv_mem := (sv_mem st)(target_addr := of_nat save_page)\<rparr>)
          local_key save_page;
        Some (st', reply_to qid mid TX_WRITE_COMMITTED
          (Some (base + of_nat (GET_OFFSET_FROM_BASE_TO_ADDR qid mid), [of_nat save_page]))) })"

definition sv_lookup ::
  "('s \<Rightarrow> Key_t \<Rightarrow> Value_t option) \<Rightarrow> 's server \<Rightarrow> Key_t \<Rightarrow> ('s server \<times> Value_t) option" where
  "sv_lookup get st key = do {
     (kv, v) \<leftarrow> KV_Get get (sv_kv st) key;
     Some (if v = NONE then st\<lparr>sv_kv := kv, notfound_cnt := notfound_cnt st + 1\<rparr>
           else st\<lparr>sv_kv := kv, found_cnt := found_cnt st + 1\<rparr>, v) }"

text \<open>The get handler of the \<^verbatim>\<open>NORMALGET\<close> build copies the page into the metadata entry, over the
  remote address the request left there, for the client to read.\<close>

definition process_read ::
  "('s \<Rightarrow> Key_t \<Rightarrow> Value_t option) \<Rightarrow> 's server \<Rightarrow> nat \<Rightarrow> nat \<Rightarrow> nat \<Rightarrow> ('s server \<times> reply) option" where
  "process_read get st cid qid mid =
     (let local_key = sv_mem st (meta_entry st cid qid mid);
          target_addr = GET_REMOTE_ADDRESS_BASE (local_mm st cid) qid mid
      in do {
        (st', v) \<leftarrow> sv_lookup get st local_key;
        Some (if v = NONE then (st', reply_to qid mid TX_READ_ABORTED None)
              else (st'\<lparr>sv_mem := store_words (sv_mem st') target_addr (page_at (sv_mem st') (unat v))\<rparr>,
                    reply_to qid mid TX_READ_COMMITTED None)) })"

definition process_read_odp ::
  "('s \<Rightarrow> Key_t \<Rightarrow> Value_t option) \<Rightarrow> 's server \<Rightarrow> nat \<Rightarrow> nat \<Rightarrow> nat \<Rightarrow> ('s server \<times> reply) option" where
  "process_read_odp get st cid qid mid =
     (let local_key = sv_mem st (meta_entry st cid qid mid);
          local_remote_addr = sv_mem st (GET_REMOTE_ADDRESS_BASE (local_mm st cid) qid mid)
      in do {
        (st', v) \<leftarrow> sv_lookup get st local_key;
        Some (if v = NONE then (st', reply_to qid mid TX_READ_ABORTED None)
              else (st', reply_to qid mid TX_READ_COMMITTED
                (Some (local_remote_addr, page_at (sv_mem st') (unat v))))) })"

section \<open>The polling thread\<close>

datatype wc_opcode = WC_RECV_RDMA_WITH_IMM | WC_RDMA_READ | WC_RECV | WC_OTHER

record wc =
  wc_ok :: bool
  wc_op :: wc_opcode
  wc_imm :: u32
  wc_wr_id :: nat

text \<open>The compile-time choice of the put and get handlers; \<^verbatim>\<open>TWOSIDED\<close> is the default.\<close>

datatype build = NORMAL | BIGMR | TWOSIDED

text \<open>One round of the loop of \<open>server_recv_poll_cq\<close>, for a completion that was polled.\<close>

definition handle_wc ::
  "build \<Rightarrow> ('s \<Rightarrow> Key_t \<Rightarrow> Value_t \<Rightarrow> ('s \<times> Key_t) option) \<Rightarrow> ('s \<Rightarrow> Key_t \<Rightarrow> Value_t option) \<Rightarrow>
     u64 \<Rightarrow> bool \<Rightarrow> 's server \<Rightarrow> wc \<Rightarrow> nat \<Rightarrow> nat \<Rightarrow> ('s server \<times> reply option) option" where
  "handle_wc bld ins get base polled st c client_id queue_id =
     (if \<not> wc_ok c then None
      else case bit_unmask (ntohl (wc_imm c)) of (num, mid, typ, tx, qid) \<Rightarrow>
        (case wc_op c of
           WC_RECV_RDMA_WITH_IMM \<Rightarrow>
             (let st1 = post_recv st client_id queue_id
              in if typ = msg_code MSG_WRITE then
                   let st2 = st1\<lparr>sv_putcnt := sv_putcnt st1 + 1\<rparr>
                   in (case bld of
                         NORMAL \<Rightarrow> map_option (apsnd Some) (process_write ins st2 client_id (unat qid) (unat mid))
                       | BIGMR \<Rightarrow> map_option (apsnd Some) (process_write_odp ins base st2 client_id (unat qid) (unat mid))
                       | TWOSIDED \<Rightarrow> Some (st2, None))
                 else if typ = msg_code MSG_READ then
                   let st2 = st1\<lparr>sv_getcnt := sv_getcnt st1 + 1\<rparr>
                   in (case bld of
                         NORMAL \<Rightarrow> map_option (apsnd Some) (process_read get st2 client_id (unat qid) (unat mid))
                       | _ \<Rightarrow> map_option (apsnd Some) (process_read_odp get st2 client_id (unat qid) (unat mid)))
                 else Some (st1, None))
         | WC_RDMA_READ \<Rightarrow> Some (st, None)
         | WC_RECV \<Rightarrow>
             if wc_wr_id c \<noteq> 0 then
               map_option (apsnd Some) (process_write_twosided ins polled
                 (st\<lparr>sv_putcnt := sv_putcnt st + of_nat BATCH_SIZE\<rparr>) (wc_wr_id c) client_id (unat qid) (unat mid))
             else Some (st, None)
         | WC_OTHER \<Rightarrow> Some (st, None)))"

text \<open>The receive requests \<open>main\<close> posts on queue \<open>i\<close> of client \<open>c\<close> before it serves requests.\<close>

fun prepost :: "'s server \<Rightarrow> nat \<Rightarrow> nat \<Rightarrow> nat \<Rightarrow> 's server" where
  "prepost st c i 0 = st"
| "prepost st c i (Suc j) =
     prepost (if i < NUM_QUEUES div 2 then post_recv st c i else post_page_buffer st c i) c i j"

section \<open>Connections\<close>

datatype qstate = INIT | CONNECTED

record control =
  queue_ctr :: nat
  client_ctr :: nat
  q_state :: "qstate list list"

definition alloc_control :: control where
  "alloc_control = \<lparr>queue_ctr = 0, client_ctr = 0, q_state = replicate NUM_CLIENT (replicate NUM_QUEUES INIT)\<rparr>"

text \<open>\<open>set_state\<close> writes \<^verbatim>\<open>gctrl[c]->queues[i].state\<close>; an index out of range is a fault.\<close>

definition get_state :: "control \<Rightarrow> nat \<Rightarrow> nat \<Rightarrow> qstate option" where
  "get_state ct c i = do { row \<leftarrow> rd (q_state ct) c; rd row i }"

definition set_state :: "control \<Rightarrow> nat \<Rightarrow> nat \<Rightarrow> qstate \<Rightarrow> control option" where
  "set_state ct c i s = do {
     row \<leftarrow> rd (q_state ct) c;
     row' \<leftarrow> wr row i s;
     rows \<leftarrow> wr (q_state ct) c row';
     Some (ct\<lparr>q_state := rows\<rparr>) }"

text \<open>A request gets the next queue; it returns the client and queue number it was given.\<close>

definition on_connect_request :: "control \<Rightarrow> (control \<times> nat \<times> nat) option" where
  "on_connect_request ct =
     (let queue_number = queue_ctr ct; client_number = client_ctr ct;
          ct' = (if queue_number = NUM_QUEUES - 1
                 then ct\<lparr>client_ctr := client_ctr ct + 1, queue_ctr := 0\<rparr>
                 else ct\<lparr>queue_ctr := queue_number + 1\<rparr>)
      in do {
        s \<leftarrow> get_state ct client_number queue_number;
        if s = INIT then Some (ct', client_number, queue_number) else None })"

definition on_connection :: "control \<Rightarrow> nat \<Rightarrow> nat \<Rightarrow> control option" where
  "on_connection ct c i = do {
     s \<leftarrow> get_state ct c i;
     if s = INIT then set_state ct c i CONNECTED else None }"

definition on_disconnect :: "control \<Rightarrow> nat \<Rightarrow> nat \<Rightarrow> control option" where
  "on_disconnect ct c i = do {
     s \<leftarrow> get_state ct c i;
     if s = CONNECTED then set_state ct c i INIT else Some ct }"

datatype cm_event = CONNECT_REQUEST | ESTABLISHED nat nat | DISCONNECTED nat nat | UNKNOWN_EVENT

text \<open>\<open>on_event\<close> returns whether the caller's loop ends, and the queue a request was given.\<close>

fun on_event :: "control \<Rightarrow> cm_event \<Rightarrow> (control \<times> bool \<times> (nat \<times> nat) option) option" where
  "on_event ct CONNECT_REQUEST =
     do { (ct', q) \<leftarrow> on_connect_request ct; Some (ct', False, Some q) }"
| "on_event ct (ESTABLISHED c i) = do { ct' \<leftarrow> on_connection ct c i; Some (ct', False, None) }"
| "on_event ct (DISCONNECTED c i) = do { ct' \<leftarrow> on_disconnect ct c i; Some (ct', True, None) }"
| "on_event ct UNKNOWN_EVENT = Some (ct, True, None)"

text \<open>
  The loop of \<open>main\<close> that waits for queue \<open>i\<close> of client \<open>c\<close>: it ends when the queue is connected,
  when \<open>on_event\<close> returns 1 or when there is no event any more. It returns the queues that were
  handed out and the events that are left.
\<close>

fun accept_queue :: "control \<Rightarrow> nat \<Rightarrow> nat \<Rightarrow> cm_event list \<Rightarrow> (control \<times> (nat \<times> nat) list \<times> cm_event list) option" where
  "accept_queue ct c i [] = Some (ct, [], [])"
| "accept_queue ct c i (e # es) = do {
     (ct1, stop, q) \<leftarrow> on_event ct e;
     s \<leftarrow> get_state ct1 c i;
     if stop \<or> s = CONNECTED then Some (ct1, case_option [] (\<lambda>x. [x]) q, es)
     else do {
       (ct2, qs, rest) \<leftarrow> accept_queue ct1 c i es;
       Some (ct2, case_option [] (\<lambda>x. [x]) q @ qs, rest) } }"

fun accept_queues ::
  "control \<Rightarrow> (nat \<times> nat) list \<Rightarrow> cm_event list \<Rightarrow> (control \<times> (nat \<times> nat) list \<times> cm_event list) option" where
  "accept_queues ct [] es = Some (ct, [], es)"
| "accept_queues ct ((c, i) # cis) es = do {
     (ct1, qs, rest) \<leftarrow> accept_queue ct c i es;
     (ct2, qs', rest') \<leftarrow> accept_queues ct1 cis rest;
     Some (ct2, qs @ qs', rest') }"

text \<open>The loop at the end of \<open>main\<close>, for \<open>disconnects, etc.\<close>\<close>

fun serve_events :: "control \<Rightarrow> cm_event list \<Rightarrow> (control \<times> (nat \<times> nat) list \<times> cm_event list) option" where
  "serve_events ct [] = Some (ct, [], [])"
| "serve_events ct (e # es) = do {
     (ct1, stop, q) \<leftarrow> on_event ct e;
     if stop then Some (ct1, case_option [] (\<lambda>x. [x]) q, es)
     else do {
       (ct2, qs, rest) \<leftarrow> serve_events ct1 es;
       Some (ct2, case_option [] (\<lambda>x. [x]) q @ qs, rest) } }"

abbreviation all_queues :: "(nat \<times> nat) list" where
  "all_queues \<equiv> List.product [0..<NUM_CLIENT] [0..<NUM_QUEUES]"

definition main_events :: "cm_event list \<Rightarrow> (control \<times> (nat \<times> nat) list \<times> cm_event list) option" where
  "main_events es = do {
     (ct, qs, rest) \<leftarrow> accept_queues alloc_control all_queues es;
     (ct', qs', rest') \<leftarrow> serve_events ct rest;
     Some (ct', qs @ qs', rest') }"

definition control_ok :: "control \<Rightarrow> bool" where
  "control_ok ct \<longleftrightarrow> length (q_state ct) = NUM_CLIENT \<and> (\<forall>row\<in>set (q_state ct). length row = NUM_QUEUES) \<and>
     queue_ctr ct < NUM_QUEUES \<and> client_ctr ct * NUM_QUEUES + queue_ctr ct \<le> NUM_CLIENT * NUM_QUEUES"

abbreviation requests :: "control \<Rightarrow> nat" where
  "requests ct \<equiv> client_ctr ct * NUM_QUEUES + queue_ctr ct"

lemma set_state_ok:
  assumes "set_state ct c i s = Some ct'" "control_ok ct"
  shows "control_ok ct' \<and> requests ct' = requests ct"
  using assms set_update_subset_insert [of "q_state ct" c "(q_state ct ! c)[i := s]"]
  by (fastforce simp: set_state_def control_ok_def rd_def wr_def split: bind_splits if_splits)

lemma on_connect_request_ok:
  assumes "on_connect_request ct = Some (ct', q)" "control_ok ct"
  shows "control_ok ct' \<and> requests ct' = Suc (requests ct) \<and>
    q = (requests ct div NUM_QUEUES, requests ct mod NUM_QUEUES) \<and> requests ct < NUM_CLIENT * NUM_QUEUES"
proof -
  from assms have "client_ctr ct < NUM_CLIENT" "q = (client_ctr ct, queue_ctr ct)"
    by (auto simp: on_connect_request_def get_state_def control_ok_def rd_def Let_def
        split: bind_splits if_splits)
  with assms show ?thesis
    by (auto simp: on_connect_request_def control_ok_def Let_def NUM_QUEUES_def NUM_CLIENT_def
        split: bind_splits if_splits)
qed

text \<open>The queues between two states of the counters were handed out, in order.\<close>

definition handed :: "control \<Rightarrow> (nat \<times> nat) list \<Rightarrow> control \<Rightarrow> bool" where
  "handed ct qs ct' \<longleftrightarrow> control_ok ct' \<and> requests ct \<le> requests ct' \<and>
     qs = map (\<lambda>n. (n div NUM_QUEUES, n mod NUM_QUEUES)) [requests ct..<requests ct']"

lemma handed_trans: "handed ct qs ct1 \<Longrightarrow> handed ct1 qs' ct2 \<Longrightarrow> handed ct (qs @ qs') ct2"
  using upt_add_eq_append [of "requests ct" "requests ct1" "requests ct2 - requests ct1"]
  by (simp add: handed_def)

lemma handed_refl: "control_ok ct \<Longrightarrow> handed ct [] ct"
  by (simp add: handed_def)

lemma on_event_handed:
  assumes "on_event ct e = Some (ct1, stop, q)" "control_ok ct"
  shows "handed ct (case_option [] (\<lambda>x. [x]) q) ct1"
proof (cases "e = CONNECT_REQUEST")
  case True
  with assms(1) obtain x where x: "on_connect_request ct = Some (ct1, x)" "q = Some x"
    by (auto split: bind_splits)
  from on_connect_request_ok [OF x(1) assms(2)] x(2) show ?thesis by (simp add: handed_def)
next
  case False
  with assms(1) have "q = None \<and> (ct1 = ct \<or> (\<exists>c i s. set_state ct c i s = Some ct1))"
    by (cases e) (auto simp: on_connection_def on_disconnect_def split: bind_splits if_splits)
  then have "control_ok ct1" "requests ct1 = requests ct" "q = None"
    using set_state_ok assms(2) by blast+
  then show ?thesis by (simp add: handed_def)
qed

lemma accept_queue_handed:
  "accept_queue ct c i es = Some (ct', qs, rest) \<Longrightarrow> control_ok ct \<Longrightarrow> handed ct qs ct'"
proof (induction es arbitrary: ct qs)
  case (Cons e es)
  from Cons.prems(1) obtain ct1 stop q s where e: "on_event ct e = Some (ct1, stop, q)" "get_state ct1 c i = Some s"
    by (auto split: bind_splits)
  note h = on_event_handed [OF e(1) Cons.prems(2)]
  show ?case
  proof (cases "stop \<or> s = CONNECTED")
    case False
    with Cons.prems(1) e obtain qs' where qs': "accept_queue ct1 c i es = Some (ct', qs', rest)" "qs = case_option [] (\<lambda>x. [x]) q @ qs'"
      by (auto split: bind_splits)
    with handed_trans [OF h Cons.IH [OF qs'(1)]] h show ?thesis by (simp add: handed_def)
  qed (use Cons.prems(1) e h in auto)
qed (auto intro: handed_refl)

lemma accept_queues_handed:
  "accept_queues ct cis es = Some (ct', qs, rest) \<Longrightarrow> control_ok ct \<Longrightarrow> handed ct qs ct'"
proof (induction cis arbitrary: ct qs es)
  case (Cons ci cis)
  obtain c i where ci: "ci = (c, i)" by force
  with Cons.prems(1) obtain ct1 q1 r1 q2 where a: "accept_queue ct c i es = Some (ct1, q1, r1)"
    "accept_queues ct1 cis r1 = Some (ct', q2, rest)" "qs = q1 @ q2" by (auto split: bind_splits)
  note h = accept_queue_handed [OF a(1) Cons.prems(2)]
  from handed_trans [OF h Cons.IH [OF a(2)]] h a(3) show ?case by (simp add: handed_def)
qed (auto intro: handed_refl)

lemma serve_events_handed:
  "serve_events ct es = Some (ct', qs, rest) \<Longrightarrow> control_ok ct \<Longrightarrow> handed ct qs ct'"
proof (induction es arbitrary: ct qs)
  case (Cons e es)
  from Cons.prems(1) obtain ct1 stop q where e: "on_event ct e = Some (ct1, stop, q)" by (auto split: bind_splits)
  note h = on_event_handed [OF e Cons.prems(2)]
  show ?case
  proof (cases stop)
    case False
    with Cons.prems(1) e obtain qs' where qs': "serve_events ct1 es = Some (ct', qs', rest)" "qs = case_option [] (\<lambda>x. [x]) q @ qs'"
      by (auto split: bind_splits)
    with handed_trans [OF h Cons.IH [OF qs'(1)]] h show ?thesis by (simp add: handed_def)
  qed (use Cons.prems(1) e h in auto)
qed (auto intro: handed_refl)

text \<open>Every client connects its queues one after the other.\<close>

definition setup_events :: "cm_event list" where
  "setup_events = concat (map (\<lambda>(c, i). [CONNECT_REQUEST, ESTABLISHED c i]) all_queues)"

definition all_connected :: control where
  "all_connected = \<lparr>queue_ctr = 0, client_ctr = NUM_CLIENT, q_state = replicate NUM_CLIENT (replicate NUM_QUEUES CONNECTED)\<rparr>"

lemma accept_setup: "accept_queues alloc_control all_queues (setup_events @ es) = Some (all_connected, all_queues, es)"
  by (simp add: setup_events_def NUM_CLIENT_def NUM_QUEUES_def upt_rec alloc_control_def all_connected_def
      on_connect_request_def on_connection_def get_state_def set_state_def rd_def wr_def Let_def numeral_eq_Suc)

section \<open>Sending the filter\<close>

text \<open>
  \<open>send_bf\<close> overwrites the client's bit array; the mutex \<open>m\<close> of the queue is not released when
  the completion is an error (\<open>polled\<close> is false). \<open>rdpma_bf_sender\<close> runs it every ten seconds.
\<close>

definition rdma_write_bits :: "bloom_filter \<Rightarrow> u64 list \<Rightarrow> bloom_filter option" where
  "rdma_write_bits flt bits =
     (if length bits \<le> length (bitmap flt)
      then Some (flt\<lparr>bitmap := bits @ drop (length bits) (bitmap flt)\<rparr>) else None)"

definition send_bf :: "bool \<Rightarrow> bool \<Rightarrow> cbf \<Rightarrow> bloom_filter \<Rightarrow> (bool \<times> bloom_filter) option" where
  "send_bf polled m bf flt =
     (if m then None
      else if polled then do { flt' \<leftarrow> rdma_write_bits flt (m_boolbitarray bf); Some (False, flt') }
      else Some (True, flt))"

definition bf_sender_round ::
  "bool \<Rightarrow> bool \<Rightarrow> cbf option \<Rightarrow> bloom_filter \<Rightarrow> (bool \<times> cbf option \<times> bloom_filter) option" where
  "bf_sender_round polled m global_bf flt =
     (case global_bf of None \<Rightarrow> Some (m, None, flt)
      | Some bf \<Rightarrow> do {
          bf' \<leftarrow> ToOrdinaryBloomFilter bf;
          (m', flt') \<leftarrow> send_bf polled m bf' flt;
          Some (m', Some bf', flt') })"

text \<open>After one failed round the next one blocks on the mutex.\<close>

lemma bf_sender_stuck:
  assumes "bf_sender_round False False (Some bf) flt = Some (m, bf', flt')"
  shows "m \<and> bf_sender_round polled m bf' flt' = None"
proof -
  from assms obtain b where "ToOrdinaryBloomFilter bf = Some b" "m" "bf' = Some b"
    by (cases "ToOrdinaryBloomFilter bf") (simp_all add: bf_sender_round_def send_bf_def)
  then show ?thesis by (simp add: bf_sender_round_def send_bf_def bind_eq_None_conv)
qed

section \<open>The page region\<close>

definition page_bytes :: "'s server \<Rightarrow> nat \<Rightarrow> nat set" where
  "page_bytes st n = {GET_FREE_PAGE_REGION (global_mr st) + PAGE_SIZE * n ..<
     GET_FREE_PAGE_REGION (global_mr st) + PAGE_SIZE * n + PAGE_SIZE}"

definition entry_bytes :: "'s server \<Rightarrow> nat \<Rightarrow> nat \<Rightarrow> nat \<Rightarrow> nat set" where
  "entry_bytes st cid qid mid = {meta_entry st cid qid mid ..< meta_entry st cid qid mid + ENTRY_SIZE}"

text \<open>
  The receive requests a state may have posted: none with a buffer on a read queue, and on a
  write queue only buffers of four pages that the counter has handed out, each once.
\<close>

definition page_buffer :: "'s server \<Rightarrow> nat \<Rightarrow> bool" where
  "page_buffer st a \<longleftrightarrow> (\<exists>n. a = GET_FREE_PAGE_REGION (global_mr st) + PAGE_SIZE * (BATCH_SIZE * n) \<and>
     BATCH_SIZE * n + BATCH_SIZE \<le> unat (page_offset st))"

abbreviation wqueue :: "nat \<Rightarrow> bool" where
  "wqueue q \<equiv> NUM_QUEUES div 2 \<le> q"

definition posted_typed :: "'s server \<Rightarrow> bool" where
  "posted_typed st \<longleftrightarrow> 4 dvd unat (page_offset st) \<and>
     (\<forall>c q. if wqueue q then distinct (posted st c q) \<and> (\<forall>a\<in>set (posted st c q). page_buffer st a)
            else set (posted st c q) \<subseteq> {0}) \<and>
     (\<forall>c q c' q'. wqueue q \<and> wqueue q' \<and> (c, q) \<noteq> (c', q') \<longrightarrow> set (posted st c q) \<inter> set (posted st c' q') = {})"

lemma posted_typed_cong:
  "posted st' = posted st \<Longrightarrow> page_offset st' = page_offset st \<Longrightarrow> global_mr st' = global_mr st \<Longrightarrow>
     posted_typed st' = posted_typed st"
  by (simp add: posted_typed_def page_buffer_def)

lemma post_recv_typed: "posted_typed st \<Longrightarrow> \<not> wqueue q \<Longrightarrow> posted_typed (post_recv st c q)"
proof -
  have "page_buffer (post_recv st c q) = page_buffer st"
    by (simp add: page_buffer_def fun_eq_iff post_recv_def)
  then show "posted_typed st \<Longrightarrow> \<not> wqueue q \<Longrightarrow> posted_typed (post_recv st c q)"
    by (auto simp: posted_typed_def post_recv_def)
qed

text \<open>The buffer at the counter is new: it is behind every buffer handed out before.\<close>

lemma page_buffer_new: "page_buffer st a \<Longrightarrow> a + PAGE_SIZE * BATCH_SIZE \<le> free_page st"
proof -
  assume "page_buffer st a"
  then obtain n where n: "a = GET_FREE_PAGE_REGION (global_mr st) + PAGE_SIZE * (BATCH_SIZE * n)"
    "BATCH_SIZE * n + BATCH_SIZE \<le> unat (page_offset st)" by (auto simp: page_buffer_def)
  then have "PAGE_SIZE * (BATCH_SIZE * n + BATCH_SIZE) \<le> PAGE_SIZE * unat (page_offset st)"
    by simp
  with n show ?thesis by (simp add: free_page_def algebra_simps)
qed

lemma unat_add_small:
  "unat (w :: u64) + n < 2 ^ 64 \<Longrightarrow> unat (w + of_nat n) = unat w + n"
proof -
  assume "unat w + n < 2 ^ 64"
  moreover have "w + of_nat n = of_nat (unat w + n)" by simp
  ultimately show ?thesis using unat_of_nat_small [of "unat w + n", where 'a = 64] by simp
qed

lemma post_page_buffer_typed:
  assumes "posted_typed st" "wqueue q" "unat (page_offset st) + BATCH_SIZE < 2 ^ 64"
  shows "posted_typed (post_page_buffer st c q)"
proof -
  let ?st = "post_page_buffer st c q"
  have off: "unat (page_offset ?st) = unat (page_offset st) + 4"
    using unat_add_small [of "page_offset st" 4] assms(3)
    by (simp add: post_page_buffer_def post_recv_with_addr_def BATCH_SIZE_def)
  have gm [simp]: "global_mr ?st = global_mr st"
    by (simp add: post_page_buffer_def post_recv_with_addr_def)
  have old: "page_buffer ?st a" if "page_buffer st a" for a
    using that off by (fastforce simp: page_buffer_def)
  have d: "4 dvd unat (page_offset st)" using assms(1) by (simp add: posted_typed_def)
  then have new: "page_buffer ?st (free_page st)"
    unfolding page_buffer_def free_page_def
    by (intro exI [of _ "unat (page_offset st) div 4"]) (simp add: off BATCH_SIZE_def)
  have fresh: "free_page st \<notin> set (posted st c' q')" if "wqueue q'" for c' q'
    using page_buffer_new [of st "free_page st"] assms(1) that
    by (fastforce simp: posted_typed_def PAGE_SIZE_def BATCH_SIZE_def)
  have p: "posted ?st c' q' = (if c' = c \<and> q' = q then posted st c q @ [free_page st] else posted st c' q')" for c' q'
    by (simp add: post_page_buffer_def post_recv_with_addr_def)
  show ?thesis
    unfolding posted_typed_def
  proof (intro conjI allI impI)
    show "4 dvd unat (page_offset ?st)" using d off by simp
    fix c' q'
    show "if wqueue q' then distinct (posted ?st c' q') \<and> (\<forall>a\<in>set (posted ?st c' q'). page_buffer ?st a)
      else set (posted ?st c' q') \<subseteq> {0}"
      using assms(1,2) fresh old new by (auto simp: posted_typed_def p)
    fix c2 q2
    assume a: "wqueue q' \<and> wqueue q2 \<and> (c', q') \<noteq> (c2, q2)"
    then have "set (posted st c' q') \<inter> set (posted st c2 q2) = {}"
      using assms(1) unfolding posted_typed_def by blast
    with a fresh show "set (posted ?st c' q') \<inter> set (posted ?st c2 q2) = {}"
      by (auto simp: p)
  qed
qed

lemma batch_loop_fields:
  "batch_loop ins st kvs = Some st' \<Longrightarrow> st' = st\<lparr>sv_kv := sv_kv st'\<rparr>"
proof (induction kvs arbitrary: st)
  case (Cons kv kvs)
  obtain k a where kv: "kv = (k, a)" by force
  with Cons.prems obtain st1 where st1: "sv_insert ins st k a = Some st1" "batch_loop ins st1 kvs = Some st'"
    by (auto split: bind_splits)
  then have "st1 = st\<lparr>sv_kv := sv_kv st1\<rparr>" by (auto simp: sv_insert_def split: bind_splits)
  with Cons.IH [OF st1(2)] show ?case by (metis server.unfold_congs(1) server.surjective server.update_convs(1))
qed simp

lemma process_read_odp_fields:
  "process_read_odp get st cid qid mid = Some (st', r) \<Longrightarrow>
     st' = st\<lparr>sv_kv := sv_kv st', found_cnt := found_cnt st', notfound_cnt := notfound_cnt st'\<rparr>"
  by (auto simp: process_read_odp_def sv_lookup_def Let_def split: bind_splits if_splits)

section \<open>Properties\<close>





text \<open>
  C21: in every run of \<open>main\<close> the connection requests get the queues in order, client by client, and
  each queue once, at most 32 of them. When every client has connected its queues, \<open>main\<close> has
  accepted them all; one more request then faults, since it takes the queue of a fifth client, and
  the first client that disconnects ends the loop, so no event after it is served.
\<close>

theorem connections_run_out:
  "(\<forall>ct qs rest. main_events es = Some (ct, qs, rest) \<longrightarrow>
      qs = map (\<lambda>n. (n div NUM_QUEUES, n mod NUM_QUEUES)) [0..<length qs] \<and> length qs \<le> NUM_CLIENT * NUM_QUEUES) \<and>
   main_events setup_events = Some (all_connected, all_queues, []) \<and>
   main_events (setup_events @ CONNECT_REQUEST # es) = None \<and>
   (c < NUM_CLIENT \<and> i < NUM_QUEUES \<longrightarrow>
      (\<exists>ct. main_events (setup_events @ DISCONNECTED c i # es) = Some (ct, all_queues, es) \<and> get_state ct c i = Some INIT))"
proof (intro conjI allI impI)
  fix ct qs rest assume m: "main_events es = Some (ct, qs, rest)"
  have ok: "control_ok alloc_control" "requests alloc_control = 0" by (simp_all add: control_ok_def alloc_control_def NUM_QUEUES_def)
  from m obtain ct1 q1 r1 q2 where a: "accept_queues alloc_control all_queues es = Some (ct1, q1, r1)"
    "serve_events ct1 r1 = Some (ct, q2, rest)" "qs = q1 @ q2" by (auto simp: main_events_def split: bind_splits)
  note h = accept_queues_handed [OF a(1) ok(1)]
  have "handed alloc_control qs ct"
    using handed_trans [OF h serve_events_handed [OF a(2)]] h a(3) by (simp add: handed_def)
  then show "qs = map (\<lambda>n. (n div NUM_QUEUES, n mod NUM_QUEUES)) [0..<length qs]" "length qs \<le> NUM_CLIENT * NUM_QUEUES"
    using ok(2) by (simp_all add: handed_def control_ok_def)
next
  show "main_events setup_events = Some (all_connected, all_queues, [])"
    using accept_setup [of "[]"] by (simp add: main_events_def)
  show "main_events (setup_events @ CONNECT_REQUEST # es) = None"
    by (simp add: main_events_def accept_setup on_connect_request_def get_state_def rd_def all_connected_def)
  assume "c < NUM_CLIENT \<and> i < NUM_QUEUES"
  then show "\<exists>ct. main_events (setup_events @ DISCONNECTED c i # es) = Some (ct, all_queues, es) \<and> get_state ct c i = Some INIT"
    by (simp add: main_events_def accept_setup on_disconnect_def get_state_def set_state_def rd_def wr_def all_connected_def)
qed

lemma connections_run_out_witness:
  "\<exists>ct. main_events (setup_events @ [DISCONNECTED 1 2, CONNECT_REQUEST]) = Some (ct, all_queues, [CONNECT_REQUEST]) \<and>
     get_state ct 1 2 = Some INIT"
  using connections_run_out [of "[CONNECT_REQUEST]" 1 2] by (simp add: NUM_CLIENT_def NUM_QUEUES_def)

end
