(* ===== verification/Page_Client.thy ===== *)
theory Page_Client
  imports Wire_Protocol Client_Bloom
begin

text \<open>
  The client kernel module: the put and get paths of \<^verbatim>\<open>client/rdpma.c\<close> in the \<^verbatim>\<open>TWOSIDED\<close> build
  with the client-side filter, the one-sided paths, and the cleancache operations of
  \<^verbatim>\<open>client/julee.c\<close> on top of them.

  Pages are lists of 64-bit words. What the kernel and the verbs library return (allocations,
  completions) is an input of each operation. A spin lock that is never released, a poll loop
  without a completion, \<^verbatim>\<open>BUG_ON\<close> and a bad pointer are all \<open>None\<close>: the call does not return.
\<close>

section \<open>State\<close>

type_synonym page = "u64 list"

record rdma_queue =
  nr_buffered :: nat
  q_buffer :: "page list"
  q_keys :: "u64 list"
  global_lock :: bool
  pending :: nat

record client =
  bf :: bloom_filter
  queues :: "rdma_queue list"

definition new_queue :: "page \<Rightarrow> rdma_queue" where
  "new_queue p = \<lparr>nr_buffered = 0, q_buffer = replicate BATCH_SIZE p, q_keys = replicate BATCH_SIZE 0,
     global_lock = False, pending = 0\<rparr>"

definition new_client :: "bloom_filter \<Rightarrow> page \<Rightarrow> client" where
  "new_client flt p = \<lparr>bf = flt, queues = replicate NUM_QUEUES (new_queue p)\<rparr>"

definition rdpma_get_queue :: "client \<Rightarrow> nat \<Rightarrow> qp_type \<Rightarrow> rdma_queue option" where
  "rdpma_get_queue c cpuid t = rd (queues c) (rdpma_get_queue_id (length (queues c)) cpuid t)"

definition set_queue :: "client \<Rightarrow> nat \<Rightarrow> rdma_queue \<Rightarrow> client option" where
  "set_queue c i q = do { qs \<leftarrow> wr (queues c) i q; Some (c\<lparr>queues := qs\<rparr>) }"

definition get_queue_type :: "nat \<Rightarrow> nat \<Rightarrow> qp_type option" where
  "get_queue_type numqueues idx =
     (if idx < numqueues div 2 then Some QP_READ_SYNC
      else if idx < numqueues then Some QP_WRITE_SYNC else None)"

definition spin_lock :: "rdma_queue \<Rightarrow> rdma_queue option" where
  "spin_lock q = (if global_lock q then None else Some (q\<lparr>global_lock := True\<rparr>))"

definition spin_unlock :: "rdma_queue \<Rightarrow> rdma_queue" where
  "spin_unlock q = q\<lparr>global_lock := False\<rparr>"

text \<open>\<^verbatim>\<open>-ENOMEM\<close>\<close>

definition ENOMEM_ret :: int where
  "ENOMEM_ret = -12"

text \<open>
  What the loop around \<open>ib_poll_cq\<close> ends with: no completion ever, a negative return value, a
  completion with an error status, or a successful one with its immediate word.
\<close>

datatype poll = Poll_never | Poll_failed | Wc_error | Wc_ok u32

text \<open>
  \<open>get_req_for_page\<close> and \<open>get_req_for_buf\<close> mean to return \<^verbatim>\<open>-ENOMEM\<close> on both errors. But the test
  is on the address of the result and not on what was allocated, so a failed allocation goes on
  to a null pointer; and after a mapping error the address of the caller's variable is freed.
\<close>

datatype req_result = Req_ok | Req_no_memory | Req_mapping_error

definition get_req_for_page :: "req_result \<Rightarrow> int option" where
  "get_req_for_page r = (case r of Req_ok \<Rightarrow> Some 0 | Req_no_memory \<Rightarrow> None | Req_mapping_error \<Rightarrow> None)"

definition get_req_for_buf :: "req_result \<Rightarrow> int option" where
  "get_req_for_buf r = (case r of Req_ok \<Rightarrow> Some 0 | Req_no_memory \<Rightarrow> None | Req_mapping_error \<Rightarrow> None)"

section \<open>Put\<close>

text \<open>The inputs of a put: whether the allocation and the two mappings succeed, and the polls.\<close>

record put_env =
  pe_kzalloc :: bool
  pe_req0 :: req_result
  pe_req1 :: req_result
  pe_send :: poll
  pe_recv :: poll
  pe_post_recv :: bool

text \<open>The keys written to the metadata entry, then the pages sent with the immediate word.\<close>

record put_msg =
  pm_keys :: "u64 list"
  pm_pages :: "page list"
  pm_imm :: u32
  pm_qid :: nat
  pm_mid :: nat

text \<open>
  \<open>rdpma_put\<close> up to \<open>ib_post_send\<close>: \<open>Inl\<close> is the value it returned, \<open>Inr\<close> the message it posted. The
  page waits in the buffer of the queue until the fourth one is there. The early returns after
  that point keep the lock.
\<close>

definition rdpma_put_begin ::
  "put_env \<Rightarrow> client \<Rightarrow> nat \<Rightarrow> page \<Rightarrow> u64 \<Rightarrow> u32 \<Rightarrow> (client \<times> (int + put_msg)) option" where
  "rdpma_put_begin env c cpuid page key batch = do {
     q \<leftarrow> rdpma_get_queue c cpuid QP_WRITE_SYNC;
     let queue_id = rdpma_get_queue_id (length (queues c)) cpuid QP_WRITE_SYNC;
     flt \<leftarrow> bloom_filter_add (bf c) (bytes_of_u64 key);
     q1 \<leftarrow> spin_lock q;
     let buf_id = nr_buffered q1;
     if BATCH_SIZE \<le> buf_id then None
     else do {
       buf \<leftarrow> wr (q_buffer q1) buf_id page;
       ks \<leftarrow> wr (q_keys q1) buf_id key;
       let q2 = q1\<lparr>nr_buffered := buf_id + 1, q_buffer := buf, q_keys := ks\<rparr>;
       if buf_id < BATCH_SIZE - 1 then do {
         c' \<leftarrow> set_queue (c\<lparr>bf := flt\<rparr>) queue_id (spin_unlock q2);
         Some (c', Inl 0) }
       else do {
         c' \<leftarrow> set_queue (c\<lparr>bf := flt\<rparr>) queue_id q2;
         if \<not> pe_kzalloc env then Some (c', Inl ENOMEM_ret)
         else do {
           r0 \<leftarrow> get_req_for_buf (pe_req0 env);
           if r0 \<noteq> 0 then Some (c', Inl r0)
           else do {
             r1 \<leftarrow> get_req_for_buf (pe_req1 env);
             if r1 \<noteq> 0 then Some (c', Inl r1)
             else Some (c', Inr \<lparr>pm_keys = take BATCH_SIZE ks, pm_pages = take BATCH_SIZE buf,
               pm_imm = htonl (bit_mask batch 0 (msg_code MSG_WRITE) (tx_code TX_WRITE_BEGIN) (of_nat queue_id)),
               pm_qid = queue_id, pm_mid = 0\<rparr>) } } } } }"

text \<open>
  The rest of \<open>rdpma_put\<close>: an error of the send completion goes to \<^verbatim>\<open>out\<close>, an error of the
  receive completion returns with the lock held.
\<close>

definition put_out :: "put_env \<Rightarrow> client \<Rightarrow> nat \<Rightarrow> rdma_queue \<Rightarrow> (client \<times> int) option" where
  "put_out env c queue_id q = do {
     c' \<leftarrow> set_queue c queue_id (spin_unlock (q\<lparr>nr_buffered := 0\<rparr>));
     if pe_post_recv env then Some (c', 0) else None }"

definition rdpma_put_end :: "put_env \<Rightarrow> client \<Rightarrow> nat \<Rightarrow> (client \<times> int) option" where
  "rdpma_put_end env c cpuid = do {
     q \<leftarrow> rdpma_get_queue c cpuid QP_WRITE_SYNC;
     let queue_id = rdpma_get_queue_id (length (queues c)) cpuid QP_WRITE_SYNC;
     case pe_send env of
       Poll_never \<Rightarrow> None
     | Wc_ok _ \<Rightarrow>
         (case pe_recv env of
            Poll_never \<Rightarrow> None
          | Wc_ok _ \<Rightarrow> put_out env c queue_id q
          | _ \<Rightarrow> Some (c, -1))
     | _ \<Rightarrow> put_out env c queue_id q }"

definition rdpma_put ::
  "put_env \<Rightarrow> client \<Rightarrow> nat \<Rightarrow> page \<Rightarrow> u64 \<Rightarrow> u32 \<Rightarrow> (client \<times> int) option" where
  "rdpma_put env c cpuid page key batch = do {
     (c1, r) \<leftarrow> rdpma_put_begin env c cpuid page key batch;
     case r of Inl ret \<Rightarrow> Some (c1, ret) | Inr _ \<Rightarrow> rdpma_put_end env c1 cpuid }"

section \<open>Get\<close>

record get_env =
  ge_req0 :: req_result
  ge_kzalloc :: bool
  ge_req1 :: req_result
  ge_send :: poll
  ge_recv :: poll
  ge_post_recv :: bool

text \<open>The \<^verbatim>\<open>rdpma_metadata\<close> written to the entry of the queue and message number.\<close>

record get_msg =
  gm_meta :: "u64 list"
  gm_imm :: u32
  gm_qid :: nat
  gm_mid :: nat

definition rdpma_get_begin ::
  "get_env \<Rightarrow> client \<Rightarrow> nat \<Rightarrow> u64 \<Rightarrow> u64 \<Rightarrow> u32 \<Rightarrow> (client \<times> (int + get_msg)) option" where
  "rdpma_get_begin env c cpuid raddr key batch = do {
     q \<leftarrow> rdpma_get_queue c cpuid QP_READ_SYNC;
     let queue_id = rdpma_get_queue_id (length (queues c)) cpuid QP_READ_SYNC;
     let msg_id = rdpma_get_msg_id (length (queues c)) cpuid;
     isIn \<leftarrow> bloom_filter_check (bf c) (bytes_of_u64 key);
     if \<not> isIn then Some (c, Inl (-1))
     else do {
       r0 \<leftarrow> get_req_for_page (ge_req0 env);
       if r0 \<noteq> 0 then Some (c, Inl r0)
       else if \<not> ge_kzalloc env then Some (c, Inl ENOMEM_ret)
       else do {
         r1 \<leftarrow> get_req_for_buf (ge_req1 env);
         if r1 \<noteq> 0 then Some (c, Inl r1)
         else do {
           q1 \<leftarrow> spin_lock q;
           c' \<leftarrow> set_queue c queue_id q1;
           Some (c', Inr \<lparr>gm_meta = [key, ucast batch, raddr],
             gm_imm = htonl (bit_mask batch (of_nat msg_id) (msg_code MSG_READ) (tx_code TX_READ_BEGIN) (of_nat queue_id)),
             gm_qid = queue_id, gm_mid = msg_id\<rparr>) } } } }"

text \<open>The state of the transaction when the polls are over; it is 0 when one of them failed.\<close>

definition get_tx :: "get_env \<Rightarrow> u32 option" where
  "get_tx env =
     (case ge_send env of
        Poll_never \<Rightarrow> None
      | Wc_ok _ \<Rightarrow>
          (case ge_recv env of
             Poll_never \<Rightarrow> None
           | Wc_ok imm \<Rightarrow> (case bit_unmask (ntohl imm) of (num, mid, typ, tx, qid) \<Rightarrow> Some tx)
           | _ \<Rightarrow> Some 0)
      | _ \<Rightarrow> Some 0)"

definition rdpma_get_end :: "get_env \<Rightarrow> client \<Rightarrow> nat \<Rightarrow> (client \<times> int) option" where
  "rdpma_get_end env c cpuid = do {
     q \<leftarrow> rdpma_get_queue c cpuid QP_READ_SYNC;
     let queue_id = rdpma_get_queue_id (length (queues c)) cpuid QP_READ_SYNC;
     tx \<leftarrow> get_tx env;
     c' \<leftarrow> set_queue c queue_id (spin_unlock q);
     if \<not> ge_post_recv env then None
     else Some (c', if tx = tx_code TX_READ_ABORTED then -1 else 0) }"

definition rdpma_get ::
  "get_env \<Rightarrow> client \<Rightarrow> nat \<Rightarrow> u64 \<Rightarrow> u64 \<Rightarrow> u32 \<Rightarrow> (client \<times> int) option" where
  "rdpma_get env c cpuid raddr key batch = do {
     (c1, r) \<leftarrow> rdpma_get_begin env c cpuid raddr key batch;
     case r of Inl ret \<Rightarrow> Some (c1, ret) | Inr _ \<Rightarrow> rdpma_get_end env c1 cpuid }"

section \<open>One-sided operations\<close>

text \<open>
  The completions each call of \<open>ib_process_cq_direct\<close> handles are a list of numbers; every one of
  them runs \<open>rdpma_rdma_write_done\<close> or \<open>rdpma_rdma_read_done\<close>, which lower \<open>pending\<close>. The loops of
  \<open>poll_target\<close> and \<open>drain_queue\<close> spin (\<open>None\<close>) if the list ends first. They return what is still
  pending and the rest of the list.
\<close>

definition QP_MAX_SEND_WR :: nat where
  "QP_MAX_SEND_WR = 4096"

fun poll_target :: "nat \<Rightarrow> nat \<Rightarrow> nat list \<Rightarrow> (nat \<times> nat list) option" where
  "poll_target target pend ns =
     (if target = 0 \<or> pend = 0 then Some (pend, ns)
      else case ns of [] \<Rightarrow> None
        | n # ns' \<Rightarrow> let k = min (min n target) pend in poll_target (target - k) (pend - k) ns')"

fun drain_queue :: "nat \<Rightarrow> nat list \<Rightarrow> (nat \<times> nat list) option" where
  "drain_queue pend ns =
     (if pend = 0 then Some (pend, ns)
      else case ns of [] \<Rightarrow> None | n # ns' \<Rightarrow> drain_queue (pend - min (min n 16) pend) ns')"

text \<open>The back pressure before a request is posted.\<close>

fun back_pressure :: "nat \<Rightarrow> nat \<Rightarrow> nat \<Rightarrow> nat list \<Rightarrow> (nat \<times> nat list) option" where
  "back_pressure 0 limit pend ns = None"
| "back_pressure (Suc fuel) limit pend ns =
     (if pend < limit then Some (pend, ns)
      else if QP_MAX_SEND_WR < pend then None
      else do { (pend', ns') \<leftarrow> poll_target 2048 pend ns; back_pressure fuel limit pend' ns' })"

declare poll_target.simps [simp del] drain_queue.simps [simp del]

text \<open>
  \<open>rdpma_put_onesided\<close> and \<open>rdpma_get_onesided\<close>: the page is written to, or read from, the
  server's region \<open>mr\<close> at \<open>roffset\<close>. The inputs are the mapping, whether \<open>ib_post_send\<close> accepts the
  request (a refusal is a \<^verbatim>\<open>BUG\<close>), and the completions.
\<close>

record one_env =
  oe_req :: req_result
  oe_posts :: bool
  oe_done :: "nat list"

definition rdpma_post_rdma :: "bool \<Rightarrow> nat \<Rightarrow> nat option" where
  "rdpma_post_rdma posts pend = (if posts then Some (pend + 1) else None)"

definition rdpma_onesided :: "nat \<Rightarrow> one_env \<Rightarrow> rdma_queue \<Rightarrow> (rdma_queue \<times> int) option" where
  "rdpma_onesided limit env q = do {
     (p1, ns) \<leftarrow> back_pressure (length (oe_done env) + 1) limit (pending q) (oe_done env);
     r \<leftarrow> get_req_for_page (oe_req env);
     if r \<noteq> 0 then Some (q\<lparr>pending := p1\<rparr>, r)
     else do {
       p2 \<leftarrow> rdpma_post_rdma (oe_posts env) p1;
       (p3, _) \<leftarrow> drain_queue p2 ns;
       Some (q\<lparr>pending := p3\<rparr>, 0) } }"

definition rdpma_put_onesided ::
  "one_env \<Rightarrow> (nat \<Rightarrow> page) \<Rightarrow> client \<Rightarrow> nat \<Rightarrow> page \<Rightarrow> nat \<Rightarrow> (client \<times> (nat \<Rightarrow> page) \<times> int) option" where
  "rdpma_put_onesided env mr c cpuid page roffset = do {
     q \<leftarrow> rdpma_get_queue c cpuid QP_WRITE_SYNC;
     (q', ret) \<leftarrow> rdpma_onesided (QP_MAX_SEND_WR - 8) env q;
     c' \<leftarrow> set_queue c (rdpma_get_queue_id (length (queues c)) cpuid QP_WRITE_SYNC) q';
     Some (c', if ret = 0 then mr(roffset := page) else mr, ret) }"

definition rdpma_get_onesided ::
  "one_env \<Rightarrow> (nat \<Rightarrow> page) \<Rightarrow> client \<Rightarrow> nat \<Rightarrow> page \<Rightarrow> nat \<Rightarrow> (client \<times> page \<times> int) option" where
  "rdpma_get_onesided env mr c cpuid page roffset = do {
     q \<leftarrow> rdpma_get_queue c cpuid QP_READ_SYNC;
     (q', ret) \<leftarrow> rdpma_onesided QP_MAX_SEND_WR env q;
     c' \<leftarrow> set_queue c (rdpma_get_queue_id (length (queues c)) cpuid QP_READ_SYNC) q';
     Some (c', if ret = 0 then mr roffset else page, ret) }"

section \<open>Cleancache operations\<close>

text \<open>
  \<^verbatim>\<open>julee_HASHTABLE\<close> and \<^verbatim>\<open>julee_FLUSH\<close> are not defined in the build. A put with \<open>onesided\<close> set
  then reads the offset through a pointer that was never set.
\<close>

record julee =
  onesided :: bool
  put_cnt :: int
  get_cnt :: int
  pool_id :: int
  cl :: client

definition julee_put_page ::
  "put_env \<Rightarrow> julee \<Rightarrow> nat \<Rightarrow> u64 \<Rightarrow> u64 \<Rightarrow> page \<Rightarrow> julee option" where
  "julee_put_page env j cpuid oid index page =
     (let longkey = get_longkey oid index
      in if onesided j then None
         else do {
           (c, ret) \<leftarrow> rdpma_put env (cl j) cpuid page longkey 1;
           Some (j\<lparr>cl := c, put_cnt := put_cnt j + 1\<rparr>) })"

text \<open>
  \<open>data\<close> is what the server writes into the page while the get waits. The offset of a one-sided
  get stays 0. Only the return value -1 counts as a miss.
\<close>

definition julee_get_page ::
  "get_env \<Rightarrow> one_env \<Rightarrow> (nat \<Rightarrow> page) \<Rightarrow> page option \<Rightarrow> julee \<Rightarrow> nat \<Rightarrow> page \<Rightarrow> u64 \<Rightarrow> u64 \<Rightarrow> u64 \<Rightarrow>
     (julee \<times> page \<times> int) option" where
  "julee_get_page env oenv mr data j cpuid page raddr oid index =
     (let longkey = get_longkey oid index
      in do {
        (c, page', ret) \<leftarrow>
          (if onesided j then rdpma_get_onesided oenv mr (cl j) cpuid page 0
           else do {
             (c, ret) \<leftarrow> rdpma_get env (cl j) cpuid raddr longkey 1;
             Some (c, case data of None \<Rightarrow> page | Some p \<Rightarrow> p, ret) });
        Some (j\<lparr>cl := c, get_cnt := get_cnt j + 1\<rparr>, page', if ret = -1 then -1 else 0) })"

definition julee_flush_page :: "julee \<Rightarrow> u64 \<Rightarrow> u64 \<Rightarrow> julee" where
  "julee_flush_page j oid index = j"

definition julee_flush_inode :: "julee \<Rightarrow> u64 \<Rightarrow> julee" where
  "julee_flush_inode j oid = j"

definition julee_flush_fs :: "julee \<Rightarrow> julee" where
  "julee_flush_fs j = j"

definition julee_init_fs :: "julee \<Rightarrow> julee \<times> int" where
  "julee_init_fs j = (j\<lparr>pool_id := pool_id j + 1\<rparr>, pool_id j + 1)"

definition julee_init_shared_fs :: "julee \<Rightarrow> int" where
  "julee_init_shared_fs j = -1"

section \<open>Lemmas\<close>

definition rq_ok :: "rdma_queue \<Rightarrow> bool" where
  "rq_ok q \<longleftrightarrow> length (q_buffer q) = BATCH_SIZE \<and> length (q_keys q) = BATCH_SIZE \<and>
     (\<not> global_lock q \<longrightarrow> nr_buffered q < BATCH_SIZE)"

definition client_ok :: "client \<Rightarrow> bool" where
  "client_ok c \<longleftrightarrow> length (queues c) = NUM_QUEUES \<and> (\<forall>q\<in>set (queues c). rq_ok q)"

text \<open>The pages that wait in a queue, with their keys.\<close>

definition buffered :: "rdma_queue \<Rightarrow> (u64 \<times> page) list" where
  "buffered q = zip (take (nr_buffered q) (q_keys q)) (take (nr_buffered q) (q_buffer q))"

abbreviation read_queue :: "nat \<Rightarrow> nat" where
  "read_queue cpuid \<equiv> rdpma_get_queue_id NUM_QUEUES cpuid QP_READ_SYNC"

abbreviation write_queue :: "nat \<Rightarrow> nat" where
  "write_queue cpuid \<equiv> rdpma_get_queue_id NUM_QUEUES cpuid QP_WRITE_SYNC"

lemma queue_id_bounds:
  "read_queue cpuid < NUM_QUEUES div 2" "NUM_QUEUES div 2 \<le> write_queue cpuid" "write_queue cpuid < NUM_QUEUES"
  by (simp_all add: rdpma_get_queue_id_def NUM_QUEUES_def Let_def)

lemma get_req_simps [simp]:
  "get_req_for_buf r = Some x \<longleftrightarrow> r = Req_ok \<and> x = 0" "get_req_for_page r = Some x \<longleftrightarrow> r = Req_ok \<and> x = 0"
  by (auto simp: get_req_for_buf_def get_req_for_page_def split: req_result.splits)

lemma get_queue_ok:
  assumes "client_ok c"
  shows "rdpma_get_queue c cpuid QP_READ_SYNC = Some (queues c ! read_queue cpuid)"
    "rdpma_get_queue c cpuid QP_WRITE_SYNC = Some (queues c ! write_queue cpuid)"
  using assms queue_id_bounds [of cpuid] by (simp_all add: rdpma_get_queue_def client_ok_def rd_ok)

lemma set_queue_iff:
  "set_queue c i q = Some c' \<longleftrightarrow> i < length (queues c) \<and> c' = c\<lparr>queues := (queues c)[i := q]\<rparr>"
  by (auto simp: set_queue_def wr_def)

lemma set_queue_ok: "i < length (queues c) \<Longrightarrow> set_queue c i q = Some (c\<lparr>queues := (queues c)[i := q]\<rparr>)"
  by (simp add: set_queue_iff)

lemma client_ok_set: "client_ok c \<Longrightarrow> rq_ok q \<Longrightarrow> client_ok (c\<lparr>bf := flt, queues := (queues c)[i := q]\<rparr>)"
  "client_ok c \<Longrightarrow> rq_ok q \<Longrightarrow> client_ok (c\<lparr>queues := (queues c)[i := q]\<rparr>)"
  using set_update_subset_insert [of "queues c" i q] by (auto simp: client_ok_def)

lemma queue_nth_ok: "client_ok c \<Longrightarrow> i < NUM_QUEUES \<Longrightarrow> rq_ok (queues c ! i)"
  by (simp add: client_ok_def)

text \<open>What a put does to its queue before it posts a message.\<close>

definition push :: "rdma_queue \<Rightarrow> page \<Rightarrow> u64 \<Rightarrow> rdma_queue" where
  "push q page key = q\<lparr>global_lock := True, nr_buffered := nr_buffered q + 1,
     q_buffer := (q_buffer q)[nr_buffered q := page], q_keys := (q_keys q)[nr_buffered q := key]\<rparr>"

definition put_message :: "rdma_queue \<Rightarrow> nat \<Rightarrow> u32 \<Rightarrow> put_msg" where
  "put_message q queue_id batch =
     \<lparr>pm_keys = take BATCH_SIZE (q_keys q), pm_pages = take BATCH_SIZE (q_buffer q),
      pm_imm = htonl (bit_mask batch 0 (msg_code MSG_WRITE) (tx_code TX_WRITE_BEGIN) (of_nat queue_id)),
      pm_qid = queue_id, pm_mid = 0\<rparr>"

lemma rdpma_put_begin_SomeD:
  assumes "client_ok c" "rdpma_put_begin env c cpuid page key batch = Some (c', r)"
  defines "q \<equiv> queues c ! write_queue cpuid"
  obtains flt where "bloom_filter_add (bf c) (bytes_of_u64 key) = Some flt" "\<not> global_lock q"
    "nr_buffered q < BATCH_SIZE - 1"
    "c' = c\<lparr>bf := flt, queues := (queues c)[write_queue cpuid := spin_unlock (push q page key)]\<rparr>" "r = Inl 0"
  | flt where "bloom_filter_add (bf c) (bytes_of_u64 key) = Some flt" "\<not> global_lock q"
    "nr_buffered q = BATCH_SIZE - 1"
    "c' = c\<lparr>bf := flt, queues := (queues c)[write_queue cpuid := push q page key]\<rparr>"
    "r = (if pe_kzalloc env then Inr (put_message (push q page key) (write_queue cpuid) batch) else Inl ENOMEM_ret)"
proof -
  have len: "length (queues c) = NUM_QUEUES" using assms(1) by (simp add: client_ok_def)
  have q: "rq_ok q" using queue_nth_ok [OF assms(1)] queue_id_bounds by (simp add: q_def)
  from assms(2) obtain flt where flt: "bloom_filter_add (bf c) (bytes_of_u64 key) = Some flt"
    and lk: "\<not> global_lock q"
    by (auto simp: rdpma_put_begin_def get_queue_ok [OF assms(1)] len q_def spin_lock_def Let_def
        split: bind_splits if_splits)
  from q lk have n: "nr_buffered q < BATCH_SIZE" by (simp add: rq_ok_def)
  note red = rdpma_put_begin_def get_queue_ok [OF assms(1)] len spin_lock_def Let_def flt set_queue_iff
    wr_def push_def put_message_def spin_unlock_def
  show thesis
  proof (cases "nr_buffered q < BATCH_SIZE - 1")
    case True
    with assms(2) lk n q flt that(1) show ?thesis
      by (auto simp: red rq_ok_def simp flip: q_def split: bind_splits if_splits)
  next
    case False
    with n have "nr_buffered q = BATCH_SIZE - 1" by simp
    with assms(2) lk n q flt that(2) show ?thesis
      by (auto simp: red rq_ok_def simp flip: q_def split: bind_splits if_splits)
  qed
qed

lemma buffered_push:
  assumes "rq_ok q" "nr_buffered q < BATCH_SIZE"
  shows "buffered (push q page key) = buffered q @ [(key, page)]"
proof -
  have "length (q_keys q) = 4" "length (q_buffer q) = 4" "nr_buffered q < 4"
    using assms by (simp_all add: rq_ok_def BATCH_SIZE_def)
  then show ?thesis
    by (simp add: buffered_def push_def take_Suc_conv_app_nth)
qed

lemma rq_ok_push: "rq_ok q \<Longrightarrow> rq_ok (push q page key)"
  "rq_ok q \<Longrightarrow> nr_buffered q < BATCH_SIZE - 1 \<Longrightarrow> rq_ok (spin_unlock (push q page key))"
  by (auto simp: rq_ok_def push_def spin_unlock_def)

lemma rdpma_put_begin_ok:
  assumes "client_ok c" "rdpma_put_begin env c cpuid page key batch = Some (c', r)"
  shows "client_ok c'"
proof -
  have q: "rq_ok (queues c ! write_queue cpuid)" using queue_nth_ok [OF assms(1)] queue_id_bounds by simp
  from assms show ?thesis
    by (cases rule: rdpma_put_begin_SomeD) (use assms(1) q in \<open>auto intro!: client_ok_set rq_ok_push\<close>)
qed

lemma rdpma_put_begin_total:
  assumes "client_ok c" "wf_bloom (bf c)" "pe_req0 env = Req_ok" "pe_req1 env = Req_ok"
    "\<not> global_lock (queues c ! write_queue cpuid)"
  shows "\<exists>c' r. rdpma_put_begin env c cpuid page key batch = Some (c', r)"
proof -
  let ?q = "queues c ! write_queue cpuid"
  have len: "length (queues c) = NUM_QUEUES" using assms(1) by (simp add: client_ok_def)
  have q: "rq_ok ?q" using queue_nth_ok [OF assms(1)] queue_id_bounds by simp
  then have n: "nr_buffered ?q < BATCH_SIZE" using assms(5) by (simp add: rq_ok_def)
  obtain flt where "bloom_filter_add (bf c) (bytes_of_u64 key) = Some flt"
    using bloom_filter_add_check [OF assms(2)] by blast
  then show ?thesis
    using n q assms(3-5) len queue_id_bounds(3) [of cpuid]
    by (auto simp: rdpma_put_begin_def get_queue_ok [OF assms(1)] spin_lock_def set_queue_ok wr_def
        get_req_for_buf_def rq_ok_def Let_def)
qed

lemma rdpma_put_end_SomeD:
  assumes "client_ok c" "rdpma_put_end env c cpuid = Some (c', ret)"
  shows "c' = c \<and> ret = -1 \<or>
    c' = c\<lparr>queues := (queues c)[write_queue cpuid := spin_unlock ((queues c ! write_queue cpuid)\<lparr>nr_buffered := 0\<rparr>)]\<rparr> \<and> ret = 0"
proof -
  have len: "length (queues c) = NUM_QUEUES" using assms(1) by (simp add: client_ok_def)
  show ?thesis
    using assms(2) by (auto simp: rdpma_put_end_def get_queue_ok [OF assms(1)] len put_out_def set_queue_iff Let_def
        split: poll.splits bind_splits if_splits)
qed

lemma rdpma_put_end_ok:
  assumes "client_ok c" "rdpma_put_end env c cpuid = Some (c', ret)"
  shows "client_ok c'"
proof -
  have "rq_ok (spin_unlock ((queues c ! write_queue cpuid)\<lparr>nr_buffered := 0\<rparr>))"
    using queue_nth_ok [OF assms(1)] queue_id_bounds [of cpuid] by (simp add: rq_ok_def spin_unlock_def BATCH_SIZE_def)
  with rdpma_put_end_SomeD [OF assms] assms(1) client_ok_set(2) show ?thesis by blast
qed

lemma rdpma_get_begin_SomeD:
  assumes "client_ok c" "rdpma_get_begin env c cpuid raddr key batch = Some (c', r)"
  defines "q \<equiv> queues c ! read_queue cpuid"
  obtains ret where "c' = c" "r = Inl ret"
  | "\<not> global_lock q" "c' = c\<lparr>queues := (queues c)[read_queue cpuid := q\<lparr>global_lock := True\<rparr>]\<rparr>"
    "r = Inr \<lparr>gm_meta = [key, ucast batch, raddr],
       gm_imm = htonl (bit_mask batch (of_nat (rdpma_get_msg_id NUM_QUEUES cpuid)) (msg_code MSG_READ)
         (tx_code TX_READ_BEGIN) (of_nat (read_queue cpuid))),
       gm_qid = read_queue cpuid, gm_mid = rdpma_get_msg_id NUM_QUEUES cpuid\<rparr>"
proof -
  have len: "length (queues c) = NUM_QUEUES" using assms(1) by (simp add: client_ok_def)
  from assms(2) that show thesis
    by (auto simp: rdpma_get_begin_def get_queue_ok [OF assms(1)] len spin_lock_def set_queue_iff Let_def
        simp flip: q_def split: bind_splits if_splits)
qed

lemma rdpma_get_end_SomeD:
  assumes "client_ok c" "rdpma_get_end env c cpuid = Some (c', ret)"
  shows "c' = c\<lparr>queues := (queues c)[read_queue cpuid := spin_unlock (queues c ! read_queue cpuid)]\<rparr> \<and>
    (\<exists>tx. get_tx env = Some tx \<and> ret = (if tx = tx_code TX_READ_ABORTED then -1 else 0))"
proof -
  have len: "length (queues c) = NUM_QUEUES" using assms(1) by (simp add: client_ok_def)
  show ?thesis
    using assms(2) by (auto simp: rdpma_get_end_def get_queue_ok [OF assms(1)] len set_queue_iff Let_def
        simp del: tx_code.simps split: bind_splits if_splits)
qed

section \<open>Properties\<close>

text \<open>
  C4: a queue of the client implements a batch of four: a put on a free queue appends the page
  and its key to what waits in the queue and returns 0, and the put that completes the batch posts
  one message with the four keys and pages in the order in which they were put, and holds the lock.
\<close>

theorem put_refines_batch:
  assumes "client_ok c" "wf_bloom (bf c)" "env = \<lparr>pe_kzalloc = True, pe_req0 = Req_ok, pe_req1 = Req_ok,
      pe_send = snt, pe_recv = rcv, pe_post_recv = posts\<rparr>"
    and q_def: "q = queues c ! write_queue cpuid" and "\<not> global_lock q"
  shows "\<exists>c' r. rdpma_put_begin env c cpuid page key batch = Some (c', r) \<and> client_ok c' \<and>
    (let q' = queues c' ! write_queue cpuid; waiting = buffered q @ [(key, page)]
     in buffered q' = waiting \<and>
        (if length waiting < BATCH_SIZE then r = Inl 0 \<and> \<not> global_lock q'
         else global_lock q' \<and> (\<exists>m. r = Inr m \<and> zip (pm_keys m) (pm_pages m) = waiting \<and> length waiting = BATCH_SIZE)))"
proof -
  have len: "length (queues c) = NUM_QUEUES" using assms(1) by (simp add: client_ok_def)
  have q: "rq_ok q" using queue_nth_ok [OF assms(1)] queue_id_bounds by (simp add: q_def)
  then have n: "nr_buffered q < BATCH_SIZE" using assms(5) by (simp add: rq_ok_def)
  obtain c' r where run: "rdpma_put_begin env c cpuid page key batch = Some (c', r)"
    using rdpma_put_begin_total [OF assms(1,2), of env cpuid page key batch] assms(3,5) q_def by auto
  from n have b: "buffered (push q page key) = buffered q @ [(key, page)]" "length (buffered q) = nr_buffered q"
    using buffered_push [OF q] q by (simp_all add: buffered_def rq_ok_def)
  have at: "((queues c)[write_queue cpuid := x]) ! write_queue cpuid = x" for x
    using len queue_id_bounds(3) [of cpuid] by simp
  have unl: "buffered (spin_unlock x) = buffered x" "\<not> global_lock (spin_unlock x)" for x
    by (simp_all add: buffered_def spin_unlock_def)
  from assms(1) run show ?thesis
  proof (cases rule: rdpma_put_begin_SomeD)
    case (1 flt)
    with run b at unl rdpma_put_begin_ok [OF assms(1) run] show ?thesis
      by (intro exI [of _ c'] exI [of _ r]) (simp add: Let_def q_def)
  next
    case (2 flt)
    have "nr_buffered (push q page key) = BATCH_SIZE" "global_lock (push q page key)"
      using 2(3) by (simp_all add: push_def q_def BATCH_SIZE_def)
    then have "zip (pm_keys (put_message (push q page key) (write_queue cpuid) batch))
        (pm_pages (put_message (push q page key) (write_queue cpuid) batch)) = buffered q @ [(key, page)]"
      using b(1) by (simp add: put_message_def buffered_def)
    with 2 run b at rdpma_put_begin_ok [OF assms(1) run] \<open>global_lock (push q page key)\<close> show ?thesis
      by (intro exI [of _ c'] exI [of _ r]) (simp add: Let_def q_def assms(3) BATCH_SIZE_def)
  qed
qed

text \<open>A small filter, a client with it, and inputs on which nothing fails.\<close>

definition demo_filter :: bloom_filter where
  "demo_filter = \<lparr>bitmap_size = 64, bitmap_size_in_byte = 8, nr_hash = 1, bitmap = [- 1]\<rparr>"

lemma demo_filter_wf: "wf_bloom demo_filter"
  by (simp add: wf_bloom_def demo_filter_def BITS_TO_LONGS_unat)

lemma demo_filter_check: "bloom_filter_check demo_filter d = Some True"
proof -
  have "bit_at (bitmap demo_filter) (bf_pos demo_filter d i)" for i
    using bf_index_eq(3) [OF demo_filter_wf, of d i] by (simp add: demo_filter_def bit_at_def)
  then show ?thesis by (simp only: bloom_filter_check_def check_loop_eq [OF demo_filter_wf]) simp
qed

lemma new_client_ok: "client_ok (new_client flt p)"
  by (simp add: client_ok_def new_client_def rq_ok_def new_queue_def BATCH_SIZE_def)

lemma put_refines_batch_witness:
  "\<exists>c'. rdpma_put_begin \<lparr>pe_kzalloc = True, pe_req0 = Req_ok, pe_req1 = Req_ok, pe_send = Wc_ok 0,
      pe_recv = Wc_ok 0, pe_post_recv = True\<rparr> (new_client demo_filter []) 5 [7] 3 1 = Some (c', Inl 0) \<and>
    buffered (queues c' ! 5) = [(3, [7])]"
proof -
  have q: "queues (new_client demo_filter []) ! 5 = new_queue []" "write_queue 5 = 5"
    by (simp_all add: new_client_def NUM_QUEUES_def rdpma_get_queue_id_def)
  have e: "buffered (new_queue []) = []" "\<not> global_lock (new_queue [])" by (simp_all add: buffered_def new_queue_def)
  have wf: "wf_bloom (bf (new_client demo_filter []))" by (simp add: new_client_def demo_filter_wf)
  from put_refines_batch [OF new_client_ok wf refl refl, of 5 "Wc_ok 0" "Wc_ok 0" True "[7]" 3 1]
  show ?thesis by (auto simp: q e Let_def BATCH_SIZE_def)
qed

text \<open>
  C19: a put that returns an error has not released the lock of its queue: no later put on that
  queue returns, whichever CPU makes it and whatever it is given.
\<close>

theorem failed_put_blocks_queue:
  assumes "client_ok c" "rdpma_put env c cpuid page key batch = Some (c', ret)" "ret \<noteq> 0"
    and "write_queue cpuid' = write_queue cpuid"
  shows "rdpma_put env' c' cpuid' page' key' batch' = None"
proof -
  let ?i = "write_queue cpuid"
  have i: "?i < length (queues c)" using assms(1) queue_id_bounds by (simp add: client_ok_def)
  from assms(2) obtain c1 r where b: "rdpma_put_begin env c cpuid page key batch = Some (c1, r)"
    and e: "case r of Inl x \<Rightarrow> (c1, x) = (c', ret) | Inr _ \<Rightarrow> rdpma_put_end env c1 cpuid = Some (c', ret)"
    by (auto simp: rdpma_put_def split: bind_splits sum.splits)
  note ok1 = rdpma_put_begin_ok [OF assms(1) b]
  have "global_lock (queues c1 ! ?i) \<and> c' = c1"
    using assms(1) b
  proof (cases rule: rdpma_put_begin_SomeD)
    case 1
    with e assms(3) show ?thesis by simp
  next
    case 2
    then have "global_lock (queues c1 ! ?i)" using i by (simp add: push_def)
    moreover have "c' = c1"
      using e assms(3) rdpma_put_end_SomeD [OF ok1, of env cpuid c' ret] by (auto split: sum.splits)
    ultimately show ?thesis by simp
  qed
  with assms(4) have "global_lock (queues c' ! write_queue cpuid')" "client_ok c'" using ok1 by simp_all
  then have "rdpma_put_begin env' c' cpuid' page' key' batch' = None"
    using rdpma_put_begin_SomeD [of c' env' cpuid' page' key' batch'] by (metis option.exhaust prod.exhaust)
  then show ?thesis by (simp add: rdpma_put_def)
qed

text \<open>A client whose next put completes a batch.\<close>

definition full_client :: client where
  "full_client = (new_client demo_filter [])\<lparr>queues := replicate NUM_QUEUES ((new_queue [])\<lparr>nr_buffered := 3\<rparr>)\<rparr>"

lemma failed_put_blocks_queue_witness:
  "\<exists>c'. rdpma_put \<lparr>pe_kzalloc = False, pe_req0 = Req_ok, pe_req1 = Req_ok, pe_send = Wc_ok 0,
      pe_recv = Wc_ok 0, pe_post_recv = True\<rparr> full_client 0 [7] 3 1 = Some (c', -12) \<and>
    (\<forall>env'. rdpma_put env' c' 4 [8] 9 1 = None)"
proof -
  let ?env = "\<lparr>pe_kzalloc = False, pe_req0 = Req_ok, pe_req1 = Req_ok, pe_send = Wc_ok 0,
      pe_recv = Wc_ok 0, pe_post_recv = True\<rparr>"
  have ok: "client_ok full_client"
    by (simp add: full_client_def client_ok_def rq_ok_def new_queue_def BATCH_SIZE_def)
  have w: "write_queue 0 = 4" "write_queue 4 = write_queue 0"
    by (simp_all add: rdpma_get_queue_id_def NUM_QUEUES_def)
  have bf: "bf full_client = demo_filter" by (simp add: full_client_def new_client_def)
  obtain flt where "bloom_filter_add demo_filter (bytes_of_u64 3) = Some flt"
    using bloom_filter_add_check [OF demo_filter_wf] by blast
  then have "\<exists>c'. rdpma_put ?env full_client 0 [7] 3 1 = Some (c', -12)"
    using get_queue_ok(2) [OF ok, of 0]
    by (simp add: rdpma_put_def rdpma_put_begin_def bf w Let_def)
      (simp add: full_client_def spin_lock_def new_queue_def BATCH_SIZE_def NUM_QUEUES_def wr_def set_queue_def
        rdpma_get_queue_id_def ENOMEM_ret_def)
  then obtain c' where c': "rdpma_put ?env full_client 0 [7] 3 1 = Some (c', -12)" by blast
  from failed_put_blocks_queue [OF ok c' _ w(2)] c' show ?thesis by auto
qed

text \<open>
  C20: a get that fails on the way (no memory for its request, or an error of either completion)
  is reported to the kernel as a hit, with the page as it was: only the state \<open>TX_READ_ABORTED\<close> of a
  reply, or a key the filter rejects, counts as a miss.
\<close>

theorem failed_get_reported_as_hit:
  assumes "client_ok (cl j)" "\<not> onesided j" "\<not> global_lock (queues (cl j) ! read_queue cpuid)"
    and "bloom_filter_check (bf (cl j)) (bytes_of_u64 (get_longkey oid index)) = Some True"
    and "ge_req0 env = Req_ok" "ge_req1 env = Req_ok" "ge_post_recv env"
    and "\<not> ge_kzalloc env \<or> ge_send env \<in> {Poll_failed, Wc_error} \<or>
      ge_send env = Wc_ok imm \<and> ge_recv env \<in> {Poll_failed, Wc_error}"
  shows "\<exists>j'. julee_get_page env oenv mr None j cpuid page raddr oid index = Some (j', page, 0)"
proof -
  let ?i = "read_queue cpuid"
  have len: "length (queues (cl j)) = NUM_QUEUES" using assms(1) by (simp add: client_ok_def)
  have i: "?i < NUM_QUEUES" using queue_id_bounds(1) [of cpuid] by simp
  have "\<exists>c' ret. rdpma_get env (cl j) cpuid raddr (get_longkey oid index) 1 = Some (c', ret) \<and> ret \<noteq> -1"
    using assms len i
    by (auto simp: rdpma_get_def rdpma_get_begin_def rdpma_get_end_def get_queue_ok(1) [OF assms(1)] spin_lock_def
        set_queue_ok get_req_for_page_def get_req_for_buf_def get_tx_def rdpma_get_queue_def rd_ok Let_def ENOMEM_ret_def)
  with assms(2) show ?thesis by (auto simp: julee_get_page_def)
qed

lemma failed_get_reported_as_hit_witness:
  "\<exists>j'. julee_get_page \<lparr>ge_req0 = Req_ok, ge_kzalloc = True, ge_req1 = Req_ok, ge_send = Wc_error,
      ge_recv = Poll_never, ge_post_recv = True\<rparr> \<lparr>oe_req = Req_ok, oe_posts = True, oe_done = []\<rparr> (\<lambda>_. []) None
      \<lparr>onesided = False, put_cnt = 0, get_cnt = 0, pool_id = 0, cl = new_client demo_filter []\<rparr> 2 [9] 4096 1 2
    = Some (j', [9], 0)"
  by (rule failed_get_reported_as_hit [where imm = 0])
    (simp_all add: new_client_ok, simp_all add: new_client_def new_queue_def NUM_QUEUES_def rdpma_get_queue_id_def
      demo_filter_check)

end
