(* ===== verification/Page_Cache.thy ===== *)
theory Page_Cache
  imports Page_Server Page_Client
begin

text \<open>
  Clients and server together: the queues of up to four clients, the polling threads of the
  server and the messages between them, as a step relation. The steps are the parts of the
  operations of \<^verbatim>\<open>Page_Client\<close> and \<^verbatim>\<open>Page_Server\<close> between two communications, so that all
  interleavings of puts, gets, insertions of the server threads and filter updates are runs.

  Of the transport the model assumes what a reliable connection promises: an RDMA write is in the
  memory of the server before the completion of the message posted after it, a send fills the
  first posted receive buffer, and messages of a queue arrive in order.
\<close>

section \<open>State and steps\<close>

text \<open>
  For client \<open>c\<close> and queue \<open>q\<close>: \<open>inbox\<close> holds the batches that arrived (immediate word, buffer),
  \<open>work\<close> the insertions its thread has left of a batch, \<open>replied\<close> says that the reply to a put is
  on the way, \<open>rwait\<close> is a pending get (key, immediate word) and \<open>rdone\<close> the immediate word of its
  reply. \<open>hist\<close> records what was ever put and \<open>got\<close> what was ever delivered to a get, with the key.
\<close>

record 's system =
  srv :: "'s server"
  clients :: "nat \<Rightarrow> client"
  inbox :: "nat \<Rightarrow> nat \<Rightarrow> (u32 \<times> nat) list"
  work :: "nat \<Rightarrow> nat \<Rightarrow> (Key_t \<times> nat) list option"
  replied :: "nat \<Rightarrow> nat \<Rightarrow> bool"
  rwait :: "nat \<Rightarrow> nat \<Rightarrow> (Key_t \<times> u32) option"
  rdone :: "nat \<Rightarrow> nat \<Rightarrow> u32 option"
  hist :: "(Key_t \<times> page) set"
  got :: "(Key_t \<times> page) set"

abbreviation upd :: "(nat \<Rightarrow> nat \<Rightarrow> 'a) \<Rightarrow> nat \<Rightarrow> nat \<Rightarrow> 'a \<Rightarrow> nat \<Rightarrow> nat \<Rightarrow> 'a" where
  "upd f c q x \<equiv> f(c := (f c)(q := x))"

text \<open>A put message arrives: the keys in the metadata entry, the pages in the buffer \<open>a\<close>.\<close>

definition deliver_put :: "'s server \<Rightarrow> nat \<Rightarrow> put_msg \<Rightarrow> nat \<Rightarrow> nat list \<Rightarrow> 's server" where
  "deliver_put st c m a rest =
     st\<lparr>sv_mem := store_words
          (store_words (sv_mem st) (local_mm st c + GET_OFFSET_FROM_BASE (pm_qid m) (pm_mid m)) (pm_keys m))
          a (concat (pm_pages m)),
        posted := upd (posted st) c (pm_qid m) rest\<rparr>"

definition deliver_get :: "'s server \<Rightarrow> nat \<Rightarrow> get_msg \<Rightarrow> nat list \<Rightarrow> 's server" where
  "deliver_get st c m rest =
     st\<lparr>sv_mem := store_words (sv_mem st) (local_mm st c + GET_OFFSET_FROM_BASE (gm_qid m) (gm_mid m)) (gm_meta m),
        posted := upd (posted st) c (gm_qid m) rest\<rparr>"

inductive step ::
  "('s \<Rightarrow> Key_t \<Rightarrow> Value_t \<Rightarrow> ('s \<times> Key_t) option) \<Rightarrow> ('s \<Rightarrow> Key_t \<Rightarrow> Value_t option) \<Rightarrow>
     's system \<Rightarrow> 's system \<Rightarrow> bool" for ins get where
  put_buffered: "c < NUM_CLIENT \<Longrightarrow> length page = PAGE_WORDS \<Longrightarrow>
    rdpma_put_begin env (clients s c) cpu page key 1 = Some (cl', Inl ret) \<Longrightarrow>
    step ins get s (s\<lparr>clients := (clients s)(c := cl'), hist := insert (key, page) (hist s)\<rparr>)"
| put_posted: "c < NUM_CLIENT \<Longrightarrow> length page = PAGE_WORDS \<Longrightarrow>
    rdpma_put_begin env (clients s c) cpu page key 1 = Some (cl', Inr m) \<Longrightarrow>
    posted (srv s) c (pm_qid m) = a # rest \<Longrightarrow>
    step ins get s (s\<lparr>clients := (clients s)(c := cl'), hist := insert (key, page) (hist s),
      srv := deliver_put (srv s) c m a rest,
      inbox := upd (inbox s) c (pm_qid m) (inbox s c (pm_qid m) @ [(pm_imm m, a)])\<rparr>)"
| take_batch: "inbox s c q = (imm, a) # rest \<Longrightarrow> work s c q = None \<Longrightarrow>
    bit_unmask (ntohl imm) = (num, mid, typ, tx, qid) \<Longrightarrow>
    step ins get s (s\<lparr>srv := (srv s)\<lparr>sv_putcnt := sv_putcnt (srv s) + of_nat BATCH_SIZE\<rparr>,
      inbox := upd (inbox s) c q rest, replied := upd (replied s) c q True,
      work := upd (work s) c q (Some (write_batch (srv s) a c (unat qid)))\<rparr>)"
| insert_one: "work s c q = Some ((k, a) # w) \<Longrightarrow> sv_insert ins (srv s) k a = Some st \<Longrightarrow>
    step ins get s (s\<lparr>srv := st, work := upd (work s) c q (Some w)\<rparr>)"
| finish_batch: "work s c q = Some [] \<Longrightarrow>
    step ins get s (s\<lparr>srv := post_page_buffer (srv s) c q, work := upd (work s) c q None\<rparr>)"
| put_done: "replied s c (write_queue cpu) \<Longrightarrow>
    rdpma_put_end env (clients s c) cpu = Some (cl', ret) \<Longrightarrow>
    step ins get s (s\<lparr>clients := (clients s)(c := cl'), replied := upd (replied s) c (write_queue cpu) False\<rparr>)"
| get_sent: "c < NUM_CLIENT \<Longrightarrow> cpu < NUM_ENTRY * (NUM_QUEUES div 2) \<Longrightarrow>
    rdpma_get_begin env (clients s c) cpu raddr key 1 = Some (cl', Inr m) \<Longrightarrow>
    posted (srv s) c (gm_qid m) = a # rest \<Longrightarrow>
    step ins get s (s\<lparr>clients := (clients s)(c := cl'), srv := deliver_get (srv s) c m rest,
      rwait := upd (rwait s) c (gm_qid m) (Some (key, gm_imm m))\<rparr>)"
| serve_get: "rwait s c q = Some (key, imm) \<Longrightarrow>
    handle_wc TWOSIDED ins get base polled (srv s)
      \<lparr>wc_ok = True, wc_op = WC_RECV_RDMA_WITH_IMM, wc_imm = imm, wc_wr_id = 0\<rparr> c q = Some (st, Some r) \<Longrightarrow>
    step ins get s (s\<lparr>srv := st, rwait := upd (rwait s) c q None, rdone := upd (rdone s) c q (Some (r_imm r)),
      got := (case r_data r of None \<Rightarrow> got s | Some (_, p) \<Rightarrow> insert (key, p) (got s))\<rparr>)"
| get_done: "rdone s c (read_queue cpu) = Some imm \<Longrightarrow> ge_recv env = Wc_ok imm \<Longrightarrow>
    rdpma_get_end env (clients s c) cpu = Some (cl', ret) \<Longrightarrow>
    step ins get s (s\<lparr>clients := (clients s)(c := cl'), rdone := upd (rdone s) c (read_queue cpu) None\<rparr>)"
| filter_sent: "step ins get s (s\<lparr>clients := (clients s)(c := (clients s c)\<lparr>bf := flt\<rparr>)\<rparr>)"

inductive_cases stepE: "step ins get s t"

text \<open>The state before the first request: the receive requests \<open>main\<close> posts, and new clients.\<close>

definition boot :: "'s server \<Rightarrow> 's server" where
  "boot st = fold (\<lambda>(c, i) st. prepost st c i 100) (List.product [0..<NUM_CLIENT] [0..<NUM_QUEUES]) st"

definition init_system :: "'s server \<Rightarrow> bloom_filter \<Rightarrow> page \<Rightarrow> 's system" where
  "init_system st flt p =
     \<lparr>srv = boot st, clients = (\<lambda>_. new_client flt p), inbox = (\<lambda>_ _. []), work = (\<lambda>_ _. None),
      replied = (\<lambda>_ _. False), rwait = (\<lambda>_ _. None), rdone = (\<lambda>_ _. None), hist = {}, got = {}\<rparr>"

section \<open>Where pages are safe\<close>

text \<open>
  The pages handed out so far end below the metadata, and all of the region has an address.
\<close>

definition in_bounds :: "'s server \<Rightarrow> bool" where
  "in_bounds st \<longleftrightarrow> LOCAL_META_REGION_SIZE + PAGE_SIZE * unat (page_offset st) \<le> BUFFER_SIZE st \<and>
     global_mr st + mr_size st < 2 ^ 64"

text \<open>A page of a buffer that is not posted (any more) is never written again.\<close>

definition settled :: "'s server \<Rightarrow> nat \<Rightarrow> bool" where
  "settled st a \<longleftrightarrow> (\<exists>b i. page_buffer st b \<and> i < BATCH_SIZE \<and> a = b + PAGE_SIZE * i \<and>
     (\<forall>c q. wqueue q \<longrightarrow> b \<notin> set (posted st c q)))"

definition good :: "'s server \<Rightarrow> (Key_t \<times> page) set \<Rightarrow> Key_t \<Rightarrow> nat \<Rightarrow> bool" where
  "good st H k a \<longleftrightarrow> settled st a \<and> (k, page_at (sv_mem st) a) \<in> H"

definition keeps :: "'s server \<Rightarrow> 's server \<Rightarrow> bool" where
  "keeps st st' \<longleftrightarrow> (\<forall>a. settled st a \<longrightarrow> settled st' a \<and> page_at (sv_mem st') a = page_at (sv_mem st) a)"

lemma good_keeps: "good st H k a \<Longrightarrow> keeps st st' \<Longrightarrow> H \<subseteq> H' \<Longrightarrow> good st' H' k a"
  by (auto simp: good_def keeps_def)

lemma page_buffer_apart:
  assumes "page_buffer st b" "page_buffer st b'" "b \<noteq> b'"
  shows "b + PAGE_SIZE * BATCH_SIZE \<le> b' \<or> b' + PAGE_SIZE * BATCH_SIZE \<le> b"
proof -
  obtain n n' where n: "b = GET_FREE_PAGE_REGION (global_mr st) + PAGE_SIZE * (BATCH_SIZE * n)"
    "b' = GET_FREE_PAGE_REGION (global_mr st) + PAGE_SIZE * (BATCH_SIZE * n')"
    using assms(1,2) by (auto simp: page_buffer_def)
  with assms(3) have "n + 1 \<le> n' \<or> n' + 1 \<le> n" by auto
  then have "PAGE_SIZE * (BATCH_SIZE * (n + 1)) \<le> PAGE_SIZE * (BATCH_SIZE * n') \<or>
      PAGE_SIZE * (BATCH_SIZE * (n' + 1)) \<le> PAGE_SIZE * (BATCH_SIZE * n)" by (metis mult_le_mono2)
  with n show ?thesis by (auto simp: algebra_simps)
qed

lemma page_buffer_below:
  assumes "page_buffer st b" "in_bounds st"
  shows "b + PAGE_SIZE * BATCH_SIZE \<le> global_mr st + BUFFER_SIZE st" "0 < b"
  using page_buffer_new [OF assms(1)] assms
  by (auto simp: in_bounds_def free_page_def page_buffer_def layout)

lemma meta_entry_above: "global_mr st + BUFFER_SIZE st \<le> meta_entry st c q mid"
  by (simp add: local_mm_def GET_LOCAL_META_REGION_def)

lemma settled_below:
  assumes "settled st a" "in_bounds st"
  shows "a + PAGE_SIZE \<le> global_mr st + BUFFER_SIZE st" "0 < a"
proof -
  obtain b i where b: "page_buffer st b" "i < BATCH_SIZE" "a = b + PAGE_SIZE * i"
    using assms(1) by (auto simp: settled_def)
  then have "PAGE_SIZE * i + PAGE_SIZE \<le> PAGE_SIZE * BATCH_SIZE" by (simp add: layout)
  with b page_buffer_below [OF b(1) assms(2)]
  show "a + PAGE_SIZE \<le> global_mr st + BUFFER_SIZE st" "0 < a" by simp_all
qed

text \<open>A store into a metadata entry touches no settled page.\<close>

lemma page_at_meta_store:
  assumes "settled st a" "in_bounds st" "global_mr st + BUFFER_SIZE st \<le> x"
  shows "page_at (store_words m x ws) a = page_at m a"
  using settled_below(1) [OF assms(1,2)] assms(3)
  by (intro load_store_other) (simp add: PAGE_WORDS_def PAGE_SIZE_def)

lemma posted_page_buffer: "posted_typed st \<Longrightarrow> wqueue q \<Longrightarrow> a \<in> set (posted st c q) \<Longrightarrow> page_buffer st a"
  unfolding posted_typed_def by metis

lemma posted_typed_pop:
  assumes "posted_typed st" "posted st c q = a # rest"
    and st': "posted st' = upd (posted st) c q rest" "page_offset st' = page_offset st" "global_mr st' = global_mr st"
  shows "posted_typed st'" "settled st x \<Longrightarrow> settled st' x"
    and "wqueue q \<Longrightarrow> wqueue q' \<Longrightarrow> a \<notin> set (posted st' c' q')"
    and "page_buffer st' = page_buffer st"
proof -
  show pb: "page_buffer st' = page_buffer st" by (simp add: fun_eq_iff page_buffer_def st')
  have sub: "set (posted st' c' q') \<subseteq> set (posted st c' q')" for c' q'
    using assms(2) by (auto simp: st')
  have typed: "if wqueue q' then distinct (posted st c' q') \<and> (\<forall>a\<in>set (posted st c' q'). page_buffer st a)
      else set (posted st c' q') \<subseteq> {0}" for c' q'
    using assms(1) by (simp add: posted_typed_def)
  have apart: "wqueue q1 \<Longrightarrow> wqueue q2 \<Longrightarrow> (c1, q1) \<noteq> (c2, q2) \<Longrightarrow> set (posted st c1 q1) \<inter> set (posted st c2 q2) = {}"
    for c1 q1 c2 q2 using assms(1) by (simp add: posted_typed_def)
  have dist: "wqueue q' \<Longrightarrow> distinct (posted st' c' q')" for c' q'
    using typed [of q' c'] assms(2) by (auto simp: st')
  show "posted_typed st'"
    unfolding posted_typed_def pb
  proof (intro conjI allI impI)
    show "4 dvd unat (page_offset st')" using assms(1) by (simp add: posted_typed_def st')
    fix c1 q1
    show "if wqueue q1 then distinct (posted st' c1 q1) \<and> (\<forall>a\<in>set (posted st' c1 q1). page_buffer st a)
      else set (posted st' c1 q1) \<subseteq> {0}"
      using typed [of q1 c1] sub [of c1 q1] dist [of q1 c1] by (auto split: if_splits)
    fix c2 q2
    assume "wqueue q1 \<and> wqueue q2 \<and> (c1, q1) \<noteq> (c2, q2)"
    then show "set (posted st' c1 q1) \<inter> set (posted st' c2 q2) = {}"
      using apart [of q1 q2 c1 c2] sub [of c1 q1] sub [of c2 q2] by blast
  qed
  show "settled st x \<Longrightarrow> settled st' x"
    unfolding settled_def pb using sub by blast
  show "a \<notin> set (posted st' c' q')" if w: "wqueue q" "wqueue q'"
  proof (cases "(c', q') = (c, q)")
    case True
    then show ?thesis using typed [of q c] assms(2) w by (simp add: st')
  next
    case False
    then have "set (posted st c q) \<inter> set (posted st c' q') = {}" using apart w by metis
    then show ?thesis using assms(2) sub [of c' q'] by auto
  qed
qed

lemma deliver_put_keeps:
  assumes "posted_typed st" "in_bounds st" "wqueue (pm_qid m)" "posted st c (pm_qid m) = a # rest"
    "length (concat (pm_pages m)) = BATCH_SIZE * PAGE_WORDS"
  shows "keeps st (deliver_put st c m a rest)" "posted_typed (deliver_put st c m a rest)"
    "i < BATCH_SIZE \<Longrightarrow> settled (deliver_put st c m a rest) (a + PAGE_SIZE * i)"
proof -
  let ?st = "deliver_put st c m a rest"
  note pop = posted_typed_pop [OF assms(1,4), of ?st]
  have f: "posted ?st = upd (posted st) c (pm_qid m) rest" "page_offset ?st = page_offset st" "global_mr ?st = global_mr st"
    by (simp_all add: deliver_put_def)
  show "posted_typed ?st" by (rule pop(1) [OF f])
  have a: "page_buffer st a" by (rule posted_page_buffer [OF assms(1,3), of _ c]) (simp add: assms(4))
  show "i < BATCH_SIZE \<Longrightarrow> settled ?st (a + PAGE_SIZE * i)"
    unfolding settled_def pop(4) [OF f] using pop(3) [OF f assms(3)] a by blast
  show "keeps st ?st"
    unfolding keeps_def
  proof (intro allI impI conjI)
    fix x assume x: "settled st x"
    then show "settled ?st x" by (rule pop(2) [OF f])
    obtain b i where b: "page_buffer st b" "i < BATCH_SIZE" "x = b + PAGE_SIZE * i" "b \<notin> set (posted st c (pm_qid m))"
      using x assms(3) unfolding settled_def by blast
    with assms(4) have "b \<noteq> a" by auto
    from page_buffer_apart [OF b(1) a this] b(2,3)
    have far: "x + 8 * PAGE_WORDS \<le> a \<or> a + 8 * (BATCH_SIZE * PAGE_WORDS) \<le> x"
      unfolding PAGE_WORDS_def PAGE_SIZE_def BATCH_SIZE_def by linarith
    have "page_at (sv_mem ?st) x = page_at (store_words (sv_mem st)
        (local_mm st c + GET_OFFSET_FROM_BASE (pm_qid m) (pm_mid m)) (pm_keys m)) x"
      unfolding deliver_put_def using far assms(5) by (simp add: load_store_other)
    also have "\<dots> = page_at (sv_mem st) x"
      by (rule page_at_meta_store [OF x assms(2)]) (simp add: local_mm_def)
    finally show "page_at (sv_mem ?st) x = page_at (sv_mem st) x" .
  qed
qed

lemma deliver_get_keeps:
  assumes "posted_typed st" "in_bounds st" "posted st c (gm_qid m) = a # rest"
  shows "keeps st (deliver_get st c m rest)" "posted_typed (deliver_get st c m rest)"
proof -
  let ?st = "deliver_get st c m rest"
  note pop = posted_typed_pop [OF assms(1,3), of ?st]
  have f: "posted ?st = upd (posted st) c (gm_qid m) rest" "page_offset ?st = page_offset st" "global_mr ?st = global_mr st"
    by (simp_all add: deliver_get_def)
  show "posted_typed ?st" by (rule pop(1) [OF f])
  show "keeps st ?st"
    unfolding keeps_def
  proof (intro allI impI conjI)
    fix x assume x: "settled st x"
    then show "settled ?st x" by (rule pop(2) [OF f])
    show "page_at (sv_mem ?st) x = page_at (sv_mem st) x"
      unfolding deliver_get_def using page_at_meta_store [OF x assms(2)] by (simp add: local_mm_def)
  qed
qed

text \<open>Metadata entries of different clients, queues or messages do not overlap.\<close>

lemma meta_entries_apart:
  assumes "q < NUM_QUEUES" "q' < NUM_QUEUES" "mid < NUM_ENTRY" "mid' < NUM_ENTRY" "(c, q, mid) \<noteq> (c', q', mid')"
  shows "meta_entry st c q mid + ENTRY_SIZE \<le> meta_entry st c' q' mid' \<or>
     meta_entry st c' q' mid' + ENTRY_SIZE \<le> meta_entry st c q mid"
proof -
  have e: "meta_entry st c q mid = global_mr st + BUFFER_SIZE st + 4128 * (128 * c + 4 * q + mid)" for c q mid
    by (simp add: local_mm_def layout algebra_simps)
  have b: "q < 8" "q' < 8" "mid < 4" "mid' < 4" using assms(1-4) by (simp_all add: NUM_QUEUES_def NUM_ENTRY_def)
  have "128 * c + 4 * q + mid \<noteq> 128 * c' + 4 * q' + mid'"
  proof
    assume eq: "128 * c + 4 * q + mid = 128 * c' + 4 * q' + mid'"
    then have "c = c'" using b by (cases c c' rule: linorder_cases) linarith+
    moreover from this eq have "q = q'" using b by (cases q q' rule: linorder_cases) linarith+
    ultimately show False using eq assms(5) by simp
  qed
  moreover have le: "global_mr st + BUFFER_SIZE st + 4128 * x + ENTRY_SIZE \<le> global_mr st + BUFFER_SIZE st + 4128 * y"
    if "x < y" for x y
    using that by (simp add: ENTRY_SIZE_def METADATA_SIZE_def PAGE_SIZE_def MAX_BATCH_def BATCH_SIZE_def)
  ultimately show ?thesis unfolding e by (metis linorder_neqE_nat)
qed

lemma local_mm_deliver [simp]: "local_mm (deliver_put st c m a rest) = local_mm st" "local_mm (deliver_get st c g rest) = local_mm st"
  by (simp_all add: fun_eq_iff local_mm_def deliver_put_def deliver_get_def)

lemma entry_offset: "local_mm st c + GET_OFFSET_FROM_BASE q mid = meta_entry st c q mid"
  by (simp add: GET_OFFSET_FROM_BASE_def GET_LOCAL_META_REGION_def)

lemma store_other_entry:
  assumes "q < NUM_QUEUES" "q' < NUM_QUEUES" "mid < NUM_ENTRY" "mid' < NUM_ENTRY" "(c, q, mid) \<noteq> (c', q', mid')"
    "length ws \<le> BATCH_SIZE" "i < BATCH_SIZE"
  shows "store_words m (meta_entry st c q mid) ws (meta_entry st c' q' mid' + 8 * i) = m (meta_entry st c' q' mid' + 8 * i)"
proof (rule store_words_outside)
  have "ENTRY_SIZE = 4128" by (simp add: layout)
  moreover have "i < 4" "length ws \<le> 4" using assms(6,7) by (simp_all add: BATCH_SIZE_def)
  ultimately show "meta_entry st c' q' mid' + 8 * i < meta_entry st c q mid \<or>
      meta_entry st c q mid + 8 * length ws \<le> meta_entry st c' q' mid' + 8 * i"
    using meta_entries_apart [OF assms(1-5), of st] by auto
qed

lemma deliver_put_entry:
  assumes "posted_typed st" "in_bounds st" "wqueue (pm_qid m)" "posted st c (pm_qid m) = a # rest"
    "length (concat (pm_pages m)) = BATCH_SIZE * PAGE_WORDS" "length (pm_keys m) = BATCH_SIZE"
    "pm_qid m < NUM_QUEUES" "pm_mid m < NUM_ENTRY" "i < BATCH_SIZE"
  shows "sv_mem (deliver_put st c m a rest) (meta_entry st c (pm_qid m) (pm_mid m) + 8 * i) = pm_keys m ! i"
    and "(c, pm_qid m, pm_mid m) \<noteq> (c', q', mid') \<Longrightarrow> q' < NUM_QUEUES \<Longrightarrow> mid' < NUM_ENTRY \<Longrightarrow>
      sv_mem (deliver_put st c m a rest) (meta_entry st c' q' mid' + 8 * i) = sv_mem st (meta_entry st c' q' mid' + 8 * i)"
proof -
  have "page_buffer st a" by (rule posted_page_buffer [OF assms(1,3), of _ c]) (simp add: assms(4))
  then have "a + 8 * length (concat (pm_pages m)) \<le> global_mr st + BUFFER_SIZE st"
    using page_buffer_below(1) [OF _ assms(2)] assms(5) by (simp add: layout)
  then have "a + 8 * length (concat (pm_pages m)) \<le> meta_entry st c'' q'' mid'' + 8 * i" for c'' q'' mid''
    using meta_entry_above [of st c'' q'' mid''] by linarith
  then have eq: "sv_mem (deliver_put st c m a rest) (meta_entry st c'' q'' mid'' + 8 * i) =
      store_words (sv_mem st) (meta_entry st c (pm_qid m) (pm_mid m)) (pm_keys m) (meta_entry st c'' q'' mid'' + 8 * i)"
    for c'' q'' mid''
    unfolding deliver_put_def entry_offset by (simp add: store_words_outside)
  show "sv_mem (deliver_put st c m a rest) (meta_entry st c (pm_qid m) (pm_mid m) + 8 * i) = pm_keys m ! i"
    unfolding eq by (rule store_words_inside) (use assms(6,9) in simp)
  show "sv_mem (deliver_put st c m a rest) (meta_entry st c' q' mid' + 8 * i) = sv_mem st (meta_entry st c' q' mid' + 8 * i)"
    if "(c, pm_qid m, pm_mid m) \<noteq> (c', q', mid')" "q' < NUM_QUEUES" "mid' < NUM_ENTRY"
    unfolding eq by (rule store_other_entry) (use assms that in auto)
qed

lemma deliver_get_entry:
  assumes "gm_qid g < NUM_QUEUES" "gm_mid g < NUM_ENTRY" "length (gm_meta g) \<le> BATCH_SIZE"
  shows "i < length (gm_meta g) \<Longrightarrow>
      sv_mem (deliver_get st c g rest) (meta_entry st c (gm_qid g) (gm_mid g) + 8 * i) = gm_meta g ! i"
    and "(c, gm_qid g, gm_mid g) \<noteq> (c', q', mid') \<Longrightarrow> q' < NUM_QUEUES \<Longrightarrow> mid' < NUM_ENTRY \<Longrightarrow> i < BATCH_SIZE \<Longrightarrow>
      sv_mem (deliver_get st c g rest) (meta_entry st c' q' mid' + 8 * i) = sv_mem st (meta_entry st c' q' mid' + 8 * i)"
  unfolding deliver_get_def entry_offset
  by (simp_all add: store_words_inside store_other_entry assms del: store_words.simps)

lemma write_batch_map:
  "write_batch st a c q = map (\<lambda>i. (sv_mem st (meta_entry st c q 0 + 8 * i), a + PAGE_SIZE * i)) [0..<BATCH_SIZE]"
  by (rule nth_equalityI) (simp_all add: write_batch_def)

lemma write_batch_cong:
  assumes "\<And>i. i < BATCH_SIZE \<Longrightarrow> sv_mem st' (meta_entry st c q 0 + 8 * i) = sv_mem st (meta_entry st c q 0 + 8 * i)"
    "local_mm st' c = local_mm st c"
  shows "write_batch st' a c q = write_batch st a c q"
  using assms by (simp add: write_batch_map)

lemma write_batch_set:
  "set (write_batch st a c q) = (\<lambda>i. (sv_mem st (meta_entry st c q 0 + 8 * i), a + PAGE_SIZE * i)) ` {..<BATCH_SIZE}"
  by (auto simp: write_batch_map)

text \<open>Pages of one size, one after the other.\<close>

lemma take_drop_concat:
  "\<forall>p\<in>set ps. length p = n \<Longrightarrow> i < length ps \<Longrightarrow> take n (drop (i * n) (concat ps)) = ps ! i"
proof (induction ps arbitrary: i)
  case (Cons p ps)
  then show ?case by (cases i) simp_all
qed simp

lemma length_concat_uniform: "\<forall>p\<in>set ps. length p = n \<Longrightarrow> length (concat ps) = length ps * n"
  by (induction ps) simp_all

lemma deliver_put_batch:
  assumes "posted_typed st" "in_bounds st" "wqueue (pm_qid m)" "posted st c (pm_qid m) = a # rest"
    "length (pm_pages m) = BATCH_SIZE" "\<forall>p\<in>set (pm_pages m). length p = PAGE_WORDS" "length (pm_keys m) = BATCH_SIZE"
    "pm_qid m < NUM_QUEUES" "pm_mid m = 0" "set (zip (pm_keys m) (pm_pages m)) \<subseteq> H"
    "(k, x) \<in> set (write_batch (deliver_put st c m a rest) a c (pm_qid m))"
  shows "good (deliver_put st c m a rest) H k x"
proof -
  let ?st = "deliver_put st c m a rest"
  have len: "length (concat (pm_pages m)) = BATCH_SIZE * PAGE_WORDS"
    using length_concat_uniform [OF assms(6)] assms(5) by simp
  have mid: "pm_mid m < NUM_ENTRY" using assms(9) by (simp add: NUM_ENTRY_def)
  note dk = deliver_put_keeps [OF assms(1-4) len] and de = deliver_put_entry [OF assms(1-4) len assms(7,8) mid]
  from assms(11) obtain i where i: "i < BATCH_SIZE" "x = a + PAGE_SIZE * i"
    "k = sv_mem ?st (meta_entry st c (pm_qid m) 0 + 8 * i)" by (auto simp: write_batch_set)
  with de(1) [OF i(1)] assms(9) have k: "k = pm_keys m ! i" by simp
  have at: "x = a + 8 * (i * PAGE_WORDS)" using i(2) by (simp add: layout)
  have "i * PAGE_WORDS + PAGE_WORDS \<le> length (concat (pm_pages m))"
    using i(1) len by (metis Suc_leI add.commute mult_Suc mult_le_mono1)
  then have "page_at (sv_mem ?st) x = take PAGE_WORDS (drop (i * PAGE_WORDS) (concat (pm_pages m)))"
    unfolding at deliver_put_def using load_store_part by simp
  also have "\<dots> = pm_pages m ! i" by (rule take_drop_concat [OF assms(6)]) (use i assms(5) in simp)
  finally have "(k, page_at (sv_mem ?st) x) \<in> set (zip (pm_keys m) (pm_pages m))"
    using k i(1) assms(5,7) by (auto simp: set_zip)
  with dk(3) [OF i(1)] assms(10) i(2) show ?thesis by (auto simp: good_def)
qed

section \<open>The invariant\<close>

definition wimm :: "nat \<Rightarrow> u32" where
  "wimm q = htonl (bit_mask 1 0 (msg_code MSG_WRITE) (tx_code TX_WRITE_BEGIN) (of_nat q))"

definition rimm :: "nat \<Rightarrow> nat \<Rightarrow> u32" where
  "rimm q mid = htonl (bit_mask 1 (of_nat mid) (msg_code MSG_READ) (tx_code TX_READ_BEGIN) (of_nat q))"

lemma small_words:
  "q < NUM_QUEUES \<Longrightarrow> unat (of_nat q :: u32) = q \<and> (of_nat q :: u32) < 2 ^ 8"
  "mid < NUM_ENTRY \<Longrightarrow> unat (of_nat mid :: u32) = mid \<and> (of_nat mid :: u32) < 2 ^ 12"
  using unat_of_nat_small [of q, where 'a = 32] unat_of_nat_small [of mid, where 'a = 32]
  by (simp_all add: NUM_QUEUES_def NUM_ENTRY_def word_less_nat_alt)

lemma unmask_wimm: "q < NUM_QUEUES \<Longrightarrow>
    bit_unmask (ntohl (wimm q)) = (1, 0, msg_code MSG_WRITE, tx_code TX_WRITE_BEGIN, of_nat q)"
  unfolding wimm_def ntohl_htonl by (rule bit_unmask_mask) (use small_words(1) [of q] in simp_all)

lemma unmask_rimm: "q < NUM_QUEUES \<Longrightarrow> mid < NUM_ENTRY \<Longrightarrow>
    bit_unmask (ntohl (rimm q mid)) = (1, of_nat mid, msg_code MSG_READ, tx_code TX_READ_BEGIN, of_nat q)"
  unfolding rimm_def ntohl_htonl
  by (rule bit_unmask_mask) (use small_words(1) [of q] small_words(2) [of mid] in simp_all)

text \<open>
  The server's side: the requests are well typed, and every address in the table, in the work of
  a thread or in an arrived batch is the settled page of its key. The metadata entry of a pending
  get holds its key.
\<close>

definition srv_part ::
  "('s \<Rightarrow> (Key_t \<times> Value_t) set) \<Rightarrow> 's server \<Rightarrow> (Key_t \<times> page) set \<Rightarrow> (nat \<Rightarrow> nat \<Rightarrow> (u32 \<times> nat) list) \<Rightarrow>
     (nat \<Rightarrow> nat \<Rightarrow> (Key_t \<times> nat) list option) \<Rightarrow> (nat \<Rightarrow> nat \<Rightarrow> (Key_t \<times> u32) option) \<Rightarrow> bool" where
  "srv_part pairs st H ib wk rw \<longleftrightarrow> posted_typed st \<and>
     (\<forall>k v. (k, v) \<in> pairs (kv_hash (sv_kv st)) \<longrightarrow> v \<noteq> NONE \<longrightarrow> good st H k (unat v)) \<and>
     (\<forall>c q imm a. (imm, a) \<in> set (ib c q) \<longrightarrow> imm = wimm q \<and> wqueue q \<and> q < NUM_QUEUES \<and>
        (\<forall>k x. (k, x) \<in> set (write_batch st a c q) \<longrightarrow> good st H k x)) \<and>
     (\<forall>c q w. wk c q = Some w \<longrightarrow> wqueue q \<and> (\<forall>k x. (k, x) \<in> set w \<longrightarrow> good st H k x)) \<and>
     (\<forall>c q k imm. rw c q = Some (k, imm) \<longrightarrow> \<not> wqueue q \<and>
        (\<exists>mid<NUM_ENTRY. imm = rimm q mid \<and> sv_mem st (meta_entry st c q mid) = k))"

text \<open>
  The clients' side: what waits in the queues was put, and a queue with a message under way is
  locked.
\<close>

definition client_part ::
  "(nat \<Rightarrow> client) \<Rightarrow> (Key_t \<times> page) set \<Rightarrow> (nat \<Rightarrow> nat \<Rightarrow> (u32 \<times> nat) list) \<Rightarrow> (nat \<Rightarrow> nat \<Rightarrow> bool) \<Rightarrow>
     (nat \<Rightarrow> nat \<Rightarrow> (Key_t \<times> u32) option) \<Rightarrow> (nat \<Rightarrow> nat \<Rightarrow> u32 option) \<Rightarrow> bool" where
  "client_part cls H ib rep rw dn \<longleftrightarrow> (\<forall>c. client_ok (cls c)) \<and>
     (\<forall>c q k p. q < NUM_QUEUES \<longrightarrow> (k, p) \<in> set (buffered (queues (cls c) ! q)) \<longrightarrow> (k, p) \<in> H \<and> length p = PAGE_WORDS) \<and>
     (\<forall>c q. (ib c q \<noteq> [] \<or> rep c q \<or> rw c q \<noteq> None \<or> dn c q \<noteq> None \<longrightarrow> global_lock (queues (cls c) ! q)) \<and>
        (ib c q \<noteq> [] \<longrightarrow> \<not> rep c q \<and> length (ib c q) = 1) \<and> (dn c q \<noteq> None \<longrightarrow> rw c q = None) \<and>
        (\<not> wqueue q \<longrightarrow> nr_buffered (queues (cls c) ! q) < BATCH_SIZE) \<and>
        (ib c q \<noteq> [] \<or> rep c q \<longrightarrow> wqueue q) \<and> (rw c q \<noteq> None \<or> dn c q \<noteq> None \<longrightarrow> \<not> wqueue q))"

definition cache_inv :: "('s \<Rightarrow> (Key_t \<times> Value_t) set) \<Rightarrow> 's system \<Rightarrow> bool" where
  "cache_inv pairs s \<longleftrightarrow> srv_part pairs (srv s) (hist s) (inbox s) (work s) (rwait s) \<and>
     client_part (clients s) (hist s) (inbox s) (replied s) (rwait s) (rdone s) \<and> got s \<subseteq> hist s"

lemma client_part_update:
  assumes "client_part cls H ib rep rw dn" "H \<subseteq> H'" "i < NUM_QUEUES" "rq_ok q'"
    "\<And>k p. (k, p) \<in> set (buffered q') \<Longrightarrow> (k, p) \<in> H' \<and> length p = PAGE_WORDS"
    "ib c i \<noteq> [] \<or> rep c i \<or> rw c i \<noteq> None \<or> dn c i \<noteq> None \<Longrightarrow> global_lock q'"
    "\<not> wqueue i \<Longrightarrow> nr_buffered q' < BATCH_SIZE"
  shows "client_part (cls(c := (cls c)\<lparr>bf := flt, queues := (queues (cls c))[i := q']\<rparr>)) H' ib rep rw dn"
proof -
  let ?cls = "cls(c := (cls c)\<lparr>bf := flt, queues := (queues (cls c))[i := q']\<rparr>)"
  have ok: "client_ok (cls c')" for c' using assms(1) by (simp add: client_part_def)
  then have i: "i < length (queues (cls c))" using assms(3) by (simp add: client_ok_def)
  have at: "queues (?cls c') ! q = (if c' = c \<and> q = i then q' else queues (cls c') ! q)" for c' q
    using i by simp
  have "client_ok (?cls c')" for c' using ok client_ok_set(1) [OF ok assms(4)] by simp
  moreover have "(k, p) \<in> H' \<and> length p = PAGE_WORDS"
    if "(k, p) \<in> set (buffered (queues (?cls c') ! q))" "q < NUM_QUEUES" for c' q k p
  proof (cases "c' = c \<and> q = i")
    case True
    then show ?thesis using that(1) assms(5) by (simp only: at if_True simp_thms)
  next
    case False
    then have "(k, p) \<in> set (buffered (queues (cls c') ! q))" using that(1) by (simp only: at if_False)
    then show ?thesis using that(2) assms(1,2) unfolding client_part_def by blast
  qed
  moreover have "(ib c' q \<noteq> [] \<or> rep c' q \<or> rw c' q \<noteq> None \<or> dn c' q \<noteq> None \<longrightarrow> global_lock (queues (?cls c') ! q)) \<and>
        (ib c' q \<noteq> [] \<longrightarrow> \<not> rep c' q \<and> length (ib c' q) = 1) \<and> (dn c' q \<noteq> None \<longrightarrow> rw c' q = None) \<and>
        (\<not> wqueue q \<longrightarrow> nr_buffered (queues (?cls c') ! q) < BATCH_SIZE) \<and>
        (ib c' q \<noteq> [] \<or> rep c' q \<longrightarrow> wqueue q) \<and> (rw c' q \<noteq> None \<or> dn c' q \<noteq> None \<longrightarrow> \<not> wqueue q)" for c' q
  proof -
    have "(ib c' q \<noteq> [] \<or> rep c' q \<or> rw c' q \<noteq> None \<or> dn c' q \<noteq> None \<longrightarrow> global_lock (queues (cls c') ! q)) \<and>
        (ib c' q \<noteq> [] \<longrightarrow> \<not> rep c' q \<and> length (ib c' q) = 1) \<and> (dn c' q \<noteq> None \<longrightarrow> rw c' q = None) \<and>
        (\<not> wqueue q \<longrightarrow> nr_buffered (queues (cls c') ! q) < BATCH_SIZE) \<and>
        (ib c' q \<noteq> [] \<or> rep c' q \<longrightarrow> wqueue q) \<and> (rw c' q \<noteq> None \<or> dn c' q \<noteq> None \<longrightarrow> \<not> wqueue q)"
      using assms(1) unfolding client_part_def by blast
    then show ?thesis unfolding at using assms(6,7) by (cases "c' = c \<and> q = i") simp_all
  qed
  ultimately show ?thesis unfolding client_part_def by blast
qed

text \<open>The server's side of a step that keeps the settled pages and the metadata.\<close>

lemma srv_part_keeps:
  assumes "srv_part pairs st H ib wk rw" "keeps st st'" "H \<subseteq> H'" "posted_typed st'"
    "\<And>k v. (k, v) \<in> pairs (kv_hash (sv_kv st')) \<Longrightarrow> v \<noteq> NONE \<Longrightarrow> (k, v) \<in> pairs (kv_hash (sv_kv st)) \<or> good st' H' k (unat v)"
    "\<And>c q a. ib c q \<noteq> [] \<Longrightarrow> q < NUM_QUEUES \<Longrightarrow> write_batch st' a c q = write_batch st a c q"
    "\<And>c q k imm mid. rw c q = Some (k, imm) \<Longrightarrow> \<not> wqueue q \<Longrightarrow> mid < NUM_ENTRY \<Longrightarrow>
       sv_mem st' (meta_entry st' c q mid) = sv_mem st (meta_entry st c q mid)"
  shows "srv_part pairs st' H' ib wk rw"
proof -
  have g: "good st H k a \<Longrightarrow> good st' H' k a" for k a by (rule good_keeps [OF _ assms(2,3)])
  show ?thesis
    unfolding srv_part_def
  proof (intro conjI allI impI)
    show "posted_typed st'" by (rule assms(4))
    show "good st' H' k (unat v)" if "(k, v) \<in> pairs (kv_hash (sv_kv st'))" "v \<noteq> NONE" for k v
      using assms(5) [OF that] assms(1) that(2) g unfolding srv_part_def by blast
    fix c q imm a assume e: "(imm, a) \<in> set (ib c q)"
    then show "imm = wimm q" "wqueue q" "q < NUM_QUEUES" using assms(1) unfolding srv_part_def by blast+
    with e have "write_batch st' a c q = write_batch st a c q" by (intro assms(6)) auto
    then show "good st' H' k x" if "(k, x) \<in> set (write_batch st' a c q)" for k x
      using e that assms(1) g unfolding srv_part_def by metis
  next
    fix c q w assume "wk c q = Some w"
    then show "wqueue q" "\<And>k x. (k, x) \<in> set w \<Longrightarrow> good st' H' k x" using assms(1) g unfolding srv_part_def by blast+
  next
    fix c q k imm assume rw: "rw c q = Some (k, imm)"
    then show "\<not> wqueue q" using assms(1) unfolding srv_part_def by blast
    with rw show "\<exists>mid<NUM_ENTRY. imm = rimm q mid \<and> sv_mem st' (meta_entry st' c q mid) = k"
      using assms(1) assms(7) [OF rw] unfolding srv_part_def by metis
  qed
qed

section \<open>Every step keeps the invariant\<close>

lemma keeps_same:
  "posted st' = posted st \<Longrightarrow> page_offset st' = page_offset st \<Longrightarrow> global_mr st' = global_mr st \<Longrightarrow>
     sv_mem st' = sv_mem st \<Longrightarrow> keeps st st'"
  by (simp add: keeps_def settled_def page_buffer_def)

lemma keeps_refl: "keeps st st"
  by (simp add: keeps_def)

lemma keeps_trans: "keeps a b \<Longrightarrow> keeps b c \<Longrightarrow> keeps a c"
  by (simp add: keeps_def)

lemma keeps_post_recv:
  assumes "\<not> wqueue q"
  shows "keeps st (post_recv st c q)"
proof -
  have pb: "page_buffer (post_recv st c q) = page_buffer st"
    by (simp add: fun_eq_iff page_buffer_def post_recv_def)
  have "posted (post_recv st c q) c' q' = posted st c' q'" if "wqueue q'" for c' q'
    using that assms by (auto simp: post_recv_def)
  then have "settled st a \<Longrightarrow> settled (post_recv st c q) a" for a
    unfolding settled_def pb by metis
  then show ?thesis by (simp add: keeps_def post_recv_def)
qed

lemma in_bounds_offset: "in_bounds st \<Longrightarrow> unat (page_offset st) + BATCH_SIZE < 2 ^ 64"
  by (simp add: in_bounds_def mr_size_def layout)

lemma keeps_post_page_buffer:
  assumes "in_bounds st"
  shows "keeps st (post_page_buffer st c q)"
proof -
  let ?st = "post_page_buffer st c q"
  have f: "sv_mem ?st = sv_mem st" "global_mr ?st = global_mr st"
    "posted ?st = upd (posted st) c q (posted st c q @ [free_page st])"
    by (simp_all add: post_page_buffer_def post_recv_with_addr_def)
  have off: "unat (page_offset ?st) = unat (page_offset st) + BATCH_SIZE"
    using unat_add_small [OF in_bounds_offset [OF assms]]
    by (simp add: post_page_buffer_def post_recv_with_addr_def)
  have new: "page_buffer ?st b" "b \<noteq> free_page st" if "page_buffer st b" for b
  proof -
    from that obtain n where "b = GET_FREE_PAGE_REGION (global_mr st) + PAGE_SIZE * (BATCH_SIZE * n)"
      "BATCH_SIZE * n + BATCH_SIZE \<le> unat (page_offset st)" unfolding page_buffer_def by blast
    then show "page_buffer ?st b" unfolding page_buffer_def f(2) off using trans_le_add1 by blast
    show "b \<noteq> free_page st" using page_buffer_new [OF that] by (simp add: PAGE_SIZE_def BATCH_SIZE_def)
  qed
  have "set (posted ?st c' q') \<subseteq> insert (free_page st) (set (posted st c' q'))" for c' q'
    unfolding f(3) by auto
  with new have "settled st a \<Longrightarrow> settled ?st a" for a
    unfolding settled_def by blast
  then show ?thesis by (simp add: keeps_def f(1))
qed

lemma sv_insert_fields:
  assumes "sv_insert ins st k a = Some st'"
  shows "st' = st\<lparr>sv_kv := sv_kv st'\<rparr>" "\<exists>d. ins (kv_hash (sv_kv st)) k (of_nat a) = Some (kv_hash (sv_kv st'), d)"
  using assms by (auto simp: sv_insert_def KV_Insert_def split: bind_splits)

lemma srv_part_put:
  assumes "srv_part pairs st H ib wk rw" "in_bounds st" "H \<subseteq> H'" "ib c (pm_qid m) = []"
    and "posted st c (pm_qid m) = a # rest" "wqueue (pm_qid m)" "pm_qid m < NUM_QUEUES" "pm_mid m = 0"
    and "pm_imm m = wimm (pm_qid m)" "length (pm_pages m) = BATCH_SIZE" "length (pm_keys m) = BATCH_SIZE"
    and "\<And>k p. (k, p) \<in> set (zip (pm_keys m) (pm_pages m)) \<Longrightarrow> (k, p) \<in> H' \<and> length p = PAGE_WORDS"
  shows "srv_part pairs (deliver_put st c m a rest) H' (upd ib c (pm_qid m) [(pm_imm m, a)]) wk rw"
proof -
  let ?st = "deliver_put st c m a rest" and ?q = "pm_qid m"
  have ty: "posted_typed st" using assms(1) by (simp add: srv_part_def)
  have pages: "\<forall>p\<in>set (pm_pages m). length p = PAGE_WORDS"
    using assms(10-12) by (metis in_set_impl_in_set_zip2)
  then have len: "length (concat (pm_pages m)) = BATCH_SIZE * PAGE_WORDS"
    using length_concat_uniform assms(10) by metis
  have mid: "pm_mid m < NUM_ENTRY" using assms(8) by (simp add: NUM_ENTRY_def)
  note dk = deliver_put_keeps [OF ty assms(2,6,5) len]
  note de = deliver_put_entry(2) [OF ty assms(2,6,5) len assms(11,7) mid]
  have kv: "sv_kv ?st = sv_kv st" by (simp add: deliver_put_def)
  have B0: "0 < BATCH_SIZE" by (simp add: BATCH_SIZE_def)
  have "srv_part pairs ?st H' ib wk rw"
  proof (rule srv_part_keeps [OF assms(1) dk(1) assms(3) dk(2)])
    fix c' q' a' assume "ib c' q' \<noteq> []" "q' < NUM_QUEUES"
    then have "(c, ?q, pm_mid m) \<noteq> (c', q', 0)" using assms(4) by auto
    then show "write_batch ?st a' c' q' = write_batch st a' c' q'"
      by (intro write_batch_cong) (simp_all add: de \<open>q' < NUM_QUEUES\<close> NUM_ENTRY_def)
  next
    fix c' q' k imm mid assume "\<not> wqueue q'" "mid < NUM_ENTRY"
    then show "sv_mem ?st (meta_entry ?st c' q' mid) = sv_mem st (meta_entry st c' q' mid)"
      using de [OF B0, of c' q' mid] assms(6) by (auto simp: NUM_QUEUES_def)
  qed (simp add: kv)
  moreover have "good ?st H' k x" if "(k, x) \<in> set (write_batch ?st a c ?q)" for k x
    by (rule deliver_put_batch [OF ty assms(2,6,5,10) pages assms(11,7,8) _ that]) (use assms(12) in auto)
  ultimately show ?thesis
    using assms(6,7,9) unfolding srv_part_def by simp
qed

lemma srv_part_get_sent:
  assumes "srv_part pairs st H ib wk rw" "in_bounds st" "posted st c q = a # rest" "\<not> wqueue q" "mid < NUM_ENTRY"
    and "gm_qid g = q" "gm_mid g = mid" "gm_imm g = rimm q mid" "gm_meta g = [key, x, y]" "rw c q = None"
  shows "srv_part pairs (deliver_get st c g rest) H ib wk (upd rw c q (Some (key, gm_imm g)))"
proof -
  let ?st = "deliver_get st c g rest"
  have ty: "posted_typed st" using assms(1) by (simp add: srv_part_def)
  have q: "gm_qid g < NUM_QUEUES" "gm_mid g < NUM_ENTRY" "length (gm_meta g) \<le> BATCH_SIZE"
    using assms(4-9) by (simp_all add: NUM_QUEUES_def BATCH_SIZE_def)
  have "posted st c (gm_qid g) = a # rest" using assms(3,6) by simp
  note dk = deliver_get_keeps [OF ty assms(2) this] and de = deliver_get_entry [OF q, where st = st and c = c and rest = rest]
  have kv: "sv_kv ?st = sv_kv st" by (simp add: deliver_get_def)
  have B0: "0 < BATCH_SIZE" by (simp add: BATCH_SIZE_def)
  have "srv_part pairs ?st H ib wk rw"
  proof (rule srv_part_keeps [OF assms(1) dk(1) subset_refl dk(2)])
    fix c' q' a' assume ib: "ib c' q' \<noteq> []" "q' < NUM_QUEUES"
    then have "wqueue q'" using assms(1) unfolding srv_part_def by (metis list.set_intros(1) neq_Nil_conv surj_pair)
    then have "(c, gm_qid g, gm_mid g) \<noteq> (c', q', 0)" using assms(4,6) by auto
    then show "write_batch ?st a' c' q' = write_batch st a' c' q'"
      by (intro write_batch_cong) (simp_all add: de ib NUM_ENTRY_def)
  next
    fix c' q' k imm mid' assume r: "rw c' q' = Some (k, imm)" "\<not> wqueue q'" "mid' < NUM_ENTRY"
    then have "(c, gm_qid g, gm_mid g) \<noteq> (c', q', mid')" using assms(6,10) by auto
    then show "sv_mem ?st (meta_entry ?st c' q' mid') = sv_mem st (meta_entry st c' q' mid')"
      using de(2) [OF _ _ _ B0, of c' q' mid'] r(2,3) by (simp add: NUM_QUEUES_def)
  qed (simp add: kv)
  moreover have "sv_mem ?st (meta_entry ?st c q mid) = key"
    using de(1) [of 0] assms(6,7,9) by simp
  ultimately show ?thesis
    using assms(4,5,8) unfolding srv_part_def by auto
qed

text \<open>A put message carries the batch of its queue.\<close>

lemma put_message_facts:
  assumes "rq_ok q" "nr_buffered q = BATCH_SIZE - 1"
    and m_def: "m = put_message (push q page key) i 1"
  shows "pm_qid m = i" "pm_mid m = 0" "pm_imm m = wimm i" "length (pm_pages m) = BATCH_SIZE"
    "length (pm_keys m) = BATCH_SIZE" "zip (pm_keys m) (pm_pages m) = buffered q @ [(key, page)]"
proof -
  have b: "buffered (push q page key) = buffered q @ [(key, page)]"
    by (rule buffered_push [OF assms(1)]) (simp add: assms(2) BATCH_SIZE_def)
  have n: "nr_buffered (push q page key) = BATCH_SIZE" using assms(2) by (simp add: push_def BATCH_SIZE_def)
  show "zip (pm_keys m) (pm_pages m) = buffered q @ [(key, page)]"
    unfolding b [symmetric] m_def by (simp add: put_message_def buffered_def n)
  show "pm_qid m = i" "pm_mid m = 0" "pm_imm m = wimm i" "length (pm_pages m) = BATCH_SIZE" "length (pm_keys m) = BATCH_SIZE"
    using assms(1) by (simp_all add: m_def put_message_def wimm_def push_def rq_ok_def)
qed

lemma buffered_unlock [simp]: "buffered (spin_unlock q) = buffered q" "\<not> global_lock (spin_unlock q)"
  "buffered (q\<lparr>global_lock := b\<rparr>) = buffered q" "buffered (q\<lparr>nr_buffered := 0\<rparr>) = []"
  by (simp_all add: buffered_def spin_unlock_def)

lemma client_partD:
  assumes "client_part cls H ib rep rw dn"
  shows "client_ok (cls c)"
    "q < NUM_QUEUES \<Longrightarrow> (k, p) \<in> set (buffered (queues (cls c) ! q)) \<Longrightarrow> (k, p) \<in> H \<and> length p = PAGE_WORDS"
    "\<not> global_lock (queues (cls c) ! q) \<Longrightarrow> ib c q = [] \<and> \<not> rep c q \<and> rw c q = None \<and> dn c q = None"
    "ib c q \<noteq> [] \<Longrightarrow> \<not> rep c q \<and> length (ib c q) = 1" "dn c q \<noteq> None \<Longrightarrow> rw c q = None"
    "ib c q \<noteq> [] \<or> rep c q \<or> rw c q \<noteq> None \<or> dn c q \<noteq> None \<Longrightarrow> global_lock (queues (cls c) ! q)"
    "\<not> wqueue q \<Longrightarrow> nr_buffered (queues (cls c) ! q) < BATCH_SIZE"
    "ib c q \<noteq> [] \<or> rep c q \<Longrightarrow> wqueue q" "rw c q \<noteq> None \<or> dn c q \<noteq> None \<Longrightarrow> \<not> wqueue q"
proof -
  note A = assms [unfolded client_part_def, THEN conjunct1]
    and B = assms [unfolded client_part_def, THEN conjunct2, THEN conjunct1]
    and C = assms [unfolded client_part_def, THEN conjunct2, THEN conjunct2, THEN spec [of _ c], THEN spec [of _ q]]
  show "client_ok (cls c)" using A by fast
  show "q < NUM_QUEUES \<Longrightarrow> (k, p) \<in> set (buffered (queues (cls c) ! q)) \<Longrightarrow> (k, p) \<in> H \<and> length p = PAGE_WORDS"
    using B by fast
  show "\<not> global_lock (queues (cls c) ! q) \<Longrightarrow> ib c q = [] \<and> \<not> rep c q \<and> rw c q = None \<and> dn c q = None"
    "ib c q \<noteq> [] \<Longrightarrow> \<not> rep c q \<and> length (ib c q) = 1" "dn c q \<noteq> None \<Longrightarrow> rw c q = None"
    "ib c q \<noteq> [] \<or> rep c q \<or> rw c q \<noteq> None \<or> dn c q \<noteq> None \<Longrightarrow> global_lock (queues (cls c) ! q)"
    "\<not> wqueue q \<Longrightarrow> nr_buffered (queues (cls c) ! q) < BATCH_SIZE"
    "ib c q \<noteq> [] \<or> rep c q \<Longrightarrow> wqueue q" "rw c q \<noteq> None \<or> dn c q \<noteq> None \<Longrightarrow> \<not> wqueue q"
    using C by metis+
qed

lemma client_part_flags:
  assumes "client_part cls H ib rep rw dn"
    "\<And>c q. ib' c q \<noteq> [] \<or> rep' c q \<or> rw' c q \<noteq> None \<or> dn' c q \<noteq> None \<Longrightarrow> global_lock (queues (cls c) ! q)"
    "\<And>c q. ib' c q \<noteq> [] \<Longrightarrow> \<not> rep' c q \<and> length (ib' c q) = 1" "\<And>c q. dn' c q \<noteq> None \<Longrightarrow> rw' c q = None"
    "\<And>c q. ib' c q \<noteq> [] \<or> rep' c q \<Longrightarrow> wqueue q" "\<And>c q. rw' c q \<noteq> None \<or> dn' c q \<noteq> None \<Longrightarrow> \<not> wqueue q"
  shows "client_part cls H ib' rep' rw' dn'"
proof -
  note D = client_partD [OF assms(1)]
  have "(ib' c q \<noteq> [] \<or> rep' c q \<or> rw' c q \<noteq> None \<or> dn' c q \<noteq> None \<longrightarrow> global_lock (queues (cls c) ! q)) \<and>
        (ib' c q \<noteq> [] \<longrightarrow> \<not> rep' c q \<and> length (ib' c q) = 1) \<and> (dn' c q \<noteq> None \<longrightarrow> rw' c q = None) \<and>
        (\<not> wqueue q \<longrightarrow> nr_buffered (queues (cls c) ! q) < BATCH_SIZE) \<and>
        (ib' c q \<noteq> [] \<or> rep' c q \<longrightarrow> wqueue q) \<and> (rw' c q \<noteq> None \<or> dn' c q \<noteq> None \<longrightarrow> \<not> wqueue q)" for c q
    by (intro conjI impI)
      (erule assms(2) assms(3) [THEN conjunct1] assms(3) [THEN conjunct2] assms(4-6) D(7) | assumption)+
  then show ?thesis unfolding client_part_def using D(1,2) by blast
qed

lemma put_buffered_inv:
  assumes "client_part cls H ib rep rw dn" "length page = PAGE_WORDS"
    "rdpma_put_begin env (cls c) cpu page key 1 = Some (cl', r)"
  shows "client_part (cls(c := cl')) (insert (key, page) H) ib rep rw dn"
proof -
  let ?i = "write_queue cpu"
  let ?q = "queues (cls c) ! ?i"
  note ok = client_partD(1) [OF assms(1), of c]
  have i: "?i < NUM_QUEUES" "wqueue ?i" by (rule queue_id_bounds)+
  note q = queue_nth_ok [OF ok i(1)]
  have w: "(k, p) \<in> set (buffered (push ?q page key)) \<Longrightarrow> (k, p) \<in> insert (key, page) H \<and> length p = PAGE_WORDS"
    if "nr_buffered ?q < BATCH_SIZE" for k p
    using buffered_push [OF q that] client_partD(2) [OF assms(1) i(1)] assms(2) by auto
  from ok assms(3) show ?thesis
  proof (cases rule: rdpma_put_begin_SomeD)
    case (1 flt)
    then have "nr_buffered ?q < BATCH_SIZE" by simp
    with 1 w client_partD(3) [OF assms(1) 1(2)] rq_ok_push(2) [OF q 1(3)] i(2) show ?thesis
      unfolding 1(4) by (intro client_part_update [OF assms(1) subset_insertI i(1)]) auto
  next
    case (2 flt)
    then have "nr_buffered ?q < BATCH_SIZE" by (simp add: BATCH_SIZE_def)
    with 2 w client_partD(3) [OF assms(1) 2(2)] rq_ok_push(1) [OF q] i(2) show ?thesis
      unfolding 2(4) by (intro client_part_update [OF assms(1) subset_insertI i(1)]) auto
  qed
qed

lemma put_posted_inv:
  assumes "cache_inv pairs s" "in_bounds (srv s)" "length page = PAGE_WORDS"
    "rdpma_put_begin env (clients s c) cpu page key 1 = Some (cl', Inr m)" "posted (srv s) c (pm_qid m) = a # rest"
  shows "cache_inv pairs (s\<lparr>clients := (clients s)(c := cl'), hist := insert (key, page) (hist s),
      srv := deliver_put (srv s) c m a rest,
      inbox := upd (inbox s) c (pm_qid m) (inbox s c (pm_qid m) @ [(pm_imm m, a)])\<rparr>)"
proof -
  let ?i = "write_queue cpu"
  let ?q = "queues (clients s c) ! ?i"
  have cp: "client_part (clients s) (hist s) (inbox s) (replied s) (rwait s) (rdone s)"
    and sp: "srv_part pairs (srv s) (hist s) (inbox s) (work s) (rwait s)"
    using assms(1) by (simp_all add: cache_inv_def)
  note ok = client_partD(1) [OF cp, of c]
  have i: "?i < NUM_QUEUES" "wqueue ?i" by (rule queue_id_bounds)+
  note q = queue_nth_ok [OF ok i(1)]
  obtain flt where m: "nr_buffered ?q = BATCH_SIZE - 1" "\<not> global_lock ?q" "m = put_message (push ?q page key) ?i 1"
    "cl' = (clients s c)\<lparr>bf := flt, queues := (queues (clients s c))[?i := push ?q page key]\<rparr>"
    using ok assms(4) by (cases rule: rdpma_put_begin_SomeD) (simp_all split: if_splits)
  have lk: "global_lock (queues cl' ! ?i)" using ok i(1) by (simp add: m(4) push_def client_ok_def)
  note mf = put_message_facts [OF q m(1,3)]
  have ib: "inbox s c ?i = []" "\<not> replied s c ?i" using client_partD(3) [OF cp m(2)] by simp_all
  have "srv_part pairs (deliver_put (srv s) c m a rest) (insert (key, page) (hist s))
      (upd (inbox s) c (pm_qid m) [(pm_imm m, a)]) (work s) (rwait s)"
  proof (rule srv_part_put [OF sp assms(2) subset_insertI])
    show "(k, p) \<in> set (zip (pm_keys m) (pm_pages m)) \<Longrightarrow> (k, p) \<in> insert (key, page) (hist s) \<and> length p = PAGE_WORDS" for k p
      using mf(6) client_partD(2) [OF cp i(1)] assms(3) by auto
  qed (use mf ib i assms(5) in simp_all)
  moreover have "client_part ((clients s)(c := cl')) (insert (key, page) (hist s))
      (upd (inbox s) c (pm_qid m) [(pm_imm m, a)]) (replied s) (rwait s) (rdone s)"
    using put_buffered_inv [OF cp assms(3,4)]
  proof (rule client_part_flags)
    fix c' q'
    show "upd (inbox s) c (pm_qid m) [(pm_imm m, a)] c' q' \<noteq> [] \<Longrightarrow>
        \<not> replied s c' q' \<and> length (upd (inbox s) c (pm_qid m) [(pm_imm m, a)] c' q') = 1"
      using client_partD(4) [OF cp] ib mf(1) by (auto split: if_splits)
    show "rdone s c' q' \<noteq> None \<Longrightarrow> rwait s c' q' = None" by (rule client_partD(5) [OF cp])
    show "upd (inbox s) c (pm_qid m) [(pm_imm m, a)] c' q' \<noteq> [] \<or> replied s c' q' \<Longrightarrow> wqueue q'"
      using client_partD(8) [OF cp, of c' q'] mf(1) i(2) by (auto split: if_splits)
    show "rwait s c' q' \<noteq> None \<or> rdone s c' q' \<noteq> None \<Longrightarrow> \<not> wqueue q'" by (rule client_partD(9) [OF cp])
    show "global_lock (queues (((clients s)(c := cl')) c') ! q')"
      if "upd (inbox s) c (pm_qid m) [(pm_imm m, a)] c' q' \<noteq> [] \<or> replied s c' q' \<or> rwait s c' q' \<noteq> None \<or> rdone s c' q' \<noteq> None"
    proof (cases "c' = c \<and> q' = ?i")
      case False
      with that mf(1) have "inbox s c' q' \<noteq> [] \<or> replied s c' q' \<or> rwait s c' q' \<noteq> None \<or> rdone s c' q' \<noteq> None"
        by (auto split: if_splits)
      then show ?thesis by (rule client_partD(6) [OF put_buffered_inv [OF cp assms(3,4)]])
    qed (use lk in simp)
  qed
  ultimately show ?thesis
    using assms(1) mf(1) ib(1) by (auto simp: cache_inv_def)
qed

lemma put_done_inv:
  assumes "client_part cls H ib rep rw dn" "rep c (write_queue cpu)" "rdpma_put_end env (cls c) cpu = Some (cl', ret)"
  shows "client_part (cls(c := cl')) H ib (upd rep c (write_queue cpu) False) rw dn"
proof -
  let ?i = "write_queue cpu"
  note ok = client_partD(1) [OF assms(1), of c]
  have i: "?i < NUM_QUEUES" "wqueue ?i" by (rule queue_id_bounds)+
  have lk: "upd rep c ?i False c' q' \<Longrightarrow> rep c' q'" for c' q' by (auto split: if_splits)
  have part: "client_part cls H ib (upd rep c ?i False) rw dn"
    using assms(1)
  proof (rule client_part_flags)
    fix c' q'
    show "ib c' q' \<noteq> [] \<or> upd rep c ?i False c' q' \<or> rw c' q' \<noteq> None \<or> dn c' q' \<noteq> None \<Longrightarrow> global_lock (queues (cls c') ! q')"
      using client_partD(6) [OF assms(1), of c' q'] lk [of c' q'] by metis
    show "ib c' q' \<noteq> [] \<Longrightarrow> \<not> upd rep c ?i False c' q' \<and> length (ib c' q') = 1"
      using client_partD(4) [OF assms(1), of c' q'] lk [of c' q'] by metis
    show "dn c' q' \<noteq> None \<Longrightarrow> rw c' q' = None" by (rule client_partD(5) [OF assms(1)])
    show "ib c' q' \<noteq> [] \<or> upd rep c ?i False c' q' \<Longrightarrow> wqueue q'"
      using client_partD(8) [OF assms(1), of c' q'] lk [of c' q'] by metis
    show "rw c' q' \<noteq> None \<or> dn c' q' \<noteq> None \<Longrightarrow> \<not> wqueue q'" by (rule client_partD(9) [OF assms(1)])
  qed
  have empty: "ib c ?i = []" "rw c ?i = None" "dn c ?i = None"
    using client_partD(4,9) [OF assms(1), of c ?i] assms(2) i(2) by metis+
  have q: "rq_ok (spin_unlock ((queues (cls c) ! ?i)\<lparr>nr_buffered := 0\<rparr>))"
    using queue_nth_ok [OF ok i(1)] by (simp add: rq_ok_def spin_unlock_def BATCH_SIZE_def)
  from rdpma_put_end_SomeD [OF ok assms(3)] show ?thesis
  proof
    assume "cl' = cls c \<and> ret = -1"
    with part show ?thesis by simp
  next
    assume "cl' = (cls c)\<lparr>queues := (queues (cls c))[?i := spin_unlock ((queues (cls c) ! ?i)\<lparr>nr_buffered := 0\<rparr>)]\<rparr> \<and> ret = 0"
    then have "cl' = (cls c)\<lparr>bf := bf (cls c), queues := (queues (cls c))[?i := spin_unlock ((queues (cls c) ! ?i)\<lparr>nr_buffered := 0\<rparr>)]\<rparr>"
      by simp
    with client_part_update [OF part subset_refl i(1) q, of c "bf (cls c)"] empty i(2) show ?thesis by auto
  qed
qed

lemma get_sent_inv:
  assumes "client_part cls H ib rep rw dn" "rdpma_get_begin env (cls c) cpu raddr key 1 = Some (cl', Inr g)"
  shows "client_part (cls(c := cl')) H ib rep (upd rw c (gm_qid g) (Some x)) dn \<and> rw c (gm_qid g) = None \<and>
    gm_qid g = read_queue cpu \<and> gm_mid g = rdpma_get_msg_id NUM_QUEUES cpu \<and>
    gm_imm g = rimm (read_queue cpu) (rdpma_get_msg_id NUM_QUEUES cpu) \<and> gm_meta g = [key, 1, raddr]"
proof -
  let ?i = "read_queue cpu"
  let ?q = "queues (cls c) ! ?i"
  note ok = client_partD(1) [OF assms(1), of c]
  have i: "?i < NUM_QUEUES" using queue_id_bounds(1) [of cpu] by (simp add: NUM_QUEUES_def)
  from ok assms(2) have l: "\<not> global_lock ?q"
    and cl': "cl' = (cls c)\<lparr>queues := (queues (cls c))[?i := ?q\<lparr>global_lock := True\<rparr>]\<rparr>"
    and g: "gm_qid g = ?i" "gm_mid g = rdpma_get_msg_id NUM_QUEUES cpu"
      "gm_imm g = rimm ?i (rdpma_get_msg_id NUM_QUEUES cpu)" "gm_meta g = [key, 1, raddr]"
    by (cases rule: rdpma_get_begin_SomeD; simp add: rimm_def)+
  note free = client_partD(3) [OF assms(1) l]
  have q: "rq_ok (?q\<lparr>global_lock := True\<rparr>)" using queue_nth_ok [OF ok i] by (simp add: rq_ok_def)
  have "cl' = (cls c)\<lparr>bf := bf (cls c), queues := (queues (cls c))[?i := ?q\<lparr>global_lock := True\<rparr>]\<rparr>" using cl' by simp
  moreover have "client_part (cls(c := (cls c)\<lparr>bf := bf (cls c), queues := (queues (cls c))[?i := ?q\<lparr>global_lock := True\<rparr>]\<rparr>)) H ib rep rw dn"
    by (rule client_part_update [OF assms(1) subset_refl i q])
      (use client_partD(2) [OF assms(1) i] client_partD(7) [OF assms(1), of ?i c] in simp_all)
  ultimately have part: "client_part (cls(c := cl')) H ib rep rw dn" by simp
  have lk: "global_lock (queues cl' ! ?i)" using cl' ok i by (simp add: client_ok_def)
  from part have "client_part (cls(c := cl')) H ib rep (upd rw c (gm_qid g) (Some x)) dn"
  proof (rule client_part_flags)
    fix c' q'
    show "ib c' q' \<noteq> [] \<Longrightarrow> \<not> rep c' q' \<and> length (ib c' q') = 1" by (rule client_partD(4) [OF assms(1)])
    show "dn c' q' \<noteq> None \<Longrightarrow> upd rw c (gm_qid g) (Some x) c' q' = None"
      using client_partD(5) [OF assms(1), of c' q'] free g(1) by auto
    show "ib c' q' \<noteq> [] \<or> rep c' q' \<Longrightarrow> wqueue q'" by (rule client_partD(8) [OF assms(1)])
    show "upd rw c (gm_qid g) (Some x) c' q' \<noteq> None \<or> dn c' q' \<noteq> None \<Longrightarrow> \<not> wqueue q'"
      using client_partD(9) [OF assms(1), of c' q'] queue_id_bounds(1) [of cpu] g(1) by (auto split: if_splits)
    show "global_lock (queues ((cls(c := cl')) c') ! q')"
      if "ib c' q' \<noteq> [] \<or> rep c' q' \<or> upd rw c (gm_qid g) (Some x) c' q' \<noteq> None \<or> dn c' q' \<noteq> None"
    proof (cases "c' = c \<and> q' = ?i")
      case False
      with that g(1) have "ib c' q' \<noteq> [] \<or> rep c' q' \<or> rw c' q' \<noteq> None \<or> dn c' q' \<noteq> None"
        by (auto split: if_splits)
      then show ?thesis by (rule client_partD(6) [OF part])
    qed (use lk in simp)
  qed
  with free g show ?thesis by simp
qed

lemma serve_get_inv:
  assumes "client_part cls H ib rep rw dn" "rw c q = Some x"
  shows "client_part cls H ib rep (upd rw c q None) (upd dn c q (Some imm))"
  using assms(1)
proof (rule client_part_flags)
  fix c' q'
  show "ib c' q' \<noteq> [] \<Longrightarrow> \<not> rep c' q' \<and> length (ib c' q') = 1" by (rule client_partD(4) [OF assms(1)])
  show "upd dn c q (Some imm) c' q' \<noteq> None \<Longrightarrow> upd rw c q None c' q' = None"
    using client_partD(5) [OF assms(1), of c' q'] by (auto split: if_splits)
  show "ib c' q' \<noteq> [] \<or> rep c' q' \<Longrightarrow> wqueue q'" by (rule client_partD(8) [OF assms(1)])
  show "upd rw c q None c' q' \<noteq> None \<or> upd dn c q (Some imm) c' q' \<noteq> None \<Longrightarrow> \<not> wqueue q'"
    using client_partD(9) [OF assms(1), of c' q'] assms(2) by (auto split: if_splits)
  assume "ib c' q' \<noteq> [] \<or> rep c' q' \<or> upd rw c q None c' q' \<noteq> None \<or> upd dn c q (Some imm) c' q' \<noteq> None"
  then have "ib c' q' \<noteq> [] \<or> rep c' q' \<or> rw c' q' \<noteq> None \<or> dn c' q' \<noteq> None"
    using assms(2) by (auto split: if_splits)
  then show "global_lock (queues (cls c') ! q')" by (rule client_partD(6) [OF assms(1)])
qed

lemma get_done_inv:
  assumes "client_part cls H ib rep rw dn" "dn c (read_queue cpu) \<noteq> None"
    "rdpma_get_end env (cls c) cpu = Some (cl', ret)"
  shows "client_part (cls(c := cl')) H ib rep rw (upd dn c (read_queue cpu) None)"
proof -
  let ?i = "read_queue cpu"
  let ?q = "queues (cls c) ! ?i"
  note ok = client_partD(1) [OF assms(1), of c]
  have i: "?i < NUM_QUEUES" "\<not> wqueue ?i" using queue_id_bounds(1) [of cpu] by (simp_all add: NUM_QUEUES_def)
  have part: "client_part cls H ib rep rw (upd dn c ?i None)"
    using assms(1)
  proof (rule client_part_flags)
    fix c' q'
    show "ib c' q' \<noteq> [] \<Longrightarrow> \<not> rep c' q' \<and> length (ib c' q') = 1" by (rule client_partD(4) [OF assms(1)])
    show "upd dn c ?i None c' q' \<noteq> None \<Longrightarrow> rw c' q' = None"
      using client_partD(5) [OF assms(1), of c' q'] by (auto split: if_splits)
    show "ib c' q' \<noteq> [] \<or> rep c' q' \<Longrightarrow> wqueue q'" by (rule client_partD(8) [OF assms(1)])
    show "rw c' q' \<noteq> None \<or> upd dn c ?i None c' q' \<noteq> None \<Longrightarrow> \<not> wqueue q'"
      using client_partD(9) [OF assms(1), of c' q'] by (auto split: if_splits)
    assume "ib c' q' \<noteq> [] \<or> rep c' q' \<or> rw c' q' \<noteq> None \<or> upd dn c ?i None c' q' \<noteq> None"
    then have "ib c' q' \<noteq> [] \<or> rep c' q' \<or> rw c' q' \<noteq> None \<or> dn c' q' \<noteq> None" by (auto split: if_splits)
    then show "global_lock (queues (cls c') ! q')" by (rule client_partD(6) [OF assms(1)])
  qed
  have free: "ib c ?i = []" "\<not> rep c ?i" "rw c ?i = None"
    using client_partD(8) [OF assms(1), of c ?i] i(2) client_partD(5) [OF assms(1,2)] by metis+
  have nr: "nr_buffered ?q < BATCH_SIZE" by (rule client_partD(7) [OF assms(1) i(2)])
  then have q: "rq_ok (spin_unlock ?q)" using queue_nth_ok [OF ok i(1)] by (simp add: rq_ok_def spin_unlock_def)
  have "cl' = (cls c)\<lparr>bf := bf (cls c), queues := (queues (cls c))[?i := spin_unlock ?q]\<rparr>"
    using rdpma_get_end_SomeD [OF ok assms(3)] by simp
  moreover have "client_part (cls(c := (cls c)\<lparr>bf := bf (cls c), queues := (queues (cls c))[?i := spin_unlock ?q]\<rparr>))
      H ib rep rw (upd dn c ?i None)"
    by (rule client_part_update [OF part subset_refl i(1) q])
      (use client_partD(2) [OF assms(1) i(1)] free nr in \<open>simp_all add: spin_unlock_def buffered_def\<close>)
  ultimately show ?thesis by simp
qed

lemma msg_id_bound: "cpu < NUM_ENTRY * (NUM_QUEUES div 2) \<Longrightarrow> rdpma_get_msg_id NUM_QUEUES cpu < NUM_ENTRY"
  by (simp add: rdpma_get_msg_id_def NUM_ENTRY_def NUM_QUEUES_def less_mult_imp_div_less)

text \<open>The batch a thread takes: its keys were copied while the queue is locked.\<close>

lemma srv_partD:
  assumes "srv_part pairs st H ib wk rw"
  shows "posted_typed st" "(k, v) \<in> pairs (kv_hash (sv_kv st)) \<Longrightarrow> v \<noteq> NONE \<Longrightarrow> good st H k (unat v)"
    "(imm, a) \<in> set (ib c q) \<Longrightarrow> imm = wimm q \<and> wqueue q \<and> q < NUM_QUEUES"
    "(imm, a) \<in> set (ib c q) \<Longrightarrow> (k, x) \<in> set (write_batch st a c q) \<Longrightarrow> good st H k x"
    "wk c q = Some w \<Longrightarrow> wqueue q" "wk c q = Some w \<Longrightarrow> (k, x) \<in> set w \<Longrightarrow> good st H k x"
    "rw c q = Some (k, imm) \<Longrightarrow> \<not> wqueue q"
    "rw c q = Some (k, imm) \<Longrightarrow> \<exists>mid<NUM_ENTRY. imm = rimm q mid \<and> sv_mem st (meta_entry st c q mid) = k"
  using assms unfolding srv_part_def by meson+

text \<open>The invariant for other lists of messages and work, with the same server.\<close>

lemma srv_part_lists:
  assumes "srv_part pairs st H ib wk rw"
    "\<And>c q e. e \<in> set (ib' c q) \<Longrightarrow> e \<in> set (ib c q)"
    "\<And>c q w. wk' c q = Some w \<Longrightarrow> wqueue q \<and> (\<forall>k x. (k, x) \<in> set w \<longrightarrow> good st H k x)"
    "\<And>c q x. rw' c q = Some x \<Longrightarrow> rw c q = Some x"
  shows "srv_part pairs st H ib' wk' rw'"
proof -
  note D = srv_partD [OF assms(1)]
  have "imm = wimm q \<and> wqueue q \<and> q < NUM_QUEUES \<and> (\<forall>k x. (k, x) \<in> set (write_batch st a c q) \<longrightarrow> good st H k x)"
    if "(imm, a) \<in> set (ib' c q)" for c q imm a
    using D(3,4) [OF assms(2) [OF that]] by metis
  moreover have "\<not> wqueue q \<and> (\<exists>mid<NUM_ENTRY. imm = rimm q mid \<and> sv_mem st (meta_entry st c q mid) = k)"
    if "rw' c q = Some (k, imm)" for c q k imm
    using D(7,8) [OF assms(4) [OF that]] by metis
  ultimately show ?thesis unfolding srv_part_def using D(1,2) assms(3) by metis
qed

lemma take_batch_inv:
  assumes "cache_inv pairs s" "inbox s c q = (imm, a) # rest" "bit_unmask (ntohl imm) = (num, mid, typ, tx, qid)"
  shows "cache_inv pairs (s\<lparr>srv := (srv s)\<lparr>sv_putcnt := n\<rparr>,
      inbox := upd (inbox s) c q rest, replied := upd (replied s) c q True,
      work := upd (work s) c q (Some (write_batch (srv s) a c (unat qid)))\<rparr>)"
proof -
  have cp: "client_part (clients s) (hist s) (inbox s) (replied s) (rwait s) (rdone s)"
    and sp: "srv_part pairs (srv s) (hist s) (inbox s) (work s) (rwait s)"
    using assms(1) by (simp_all add: cache_inv_def)
  have e: "imm = wimm q" "wqueue q" "q < NUM_QUEUES"
    "\<And>k x. (k, x) \<in> set (write_batch (srv s) a c q) \<Longrightarrow> good (srv s) (hist s) k x"
    using srv_partD(3,4) [OF sp, of imm a c q] assms(2) by simp_all
  have qid: "unat qid = q" using assms(3) unmask_wimm [OF e(3)] e(1) small_words(1) [OF e(3)] by simp
  have sp': "srv_part pairs (srv s) (hist s) (upd (inbox s) c q rest) (upd (work s) c q (Some (write_batch (srv s) a c q))) (rwait s)"
    by (rule srv_part_lists [OF sp]) (use assms(2) e(2,4) srv_partD(5,6) [OF sp] in \<open>auto split: if_splits\<close>)
  have rest: "rest = []" using client_partD(4) [OF cp, of c q] assms(2) by simp
  have lk: "global_lock (queues (clients s c) ! q)" using client_partD(6) [OF cp, of c q] assms(2) by simp
  from cp have "client_part (clients s) (hist s) (upd (inbox s) c q rest) (upd (replied s) c q True) (rwait s) (rdone s)"
  proof (rule client_part_flags)
    fix c' q'
    show "upd (inbox s) c q rest c' q' \<noteq> [] \<Longrightarrow>
        \<not> upd (replied s) c q True c' q' \<and> length (upd (inbox s) c q rest c' q') = 1"
      using client_partD(4) [OF cp, of c' q'] rest by (auto split: if_splits)
    show "rdone s c' q' \<noteq> None \<Longrightarrow> rwait s c' q' = None" by (rule client_partD(5) [OF cp])
    show "upd (inbox s) c q rest c' q' \<noteq> [] \<or> upd (replied s) c q True c' q' \<Longrightarrow> wqueue q'"
      using client_partD(8) [OF cp, of c' q'] rest e(2) by (auto split: if_splits)
    show "rwait s c' q' \<noteq> None \<or> rdone s c' q' \<noteq> None \<Longrightarrow> \<not> wqueue q'" by (rule client_partD(9) [OF cp])
    show "global_lock (queues (clients s c') ! q')"
      if "upd (inbox s) c q rest c' q' \<noteq> [] \<or> upd (replied s) c q True c' q' \<or> rwait s c' q' \<noteq> None \<or> rdone s c' q' \<noteq> None"
    proof (cases "c' = c \<and> q' = q")
      case False
      with that have "inbox s c' q' \<noteq> [] \<or> replied s c' q' \<or> rwait s c' q' \<noteq> None \<or> rdone s c' q' \<noteq> None"
        by (auto split: if_splits)
      then show ?thesis by (rule client_partD(6) [OF cp])
    qed (use lk in simp)
  qed
  moreover have "srv_part pairs ((srv s)\<lparr>sv_putcnt := n\<rparr>) (hist s) (upd (inbox s) c q rest)
      (upd (work s) c q (Some (write_batch (srv s) a c q))) (rwait s)"
    by (rule srv_part_keeps [OF sp' keeps_same subset_refl])
      (use srv_partD(1) [OF sp] in \<open>simp_all add: posted_typed_cong [of "(srv s)\<lparr>sv_putcnt := n\<rparr>" "srv s"] write_batch_def local_mm_def\<close>)
  ultimately show ?thesis using assms(1) qid by (simp add: cache_inv_def)
qed

text \<open>What a served get changes, and what it delivers.\<close>

lemma serve_get_facts:
  assumes "handle_wc TWOSIDED ins get base polled st
      \<lparr>wc_ok = True, wc_op = WC_RECV_RDMA_WITH_IMM, wc_imm = rimm q mid, wc_wr_id = 0\<rparr> c q = Some (st', Some r)"
    "q < NUM_QUEUES" "mid < NUM_ENTRY"
  shows "sv_mem st' = sv_mem st" "page_offset st' = page_offset st" "global_mr st' = global_mr st"
    "posted st' = posted (post_recv st c q)" "local_mm st' = local_mm st" "kv_hash (sv_kv st') = kv_hash (sv_kv st)"
    "r_data r = Some (ra, p) \<Longrightarrow>
       \<exists>v. get (kv_hash (sv_kv st)) (sv_mem st (meta_entry st c q mid)) = Some v \<and> v \<noteq> NONE \<and> p = page_at (sv_mem st) (unat v)"
proof -
  let ?st = "(post_recv st c q)\<lparr>sv_getcnt := sv_getcnt (post_recv st c q) + 1\<rparr>"
  have u: "unat (of_nat q :: u32) = q" "unat (of_nat mid :: u32) = mid" using small_words assms(2,3) by blast+
  have "process_read_odp get ?st c q mid = Some (st', r)"
    using assms(1) by (auto simp: handle_wc_def unmask_rimm [OF assms(2,3)] Let_def u)
  then show "sv_mem st' = sv_mem st" "page_offset st' = page_offset st" "global_mr st' = global_mr st"
    "posted st' = posted (post_recv st c q)" "local_mm st' = local_mm st" "kv_hash (sv_kv st') = kv_hash (sv_kv st)"
    "r_data r = Some (ra, p) \<Longrightarrow>
       \<exists>v. get (kv_hash (sv_kv st)) (sv_mem st (meta_entry st c q mid)) = Some v \<and> v \<noteq> NONE \<and> p = page_at (sv_mem st) (unat v)"
    by (auto simp: process_read_odp_def sv_lookup_def KV_Get_def reply_to_def post_recv_def local_mm_def Let_def fun_eq_iff
        split: bind_splits if_splits)
qed

context honest_table
begin

lemma insert_one_inv:
  assumes "cache_inv pairs s" "in_bounds (srv s)" "work s c q = Some ((k, a) # w)" "sv_insert ins (srv s) k a = Some st"
  shows "cache_inv pairs (s\<lparr>srv := st, work := upd (work s) c q (Some w)\<rparr>)"
proof -
  have sp: "srv_part pairs (srv s) (hist s) (inbox s) (work s) (rwait s)"
    using assms(1) by (simp add: cache_inv_def)
  note D = srv_partD [OF sp]
  have st: "st = (srv s)\<lparr>sv_kv := sv_kv st\<rparr>" by (rule sv_insert_fields(1) [OF assms(4)])
  have f: "sv_mem st = sv_mem (srv s)" "posted st = posted (srv s)" "page_offset st = page_offset (srv s)"
    "global_mr st = global_mr (srv s)" "local_mm st = local_mm (srv s)"
    by (subst st, simp add: local_mm_def fun_eq_iff)+
  have kp: "keeps (srv s) st" by (rule keeps_same) (simp_all add: f)
  have g: "good (srv s) (hist s) k a" by (rule D(6) [OF assms(3)]) simp
  then have "good st (hist s) k a" by (rule good_keeps [OF _ kp subset_refl])
  moreover have "unat (of_nat a :: u64) = a"
    using settled_below(1) [of "srv s" a] g assms(2) unat_of_nat_small [of a, where 'a = 64]
    by (auto simp: good_def in_bounds_def mr_size_def)
  moreover obtain d where "ins (kv_hash (sv_kv (srv s))) k (of_nat a) = Some (kv_hash (sv_kv st), d)"
    using sv_insert_fields(2) [OF assms(4)] by blast
  from ins_pairs [OF this] have "pairs (kv_hash (sv_kv st)) \<subseteq> insert (k, of_nat a) (pairs (kv_hash (sv_kv (srv s))))" .
  ultimately have tab: "(k', v) \<in> pairs (kv_hash (sv_kv st)) \<Longrightarrow>
      (k', v) \<in> pairs (kv_hash (sv_kv (srv s))) \<or> good st (hist s) k' (unat v)" for k' v by auto
  have "srv_part pairs st (hist s) (inbox s) (work s) (rwait s)"
    by (rule srv_part_keeps [OF sp kp subset_refl])
      (use tab posted_typed_cong [OF f(2-4)] D(1) f in \<open>auto simp: write_batch_def\<close>)
  then have "srv_part pairs st (hist s) (inbox s) (upd (work s) c q (Some w)) (rwait s)"
    by (rule srv_part_lists) (use srv_partD(5,6) [OF \<open>srv_part pairs st (hist s) (inbox s) (work s) (rwait s)\<close>] assms(3)
      in \<open>auto split: if_splits\<close>)
  with assms(1) show ?thesis by (simp add: cache_inv_def)
qed

lemma finish_batch_inv:
  assumes "cache_inv pairs s" "in_bounds (srv s)" "work s c q = Some []"
  shows "cache_inv pairs (s\<lparr>srv := post_page_buffer (srv s) c q, work := upd (work s) c q None\<rparr>)"
proof -
  let ?st = "post_page_buffer (srv s) c q"
  have sp: "srv_part pairs (srv s) (hist s) (inbox s) (work s) (rwait s)"
    using assms(1) by (simp add: cache_inv_def)
  note D = srv_partD [OF sp]
  have f: "sv_mem ?st = sv_mem (srv s)" "local_mm ?st = local_mm (srv s)" "sv_kv ?st = sv_kv (srv s)"
    by (simp_all add: post_page_buffer_def post_recv_with_addr_def local_mm_def fun_eq_iff)
  have ty: "posted_typed ?st"
    by (rule post_page_buffer_typed [OF D(1) D(5) [OF assms(3)] in_bounds_offset [OF assms(2)]])
  have "srv_part pairs ?st (hist s) (inbox s) (work s) (rwait s)"
    by (rule srv_part_keeps [OF sp keeps_post_page_buffer [OF assms(2)] subset_refl ty])
      (simp_all add: f write_batch_def)
  then have "srv_part pairs ?st (hist s) (inbox s) (upd (work s) c q None) (rwait s)"
    by (rule srv_part_lists) (use srv_partD(5,6) [OF \<open>srv_part pairs ?st (hist s) (inbox s) (work s) (rwait s)\<close>]
      in \<open>auto split: if_splits\<close>)
  with assms(1) show ?thesis by (simp add: cache_inv_def)
qed

lemma serve_get_step_inv:
  assumes "cache_inv pairs s" "rwait s c q = Some (key, imm)"
    "handle_wc TWOSIDED ins get base polled (srv s)
      \<lparr>wc_ok = True, wc_op = WC_RECV_RDMA_WITH_IMM, wc_imm = imm, wc_wr_id = 0\<rparr> c q = Some (st, Some r)"
  shows "cache_inv pairs (s\<lparr>srv := st, rwait := upd (rwait s) c q None, rdone := upd (rdone s) c q (Some (r_imm r)),
      got := (case r_data r of None \<Rightarrow> got s | Some (_, p) \<Rightarrow> insert (key, p) (got s))\<rparr>)"
proof -
  have cp: "client_part (clients s) (hist s) (inbox s) (replied s) (rwait s) (rdone s)"
    and sp: "srv_part pairs (srv s) (hist s) (inbox s) (work s) (rwait s)" and gh: "got s \<subseteq> hist s"
    using assms(1) by (simp_all add: cache_inv_def)
  note D = srv_partD [OF sp]
  from D(8) [OF assms(2)] obtain mid where mid: "mid < NUM_ENTRY" "imm = rimm q mid"
    "sv_mem (srv s) (meta_entry (srv s) c q mid) = key" by blast
  have q: "\<not> wqueue q" "q < NUM_QUEUES" using D(7) [OF assms(2)] by (simp_all add: NUM_QUEUES_def)
  note f = serve_get_facts [OF assms(3) [unfolded mid(2)] q(2) mid(1)]
  have kp: "keeps (srv s) st"
    by (rule keeps_trans [OF keeps_post_recv [OF q(1), of _ c] keeps_same]) (simp_all add: f post_recv_def)
  have ty: "posted_typed st"
    using posted_typed_cong [of st "post_recv (srv s) c q"] post_recv_typed [OF D(1) q(1), of c] f
    by (simp add: post_recv_def)
  have "srv_part pairs st (hist s) (inbox s) (work s) (rwait s)"
    by (rule srv_part_keeps [OF sp kp subset_refl ty]) (simp_all add: f write_batch_def)
  then have "srv_part pairs st (hist s) (inbox s) (work s) (upd (rwait s) c q None)"
    by (rule srv_part_lists) (use srv_partD(5,6) [OF \<open>srv_part pairs st (hist s) (inbox s) (work s) (rwait s)\<close>]
      in \<open>auto split: if_splits\<close>)
  moreover have "(key, p) \<in> hist s" if "r_data r = Some (ra, p)" for ra p
  proof -
    from f(7) [OF that] mid(3) obtain v where v: "get (kv_hash (sv_kv (srv s))) key = Some v" "v \<noteq> NONE"
      "p = page_at (sv_mem (srv s)) (unat v)" by blast
    from D(2) [OF get_pairs [OF v(1,2)] v(2)] v(3) show ?thesis by (simp add: good_def)
  qed
  ultimately show ?thesis
    using serve_get_inv [OF cp assms(2)] gh by (auto simp: cache_inv_def split: option.split)
qed

lemma step_inv:
  assumes "step ins get s t" "cache_inv pairs s" "in_bounds (srv s)"
  shows "cache_inv pairs t"
proof -
  have cp: "client_part (clients s) (hist s) (inbox s) (replied s) (rwait s) (rdone s)"
    and sp: "srv_part pairs (srv s) (hist s) (inbox s) (work s) (rwait s)" and gh: "got s \<subseteq> hist s"
    using assms(2) by (simp_all add: cache_inv_def)
  from assms(1) show ?thesis
  proof (cases rule: step.cases)
    case (put_buffered c page env cpu key cl' ret)
    have "srv_part pairs (srv s) (insert (key, page) (hist s)) (inbox s) (work s) (rwait s)"
      by (rule srv_part_keeps [OF sp keeps_refl]) (use srv_partD(1) [OF sp] in auto)
    with put_buffered put_buffered_inv [OF cp put_buffered(3,4)] gh show ?thesis by (auto simp: cache_inv_def)
  next
    case put_posted
    with put_posted_inv [OF assms(2,3)] show ?thesis by blast
  next
    case take_batch
    with take_batch_inv [OF assms(2)] show ?thesis by blast
  next
    case insert_one
    with insert_one_inv [OF assms(2,3)] show ?thesis by blast
  next
    case finish_batch
    with finish_batch_inv [OF assms(2,3)] show ?thesis by blast
  next
    case (put_done c cpu env cl' ret)
    with put_done_inv [OF cp put_done(2,3)] sp gh show ?thesis by (simp add: cache_inv_def)
  next
    case (get_sent c cpu env raddr key cl' m a rest)
    note g = get_sent_inv [OF cp get_sent(4), of "(key, gm_imm m)"]
    have "srv_part pairs (deliver_get (srv s) c m rest) (hist s) (inbox s) (work s) (upd (rwait s) c (gm_qid m) (Some (key, gm_imm m)))"
      by (rule srv_part_get_sent [OF sp assms(3) get_sent(5) _ msg_id_bound [OF get_sent(3)]])
        (use g queue_id_bounds(1) [of cpu] in auto)
    with g [THEN conjunct1] get_sent(1) gh show ?thesis by (simp add: cache_inv_def)
  next
    case serve_get
    with serve_get_step_inv [OF assms(2)] show ?thesis by blast
  next
    case (get_done c cpu imm env cl' ret)
    with get_done_inv [OF cp _ get_done(4)] sp gh show ?thesis by (simp add: cache_inv_def)
  next
    case (filter_sent c flt)
    have "client_part ((clients s)(c := (clients s c)\<lparr>bf := flt\<rparr>)) (hist s) (inbox s) (replied s) (rwait s) (rdone s)"
      using cp by (simp add: client_part_def client_ok_def)
    with filter_sent sp gh show ?thesis by (simp add: cache_inv_def)
  qed
qed

end

section \<open>Runs from the start\<close>

lemma prepost_typed:
  "posted_typed st \<Longrightarrow> unat (page_offset st) + BATCH_SIZE * n < 2 ^ 64 \<Longrightarrow>
     posted_typed (prepost st c i n) \<and> unat (page_offset (prepost st c i n)) \<le> unat (page_offset st) + BATCH_SIZE * n"
proof (induction n arbitrary: st)
  case (Suc n)
  let ?st = "if i < NUM_QUEUES div 2 then post_recv st c i else post_page_buffer st c i"
  have off: "unat (page_offset (post_page_buffer st c i)) = unat (page_offset st) + BATCH_SIZE"
    using unat_add_small [of "page_offset st" BATCH_SIZE] Suc.prems(2)
    by (simp add: post_page_buffer_def post_recv_with_addr_def)
  have "posted_typed ?st" "unat (page_offset ?st) \<le> unat (page_offset st) + BATCH_SIZE"
    using post_recv_typed [OF Suc.prems(1), of i c] post_page_buffer_typed [OF Suc.prems(1), of i c] Suc.prems(2) off
    by (simp_all add: post_recv_def)
  moreover from this(2) Suc.prems(2) have "unat (page_offset ?st) + BATCH_SIZE * n < 2 ^ 64" by simp
  ultimately show ?case using Suc.IH [of ?st] by simp
qed simp

lemma boot_typed:
  assumes "posted_typed st" "unat (page_offset st) \<le> 2 ^ 32"
  shows "posted_typed (boot st)"
proof -
  have "posted_typed (fold (\<lambda>(c, i) st. prepost st c i 100) cis st)"
    if "posted_typed st" "unat (page_offset st) + 400 * length cis < 2 ^ 64" for cis and st :: "'a server"
    using that
  proof (induction cis arbitrary: st)
    case (Cons ci cis)
    obtain c i where ci: "ci = (c, i)" by force
    have "posted_typed (prepost st c i 100)" "unat (page_offset (prepost st c i 100)) \<le> unat (page_offset st) + 400"
      using prepost_typed [OF Cons.prems(1), of 100 c i] Cons.prems(2) by (simp_all add: BATCH_SIZE_def)
    with Cons.IH [of "prepost st c i 100"] Cons.prems(2) ci show ?case by simp
  qed simp
  from this [of st "List.product [0..<NUM_CLIENT] [0..<NUM_QUEUES]"] assms show ?thesis
    by (simp add: boot_def NUM_CLIENT_def NUM_QUEUES_def)
qed

lemma prepost_kv: "sv_kv (prepost st c i n) = sv_kv st"
  by (induction n arbitrary: st) (simp_all add: post_recv_def post_page_buffer_def post_recv_with_addr_def)

lemma boot_kv: "sv_kv (boot st) = sv_kv st"
proof -
  have "sv_kv (fold (\<lambda>(c, i) st. prepost st c i 100) cis st) = sv_kv st" for cis and st :: "'a server"
    by (induction cis arbitrary: st) (auto simp: prepost_kv)
  then show ?thesis by (simp add: boot_def)
qed

lemma init_inv:
  assumes "pairs (kv_hash kv) = {}"
  shows "cache_inv pairs (init_system (new_server kv m base len) flt p)"
proof -
  have "posted_typed (new_server kv m base len)" by (simp add: posted_typed_def new_server_def)
  then have ty: "posted_typed (boot (new_server kv m base len))"
    by (rule boot_typed) (simp add: new_server_def)
  have kv: "sv_kv (boot (new_server kv m base len)) = kv" by (simp add: boot_kv new_server_def)
  have "nr_buffered (queues (new_client flt p) ! q) < BATCH_SIZE" if "\<not> wqueue q" for q
    using that by (simp add: new_client_def new_queue_def NUM_QUEUES_def BATCH_SIZE_def)
  moreover have "buffered (queues (new_client flt p) ! q) = []" if "q < NUM_QUEUES" for q
    using that by (simp add: new_client_def new_queue_def buffered_def)
  ultimately show ?thesis
    using ty assms new_client_ok [of flt p]
    by (simp add: cache_inv_def init_system_def srv_part_def client_part_def kv)
qed

text \<open>A run of the system in which the page region is not exhausted.\<close>

abbreviation runs ::
  "('s \<Rightarrow> Key_t \<Rightarrow> Value_t \<Rightarrow> ('s \<times> Key_t) option) \<Rightarrow> ('s \<Rightarrow> Key_t \<Rightarrow> Value_t option) \<Rightarrow>
     's system \<Rightarrow> 's system \<Rightarrow> bool" where
  "runs ins get \<equiv> (\<lambda>s t. step ins get s t \<and> in_bounds (srv t))\<^sup>*\<^sup>*"

context honest_table
begin

lemma runs_inv:
  assumes "runs ins get s t" "cache_inv pairs s" "in_bounds (srv s)"
  shows "cache_inv pairs t"
proof -
  have "cache_inv pairs t \<and> in_bounds (srv t)"
    using assms(1) by (induction rule: rtranclp_induct) (use assms(2,3) step_inv in blast)+
  then show ?thesis by blast
qed

lemma got_was_put:
  assumes "pairs (kv_hash kv) = {}" "in_bounds (boot (new_server kv m base len))"
    "runs ins get (init_system (new_server kv m base len) flt p) s"
  shows "got s \<subseteq> hist s"
  using runs_inv [OF assms(3) init_inv [of pairs, OF assms(1)]] assms(2)
  by (simp add: init_system_def cache_inv_def)

end

text \<open>With the linear-probing table, a page that a get delivers for a key was put under that key.\<close>

lemma remote_page_integrity_linear:
  assumes "in_bounds (boot (new_server (new_KV (LinearProbingHash capacity) cbf) m base len))"
    and "runs (lp_Insert std) (lp_Get std) (init_system (new_server (new_KV (LinearProbingHash capacity) cbf) m base len) flt p) s"
    and "(key, page) \<in> got s"
  shows "(key, page) \<in> hist s"
proof -
  have "pair_set (lp_dict (kv_hash (new_KV (LinearProbingHash capacity) cbf))) = {}"
    by (auto simp: pair_set_def LinearProbingHash_def new_KV_def fresh_pair_def)
  from lpv.got_was_put [OF this assms(1,2)] assms(3) show ?thesis by blast
qed

end
