(* ===== verification/Page_Roundtrip.thy ===== *)
theory Page_Roundtrip
  imports Page_Cache
begin

text \<open>
  Put and get from end to end, without interleaving: the client's operation, the message, the
  handler of the server and the reply, one after the other, on a connection that works. What is
  put comes back, with the table of the default build; and what the operations promise beyond
  that is not kept: pages that wait in a batch and pages that were invalidated.
\<close>

section \<open>The operations from end to end\<close>

definition put_ok :: put_env where
  "put_ok = \<lparr>pe_kzalloc = True, pe_req0 = Req_ok, pe_req1 = Req_ok, pe_send = Wc_ok 0, pe_recv = Wc_ok 0,
     pe_post_recv = True\<rparr>"

definition get_ok :: "u32 \<Rightarrow> get_env" where
  "get_ok imm = \<lparr>ge_req0 = Req_ok, ge_kzalloc = True, ge_req1 = Req_ok, ge_send = Wc_ok 0, ge_recv = Wc_ok imm,
     ge_post_recv = True\<rparr>"

definition cache_put ::
  "('s \<Rightarrow> Key_t \<Rightarrow> Value_t \<Rightarrow> ('s \<times> Key_t) option) \<Rightarrow> ('s \<Rightarrow> Key_t \<Rightarrow> Value_t option) \<Rightarrow>
     's server \<Rightarrow> client \<Rightarrow> nat \<Rightarrow> nat \<Rightarrow> page \<Rightarrow> u64 \<Rightarrow> ('s server \<times> client \<times> int) option" where
  "cache_put ins get st cln c cpu page key = do {
     (cl1, r) \<leftarrow> rdpma_put_begin put_ok cln cpu page key 1;
     case r of Inl ret \<Rightarrow> Some (st, cl1, ret)
     | Inr m \<Rightarrow>
         (case posted st c (pm_qid m) of [] \<Rightarrow> None
          | a # rest \<Rightarrow> do {
              (st', rep) \<leftarrow> handle_wc TWOSIDED ins get 0 True (deliver_put st c m a rest)
                \<lparr>wc_ok = True, wc_op = WC_RECV, wc_imm = pm_imm m, wc_wr_id = a\<rparr> c (pm_qid m);
              r \<leftarrow> rep;
              (cl2, ret) \<leftarrow> rdpma_put_end put_ok cl1 cpu;
              Some (st', cl2, ret) }) }"

text \<open>The last component is the page the server wrote into the client's memory.\<close>

definition cache_get ::
  "('s \<Rightarrow> Key_t \<Rightarrow> Value_t \<Rightarrow> ('s \<times> Key_t) option) \<Rightarrow> ('s \<Rightarrow> Key_t \<Rightarrow> Value_t option) \<Rightarrow>
     's server \<Rightarrow> client \<Rightarrow> nat \<Rightarrow> nat \<Rightarrow> u64 \<Rightarrow> u64 \<Rightarrow> ('s server \<times> client \<times> int \<times> page option) option" where
  "cache_get ins get st cln c cpu raddr key = do {
     (cl1, r) \<leftarrow> rdpma_get_begin (get_ok 0) cln cpu raddr key 1;
     case r of Inl ret \<Rightarrow> Some (st, cl1, ret, None)
     | Inr g \<Rightarrow>
         (case posted st c (gm_qid g) of [] \<Rightarrow> None
          | a # rest \<Rightarrow> do {
              (st', rep) \<leftarrow> handle_wc TWOSIDED ins get 0 True (deliver_get st c g rest)
                \<lparr>wc_ok = True, wc_op = WC_RECV_RDMA_WITH_IMM, wc_imm = gm_imm g, wc_wr_id = a\<rparr> c (gm_qid g);
              r \<leftarrow> rep;
              (cl2, ret) \<leftarrow> rdpma_get_end (get_ok (r_imm r)) cl1 cpu;
              Some (st', cl2, ret, map_option snd (r_data r)) }) }"

section \<open>The table\<close>

lemma batch_loop_append:
  "batch_loop ins st (xs @ ys) = do { st' \<leftarrow> batch_loop ins st xs; batch_loop ins st' ys }"
proof (induction xs arbitrary: st)
  case (Cons x xs)
  then show ?case by (cases x) (simp split: bind_splits)
qed simp

text \<open>A table of the default build with the server's filter switched off (its default).\<close>

definition table_ok :: "(bytes \<Rightarrow> u64 \<Rightarrow> u64) \<Rightarrow> cceh server \<Rightarrow> bool" where
  "table_ok std st \<longleftrightarrow> cceh_ok std (kv_hash (sv_kv st)) \<and> kv_bf (sv_kv st) = None"

abbreviation keys_in :: "cceh server \<Rightarrow> Key_t multiset" where
  "keys_in st \<equiv> cceh_keys (kv_hash (sv_kv st))"

lemma sv_insert_cceh:
  assumes "table_ok std st" "k \<noteq> INVALID" "same_hash std (kv_hash (sv_kv st)) k < window"
  shows "\<exists>st'. sv_insert (cceh_Insert std 64) st k a = Some st' \<and> table_ok std st' \<and>
    keys_in st' \<subseteq># add_mset k (keys_in st) \<and> (k \<notin># keys_in st \<longrightarrow> cceh_Get std (kv_hash (sv_kv st')) k = Some (of_nat a))"
proof -
  obtain t d where t: "cceh_Insert std 64 (kv_hash (sv_kv st)) k (of_nat a) = Some (t, d)"
    using ct.ins_total [of std] assms unfolding table_ok_def by blast
  with cceh_Insert_step [OF assms(2) _ t] assms(1) show ?thesis
    by (auto simp: table_ok_def sv_insert_def KV_Insert_def bf_exchange_def)
qed

lemma batch_loop_cceh:
  assumes "table_ok std st" "INVALID \<notin> fst ` set kvs"
    "\<forall>k\<in>fst ` set kvs. size (filter_mset (\<lambda>k'. h std k' = h std k) (keys_in st + mset (map fst kvs))) \<le> window"
  shows "\<exists>st'. batch_loop (cceh_Insert std 64) st kvs = Some st' \<and> table_ok std st' \<and>
    keys_in st' \<subseteq># keys_in st + mset (map fst kvs)"
  using assms
proof (induction kvs arbitrary: st)
  case (Cons kv kvs)
  obtain k a where kv: "kv = (k, a)" by force
  have k: "k \<noteq> INVALID" using Cons.prems(2) kv by auto
  have "Suc (same_hash std (kv_hash (sv_kv st)) k) \<le>
      size (filter_mset (\<lambda>k'. h std k' = h std k) (keys_in st + mset (map fst (kv # kvs))))"
    by (simp add: same_hash_def kv)
  also have "\<dots> \<le> window" using Cons.prems(3) kv by auto
  finally have "same_hash std (kv_hash (sv_kv st)) k < window" by simp
  from sv_insert_cceh [OF Cons.prems(1) k this] obtain st1 where
    st1: "sv_insert (cceh_Insert std 64) st k a = Some st1" "table_ok std st1" "keys_in st1 \<subseteq># add_mset k (keys_in st)"
    by blast
  have sub: "keys_in st1 + mset (map fst kvs) \<subseteq># keys_in st + mset (map fst (kv # kvs))"
    using subset_mset.add_right_mono [OF st1(3), of "mset (map fst kvs)"] kv by (simp add: ac_simps)
  have "\<forall>k\<in>fst ` set kvs. size (filter_mset (\<lambda>k'. h std k' = h std k) (keys_in st1 + mset (map fst kvs))) \<le> window"
  proof
    fix k' assume "k' \<in> fst ` set kvs"
    then have "size (filter_mset (\<lambda>x. h std x = h std k') (keys_in st + mset (map fst (kv # kvs)))) \<le> window"
      using Cons.prems(3) by auto
    with size_mset_mono [OF multiset_filter_mono [OF sub, of "\<lambda>x. h std x = h std k'"]]
    show "size (filter_mset (\<lambda>x. h std x = h std k') (keys_in st1 + mset (map fst kvs))) \<le> window" by linarith
  qed
  with Cons.IH [OF st1(2)] Cons.prems(2) obtain st' where
    "batch_loop (cceh_Insert std 64) st1 kvs = Some st'" "table_ok std st'" "keys_in st' \<subseteq># keys_in st1 + mset (map fst kvs)"
    by auto
  with st1 sub kv show ?case by (auto intro: subset_mset.order_trans)
qed simp

section \<open>A get that finds its page\<close>

lemma of_nat_settled:
  assumes "settled st x" "in_bounds st"
  shows "unat (of_nat x :: u64) = x" "(of_nat x :: u64) \<noteq> NONE"
proof -
  show u: "unat (of_nat x :: u64) = x"
    using settled_below(1) [OF assms] assms(2) unat_of_nat_small [of x, where 'a = 64]
    by (auto simp: in_bounds_def mr_size_def)
  then show "(of_nat x :: u64) \<noteq> NONE" using settled_below(2) [OF assms] by (metis NONE_def unat_0 less_irrefl)
qed

lemma get_begin_free:
  assumes "client_ok cln" "\<not> global_lock (queues cln ! read_queue cpu)"
    "bloom_filter_check (bf cln) (bytes_of_u64 key) = Some True"
  shows "\<exists>cl1 g. rdpma_get_begin (get_ok imm) cln cpu raddr key 1 = Some (cl1, Inr g)"
  using assms queue_id_bounds(1) [of cpu]
  by (auto simp: rdpma_get_begin_def get_queue_ok [OF assms(1)] spin_lock_def set_queue_ok client_ok_def get_ok_def
      get_req_for_page_def get_req_for_buf_def Let_def NUM_QUEUES_def)

lemma reply_tx: "q < NUM_QUEUES \<Longrightarrow> mid < NUM_ENTRY \<Longrightarrow> get_tx (get_ok (r_imm (reply_to q mid tx d))) = Some (tx_code tx)"
  using bit_unmask_mask [of 0 "of_nat mid" "msg_code MSG_READ_REPLY" "tx_code tx" "of_nat q"] small_words
  by (simp add: get_tx_def get_ok_def reply_to_def)

lemma cache_get_hit:
  assumes "client_ok cln" "\<not> global_lock (queues cln ! read_queue cpu)"
    "bloom_filter_check (bf cln) (bytes_of_u64 key) = Some True" "cpu < NUM_ENTRY * (NUM_QUEUES div 2)"
    and "posted_typed st" "in_bounds st" "posted st c (read_queue cpu) = b # rest"
    and "get (kv_hash (sv_kv st)) key = Some (of_nat x)" "settled st x" "page_at (sv_mem st) x = page"
  shows "\<exists>st' cl'. cache_get ins get st cln c cpu raddr key = Some (st', cl', 0, Some page)"
proof -
  let ?q = "read_queue cpu" and ?mid = "rdpma_get_msg_id NUM_QUEUES cpu"
  obtain cl1 g where b: "rdpma_get_begin (get_ok 0) cln cpu raddr key 1 = Some (cl1, Inr g)"
    using get_begin_free [OF assms(1-3)] by blast
  from assms(1) b have g: "gm_qid g = ?q" "gm_mid g = ?mid" "gm_imm g = rimm ?q ?mid" "gm_meta g = [key, 1, raddr]"
    and ok1: "client_ok cl1"
    using queue_nth_ok [OF assms(1), of ?q] queue_id_bounds(1) [of cpu] client_ok_set(2) [OF assms(1)]
    by (cases rule: rdpma_get_begin_SomeD; simp add: rimm_def rq_ok_def)+
  have q: "?q < NUM_QUEUES" "?mid < NUM_ENTRY" "\<not> wqueue ?q"
    using queue_id_bounds(1) [of cpu] msg_id_bound [OF assms(4)] by (simp_all add: NUM_QUEUES_def)
  let ?st = "deliver_get st c g rest"
  note dk = deliver_get_keeps [OF assms(5,6), of c g b rest]
  have page: "page_at (sv_mem ?st) x = page" using dk(1) g(1) assms(7,9,10) by (simp add: keeps_def)
  have key: "sv_mem ?st (meta_entry st c ?q ?mid) = key"
    using deliver_get_entry(1) [of g 0 st c rest] g q by (simp add: BATCH_SIZE_def)
  have kv: "sv_kv ?st = sv_kv st" by (simp add: deliver_get_def)
  note u = of_nat_settled [OF assms(9,6)] and s = small_words(1) [OF q(1)] small_words(2) [OF q(2)]
  obtain st' ra where h: "handle_wc TWOSIDED ins get 0 True ?st
      \<lparr>wc_ok = True, wc_op = WC_RECV_RDMA_WITH_IMM, wc_imm = gm_imm g, wc_wr_id = b\<rparr> c ?q =
      Some (st', Some (reply_to ?q ?mid TX_READ_COMMITTED (Some (ra, page))))"
    using u key page assms(8) s
    by (simp add: handle_wc_def g(3) unmask_rimm [OF q(1,2)] Let_def process_read_odp_def sv_lookup_def KV_Get_def kv
        post_recv_def local_mm_def deliver_get_def)
  have "\<exists>cl2. rdpma_get_end (get_ok (r_imm (reply_to ?q ?mid TX_READ_COMMITTED d))) cl1 cpu = Some (cl2, 0)" for d
    using get_queue_ok(1) [OF ok1, of cpu] ok1 q(1)
    by (simp add: rdpma_get_end_def reply_tx [OF q(1,2)] set_queue_ok client_ok_def Let_def)
      (simp add: get_ok_def)
  then obtain cl2 where "rdpma_get_end (get_ok (r_imm (reply_to ?q ?mid TX_READ_COMMITTED (Some (ra, page))))) cl1 cpu = Some (cl2, 0)"
    by blast
  with b h g(1) assms(7) show ?thesis
    by (simp add: cache_get_def reply_to_def)
qed

section \<open>The put that completes a batch\<close>

lemma deliver_put_write_batch:
  assumes "posted_typed st" "in_bounds st" "wqueue (pm_qid m)" "posted st c (pm_qid m) = a # rest"
    "length (concat (pm_pages m)) = BATCH_SIZE * PAGE_WORDS" "length (pm_keys m) = BATCH_SIZE" "pm_qid m < NUM_QUEUES" "pm_mid m = 0"
  shows "write_batch (deliver_put st c m a rest) a c (pm_qid m) = zip (pm_keys m) (map (\<lambda>i. a + PAGE_SIZE * i) [0..<BATCH_SIZE])"
proof (rule nth_equalityI)
  show "length (write_batch (deliver_put st c m a rest) a c (pm_qid m)) =
      length (zip (pm_keys m) (map (\<lambda>i. a + PAGE_SIZE * i) [0..<BATCH_SIZE]))"
    using assms(6) by (simp add: write_batch_map)
  fix i assume "i < length (write_batch (deliver_put st c m a rest) a c (pm_qid m))"
  then have i: "i < BATCH_SIZE" by (simp add: write_batch_map)
  then show "write_batch (deliver_put st c m a rest) a c (pm_qid m) ! i =
      zip (pm_keys m) (map (\<lambda>i. a + PAGE_SIZE * i) [0..<BATCH_SIZE]) ! i"
    using deliver_put_entry(1) [OF assms(1-7) _ i] assms(6,8) by (simp add: write_batch_map NUM_ENTRY_def)
qed

text \<open>The free state of a client's queue in which the next put sends the batch.\<close>

definition batch_ready :: "client \<Rightarrow> nat \<Rightarrow> (u64 \<times> page) list \<Rightarrow> bool" where
  "batch_ready cln cpu waiting \<longleftrightarrow> client_ok cln \<and> wf_bloom (bf cln) \<and>
     \<not> global_lock (queues cln ! write_queue cpu) \<and> nr_buffered (queues cln ! write_queue cpu) = BATCH_SIZE - 1 \<and>
     buffered (queues cln ! write_queue cpu) = waiting \<and> (\<forall>(k, p)\<in>set waiting. length p = PAGE_WORDS)"

text \<open>The table has room for the keys of a batch: no hash value occurs more often than a window.\<close>

definition has_room :: "(bytes \<Rightarrow> u64 \<Rightarrow> u64) \<Rightarrow> cceh server \<Rightarrow> u64 list \<Rightarrow> bool" where
  "has_room std st ks \<longleftrightarrow> table_ok std st \<and> INVALID \<notin> set ks \<and>
     (\<forall>k\<in>set ks. size (filter_mset (\<lambda>k'. h std k' = h std k) (keys_in st + mset ks)) \<le> window)"

lemma insert_batch:
  assumes "has_room std st (ks @ [key])" "key \<notin># keys_in st" "key \<notin> set ks" "length xs = length ks"
  shows "\<exists>st'. batch_loop (cceh_Insert std 64) st (zip ks xs @ [(key, x)]) = Some st' \<and> table_ok std st' \<and>
    cceh_Get std (kv_hash (sv_kv st')) key = Some (of_nat x)"
proof -
  let ?kvs = "zip ks xs"
  have m: "map fst ?kvs = ks" using assms(4) by simp
  have s: "fst ` set ?kvs = set ks" using m by (metis list.set_map)
  have sub: "keys_in st + mset ks \<subseteq># keys_in st + mset (ks @ [key])" by simp
  have "\<forall>k\<in>fst ` set ?kvs. size (filter_mset (\<lambda>k'. h std k' = h std k) (keys_in st + mset (map fst ?kvs))) \<le> window"
  proof
    fix k assume "k \<in> fst ` set ?kvs"
    then have "size (filter_mset (\<lambda>k'. h std k' = h std k) (keys_in st + mset (ks @ [key]))) \<le> window"
      using assms(1) s by (auto simp: has_room_def)
    with size_mset_mono [OF multiset_filter_mono [OF sub, of "\<lambda>k'. h std k' = h std k"]]
    show "size (filter_mset (\<lambda>k'. h std k' = h std k) (keys_in st + mset (map fst ?kvs))) \<le> window" unfolding m by linarith
  qed
  with batch_loop_cceh [of std st ?kvs] assms(1) s m obtain st1 where
    st1: "batch_loop (cceh_Insert std 64) st ?kvs = Some st1" "table_ok std st1" "keys_in st1 \<subseteq># keys_in st + mset ks"
    by (auto simp: has_room_def)
  have key: "key \<noteq> INVALID" "key \<notin># keys_in st1"
    using assms mset_subset_eqD [OF st1(3), of key] by (auto simp: has_room_def)
  have "Suc (same_hash std (kv_hash (sv_kv st1)) key) \<le>
      size (filter_mset (\<lambda>k'. h std k' = h std key) (add_mset key (keys_in st1)))" by (simp add: same_hash_def)
  also have "\<dots> \<le> size (filter_mset (\<lambda>k'. h std k' = h std key) (keys_in st + mset (ks @ [key])))"
    using st1(3) by (intro size_mset_mono multiset_filter_mono) simp
  also have "\<dots> \<le> window" using assms(1) by (auto simp: has_room_def)
  finally have "same_hash std (kv_hash (sv_kv st1)) key < window" by simp
  from sv_insert_cceh [OF st1(2) key(1) this, of x] key(2) st1 show ?thesis
    by (auto simp: batch_loop_append)
qed

text \<open>The message of a full batch.\<close>

definition batch_message :: "put_msg \<Rightarrow> nat \<Rightarrow> (u64 \<times> page) list \<Rightarrow> bool" where
  "batch_message m i kps \<longleftrightarrow> pm_qid m = i \<and> pm_mid m = 0 \<and> pm_imm m = wimm i \<and>
     length (pm_pages m) = BATCH_SIZE \<and> length (pm_keys m) = BATCH_SIZE \<and> zip (pm_keys m) (pm_pages m) = kps \<and>
     (\<forall>p\<in>set (pm_pages m). length p = PAGE_WORDS)"

lemma batch_messageD:
  assumes "batch_message m i kps"
  shows "pm_keys m = map fst kps" "length kps = BATCH_SIZE" "length (concat (pm_pages m)) = BATCH_SIZE * PAGE_WORDS"
  using assms length_concat_uniform [of "pm_pages m" PAGE_WORDS] by (auto simp: batch_message_def)

lemma put_begin_batch:
  assumes "batch_ready cln cpu waiting" "length page = PAGE_WORDS"
  shows "\<exists>flt m. rdpma_put_begin put_ok cln cpu page key 1 = Some (cln\<lparr>bf := flt, queues := (queues cln)[write_queue cpu :=
       push (queues cln ! write_queue cpu) page key]\<rparr>, Inr m) \<and>
    bloom_filter_check flt (bytes_of_u64 key) = Some True \<and> batch_message m (write_queue cpu) (waiting @ [(key, page)])"
proof -
  let ?i = "write_queue cpu"
  let ?q = "queues cln ! ?i"
  have ok: "client_ok cln" and wf: "wf_bloom (bf cln)" and lk: "\<not> global_lock ?q" and n: "nr_buffered ?q = BATCH_SIZE - 1"
    and w: "buffered ?q = waiting" "\<forall>(k, p)\<in>set waiting. length p = PAGE_WORDS"
    using assms(1) by (auto simp: batch_ready_def)
  note q = queue_nth_ok [OF ok queue_id_bounds(3)]
  obtain flt where flt: "bloom_filter_add (bf cln) (bytes_of_u64 key) = Some flt" "bloom_filter_check flt (bytes_of_u64 key) = Some True"
    using bloom_filter_add_check [OF wf] by blast
  define m where "m = put_message (push ?q page key) ?i 1"
  obtain c' r where r: "rdpma_put_begin put_ok cln cpu page key 1 = Some (c', r)"
    using rdpma_put_begin_total [OF ok wf _ _ lk, of put_ok page key 1] by (auto simp: put_ok_def)
  from ok r have b: "rdpma_put_begin put_ok cln cpu page key 1 =
      Some (cln\<lparr>bf := flt, queues := (queues cln)[?i := push ?q page key]\<rparr>, Inr m)"
    by (cases rule: rdpma_put_begin_SomeD) (use r n flt(1) in \<open>simp_all add: m_def put_ok_def\<close>)
  note mf = put_message_facts [OF q n m_def]
  have "length p = PAGE_WORDS" if p: "p \<in> set (pm_pages m)" for p
  proof -
    obtain k where "(k, p) \<in> set (zip (pm_keys m) (pm_pages m))" using p mf(4,5) by (metis in_set_impl_in_set_zip2)
    with mf(6) w assms(2) show ?thesis by auto
  qed
  with mf w(1) have "batch_message m ?i (waiting @ [(key, page)])" by (simp add: batch_message_def)
  with b flt(2) show ?thesis by blast
qed

lemma serve_batch:
  assumes "batch_message m i (waiting @ [(key, page)])" "wqueue i" "i < NUM_QUEUES" "posted_typed st" "in_bounds st"
    and "posted st c i = a # rest" "has_room std st (map fst waiting @ [key])" "key \<notin># keys_in st" "key \<notin> fst ` set waiting"
  shows "\<exists>st2 x. handle_wc TWOSIDED (cceh_Insert std 64) (cceh_Get std) 0 True (deliver_put st c m a rest)
      \<lparr>wc_ok = True, wc_op = WC_RECV, wc_imm = pm_imm m, wc_wr_id = a\<rparr> c i =
      Some (post_page_buffer st2 c i, Some (reply_to i 0 TX_WRITE_COMMITTED None)) \<and>
    (\<exists>kv n. st2 = (deliver_put st c m a rest)\<lparr>sv_kv := kv, sv_putcnt := n\<rparr>) \<and> table_ok std st2 \<and>
    cceh_Get std (kv_hash (sv_kv st2)) key = Some (of_nat x) \<and> settled (deliver_put st c m a rest) x \<and>
    page_at (sv_mem (deliver_put st c m a rest)) x = page"
proof -
  let ?d = "deliver_put st c m a rest"
  let ?d1 = "?d\<lparr>sv_putcnt := sv_putcnt ?d + of_nat BATCH_SIZE\<rparr>"
  note bm = assms(1) [unfolded batch_message_def] and bd = batch_messageD [OF assms(1)]
  have p: "posted st c (pm_qid m) = a # rest" and wq: "wqueue (pm_qid m)" "pm_qid m < NUM_QUEUES"
    using assms(2,3,6) bm by simp_all
  define xs where "xs = map (\<lambda>i. a + PAGE_SIZE * i) [0..<3]"
  define x where "x = a + PAGE_SIZE * 3"
  have w3: "length waiting = 3" using bd(2) by (simp add: BATCH_SIZE_def)
  have mem: "write_batch ?d1 a c i = write_batch ?d a c i"
    by (simp add: write_batch_def local_mm_def del: local_mm_deliver)
  also have "\<dots> = zip (map fst waiting @ [key]) (xs @ [x])"
    using deliver_put_write_batch [OF assms(4,5) wq(1) p bd(3) _ wq(2)] bm bd(1)
    by (simp add: xs_def x_def BATCH_SIZE_def PAGE_SIZE_def upt_rec)
  also have "\<dots> = zip (map fst waiting) xs @ [(key, x)]" using w3 by (simp add: xs_def)
  finally have wb: "write_batch ?d1 a c i = zip (map fst waiting) xs @ [(key, x)]" .
  have "has_room std ?d1 (map fst waiting @ [key])" "key \<notin># keys_in ?d1"
    using assms(7,8) by (simp_all add: has_room_def table_ok_def deliver_put_def)
  then obtain st2 where st2: "batch_loop (cceh_Insert std 64) ?d1 (write_batch ?d1 a c i) = Some st2" "table_ok std st2"
    "cceh_Get std (kv_hash (sv_kv st2)) key = Some (of_nat x)"
    using insert_batch [of std ?d1 "map fst waiting" key xs x] assms(9) w3 wb by (auto simp: xs_def)
  have "st2 = ?d\<lparr>sv_kv := sv_kv st2, sv_putcnt := sv_putcnt ?d + of_nat BATCH_SIZE\<rparr>"
    by (subst batch_loop_fields [OF st2(1)]) simp
  moreover have "a \<noteq> 0" using posted_page_buffer [OF assms(4) wq(1), of a c] p page_buffer_below(2) [OF _ assms(5)] by auto
  then have "handle_wc TWOSIDED (cceh_Insert std 64) (cceh_Get std) 0 True ?d
      \<lparr>wc_ok = True, wc_op = WC_RECV, wc_imm = pm_imm m, wc_wr_id = a\<rparr> c i =
      Some (post_page_buffer st2 c i, Some (reply_to i 0 TX_WRITE_COMMITTED None))"
    using st2(1) small_words(1) [OF assms(3)] bm
    by (simp add: handle_wc_def unmask_wimm [OF assms(3)] process_write_twosided_def)
  moreover have "(key, x) \<in> set (write_batch ?d a c (pm_qid m))" using wb mem bm by simp
  with deliver_put_batch [OF assms(4,5) wq(1) p, of "set (waiting @ [(key, page)])"] bm wq(2)
  have g: "settled ?d x" "(key, page_at (sv_mem ?d) x) \<in> set (waiting @ [(key, page)])"
    by (auto simp: good_def)
  moreover have "page_at (sv_mem ?d) x = page" using g(2) assms(9) by (auto simp: image_iff)
  ultimately show ?thesis using st2(2,3) by blast
qed

lemma put_end_batch:
  assumes "client_ok cl1" "queues cl1 ! write_queue cpu = q"
  shows "rdpma_put_end put_ok cl1 cpu = Some (cl1\<lparr>queues := (queues cl1)[write_queue cpu := spin_unlock (q\<lparr>nr_buffered := 0\<rparr>)]\<rparr>, 0)"
  using assms get_queue_ok(2) [OF assms(1), of cpu] queue_id_bounds(3) [of cpu]
  by (simp add: rdpma_put_end_def put_out_def set_queue_ok client_ok_def put_ok_def Let_def)

lemma cache_put_batch:
  assumes "batch_ready cln cpu waiting" "length page = PAGE_WORDS" "posted_typed st" "in_bounds st"
    and "posted st c (write_queue cpu) = a # rest"
    and "has_room std st (map fst waiting @ [key])" "key \<notin># keys_in st" "key \<notin> fst ` set waiting"
  shows "\<exists>st' cl' x. cache_put (cceh_Insert std 64) (cceh_Get std) st cln c cpu page key = Some (st', cl', 0) \<and>
    (\<exists>flt q. cl' = cln\<lparr>bf := flt, queues := (queues cln)[write_queue cpu := q]\<rparr> \<and> rq_ok q \<and>
      bloom_filter_check flt (bytes_of_u64 key) = Some True) \<and>
    posted st' = upd (posted st) c (write_queue cpu) (rest @ [free_page st]) \<and>
    page_offset st' = page_offset st + of_nat BATCH_SIZE \<and> global_mr st' = global_mr st \<and> BUFFER_SIZE st' = BUFFER_SIZE st \<and>
    table_ok std st' \<and> cceh_Get std (kv_hash (sv_kv st')) key = Some (of_nat x) \<and>
    settled st' x \<and> page_at (sv_mem st') x = page \<and> posted_typed st'"
proof -
  let ?i = "write_queue cpu"
  let ?q = "queues cln ! ?i"
  have ok: "client_ok cln" using assms(1) by (simp add: batch_ready_def)
  have i: "wqueue ?i" "?i < NUM_QUEUES" by (rule queue_id_bounds)+
  obtain flt m where b: "rdpma_put_begin put_ok cln cpu page key 1 =
      Some (cln\<lparr>bf := flt, queues := (queues cln)[?i := push ?q page key]\<rparr>, Inr m)"
    and flt: "bloom_filter_check flt (bytes_of_u64 key) = Some True" and bm: "batch_message m ?i (waiting @ [(key, page)])"
    using put_begin_batch [OF assms(1,2)] by blast
  let ?d = "deliver_put st c m a rest"
  obtain st2 x where h: "handle_wc TWOSIDED (cceh_Insert std 64) (cceh_Get std) 0 True ?d
      \<lparr>wc_ok = True, wc_op = WC_RECV, wc_imm = pm_imm m, wc_wr_id = a\<rparr> c ?i =
      Some (post_page_buffer st2 c ?i, Some (reply_to ?i 0 TX_WRITE_COMMITTED None))"
    and f2: "\<exists>kv n. st2 = ?d\<lparr>sv_kv := kv, sv_putcnt := n\<rparr>" and t2: "table_ok std st2"
    and g2: "cceh_Get std (kv_hash (sv_kv st2)) key = Some (of_nat x)" and x: "settled ?d x" "page_at (sv_mem ?d) x = page"
    using serve_batch [OF bm i assms(3-8)] by blast
  let ?st' = "post_page_buffer st2 c ?i"
  have m: "pm_qid m = ?i" using bm by (simp add: batch_message_def)
  have f: "sv_mem st2 = sv_mem ?d" "posted st2 = posted ?d" "page_offset st2 = page_offset ?d" "global_mr st2 = global_mr ?d"
    "BUFFER_SIZE st2 = BUFFER_SIZE ?d" using f2 by auto
  have bnd: "in_bounds st2" using assms(4) f by (simp add: in_bounds_def mr_size_def deliver_put_def)
  have "posted_typed ?d" 
    by (rule deliver_put_keeps(2) [OF assms(3,4) _ _ batch_messageD(3) [OF bm]]) (simp_all add: m i(1) assms(5))
  then have ty: "posted_typed st2" using posted_typed_cong [OF f(2-4)] by simp
  have "keeps ?d st2" by (rule keeps_same) (simp_all add: f)
  from keeps_trans [OF this keeps_post_page_buffer [OF bnd, of c ?i]] x
  have fin: "settled ?st' x" "page_at (sv_mem ?st') x = page" by (simp_all add: keeps_def)
  have ok1: "client_ok (cln\<lparr>bf := flt, queues := (queues cln)[?i := push ?q page key]\<rparr>)" by (rule rdpma_put_begin_ok [OF ok b])
  let ?q' = "spin_unlock ((push ?q page key)\<lparr>nr_buffered := 0\<rparr>)"
  have "rdpma_put_end put_ok (cln\<lparr>bf := flt, queues := (queues cln)[?i := push ?q page key]\<rparr>) cpu =
      Some (cln\<lparr>bf := flt, queues := (queues cln)[?i := ?q']\<rparr>, 0)"
    using put_end_batch [OF ok1, of cpu] ok i(2) by (simp add: client_ok_def)
  then have run: "cache_put (cceh_Insert std 64) (cceh_Get std) st cln c cpu page key =
      Some (?st', cln\<lparr>bf := flt, queues := (queues cln)[?i := ?q']\<rparr>, 0)"
    using b h assms(5) m by (simp add: cache_put_def)
  have "rq_ok ?q'"
    using rq_ok_push(1) [OF queue_nth_ok [OF ok i(2)], of page key] by (simp add: rq_ok_def spin_unlock_def BATCH_SIZE_def)
  moreover have "posted ?st' = upd (posted st) c ?i (rest @ [free_page st])" "page_offset ?st' = page_offset st + of_nat BATCH_SIZE"
    "global_mr ?st' = global_mr st" "BUFFER_SIZE ?st' = BUFFER_SIZE st"
    using f m by (simp_all add: post_page_buffer_def post_recv_with_addr_def deliver_put_def free_page_def)
  moreover have "table_ok std ?st'" "cceh_Get std (kv_hash (sv_kv ?st')) key = Some (of_nat x)"
    using t2 g2 by (simp_all add: table_ok_def post_page_buffer_def post_recv_with_addr_def)
  moreover have "posted_typed ?st'" by (rule post_page_buffer_typed [OF ty i(1) in_bounds_offset [OF bnd]])
  ultimately show ?thesis using run fin flt by blast
qed

section \<open>Sequential operations are runs\<close>

lemma upd_triv: "f c q = x \<Longrightarrow> upd f c q x = f"
  by auto

lemma upd_upd: "upd (upd f c q x) c q y = upd f c q y"
  by simp

lemma batch_loop_runs:
  assumes "work s c q = Some kvs" "batch_loop ins (srv s) kvs = Some st" "in_bounds (srv s)"
  shows "runs ins get s (s\<lparr>srv := st, work := upd (work s) c q (Some [])\<rparr>)"
  using assms
proof (induction kvs arbitrary: s)
  case Nil
  then have "s\<lparr>srv := st, work := upd (work s) c q (Some [])\<rparr> = s" by (simp add: upd_triv)
  then show ?case by (simp only: rtranclp.rtrancl_refl)
next
  case (Cons kv kvs)
  obtain k a where kv: "kv = (k, a)" by force
  with Cons.prems(2) obtain st1 where st1: "sv_insert ins (srv s) k a = Some st1" "batch_loop ins st1 kvs = Some st"
    by (auto split: bind_splits)
  let ?s = "s\<lparr>srv := st1, work := upd (work s) c q (Some kvs)\<rparr>"
  have bnd: "in_bounds st1"
    using Cons.prems(3) by (subst sv_insert_fields(1) [OF st1(1)]) (simp add: in_bounds_def mr_size_def)
  have rest: "runs ins get ?s (?s\<lparr>srv := st, work := upd (work ?s) c q (Some [])\<rparr>)"
    by (rule Cons.IH) (use st1(2) bnd in simp_all)
  have eq: "?s\<lparr>srv := st, work := upd (work ?s) c q (Some [])\<rparr> = s\<lparr>srv := st, work := upd (work s) c q (Some [])\<rparr>"
    by simp
  have "step ins get s ?s \<and> in_bounds (srv ?s)"
    using step.insert_one [of s c q k a kvs ins st1 get] Cons.prems(1) st1(1) kv bnd by simp
  from converse_rtranclp_into_rtranclp [where r = "\<lambda>s t. step ins get s t \<and> in_bounds (srv t)", OF this rest]
  show ?case by (simp only: eq)
qed

lemma runs_step: "runs ins get s t \<Longrightarrow> step ins get t u \<Longrightarrow> in_bounds (srv u) \<Longrightarrow> runs ins get s u"
  by (rule rtranclp.rtrancl_into_rtrancl) simp_all

lemma cache_put_sentD:
  assumes "cache_put ins get st d0 c cpu page key = Some (st', cl', ret)" "client_ok d0"
    "rdpma_put_begin put_ok d0 cpu page key 1 = Some (cl1, Inr m)"
  obtains a rest st2 where
    "pm_qid m = write_queue cpu" "pm_imm m = wimm (write_queue cpu)" "posted st c (write_queue cpu) = a # rest"
    "batch_loop ins ((deliver_put st c m a rest)\<lparr>sv_putcnt := sv_putcnt st + of_nat BATCH_SIZE\<rparr>)
       (write_batch (deliver_put st c m a rest) a c (write_queue cpu)) = Some st2"
    "st' = post_page_buffer st2 c (write_queue cpu)" "rdpma_put_end put_ok cl1 cpu = Some (cl', ret)"
proof -
  let ?i = "write_queue cpu"
  have "pm_qid m = ?i \<and> pm_imm m = wimm ?i"
    using assms(2,3) by (cases rule: rdpma_put_begin_SomeD) (simp_all add: put_message_def wimm_def split: if_splits)
  then have qid: "pm_qid m = ?i" "pm_imm m = wimm ?i" by auto
  have i: "?i < NUM_QUEUES" by (rule queue_id_bounds)
  obtain a rest where p: "posted st c ?i = a # rest"
    using assms(1,3) qid by (cases "posted st c ?i") (simp_all add: cache_put_def)
  let ?d = "deliver_put st c m a rest"
  let ?d1 = "?d\<lparr>sv_putcnt := sv_putcnt ?d + of_nat BATCH_SIZE\<rparr>"
  have "do {
      (st', rep) \<leftarrow> handle_wc TWOSIDED ins get 0 True ?d
        \<lparr>wc_ok = True, wc_op = WC_RECV, wc_imm = pm_imm m, wc_wr_id = a\<rparr> c ?i;
      r \<leftarrow> rep;
      (cl2, ret) \<leftarrow> rdpma_put_end put_ok cl1 cpu;
      Some (st', cl2, ret) } = Some (st', cl', ret)"
    using assms(1,3) qid p by (simp add: cache_put_def)
  then obtain rep where h: "handle_wc TWOSIDED ins get 0 True ?d
      \<lparr>wc_ok = True, wc_op = WC_RECV, wc_imm = pm_imm m, wc_wr_id = a\<rparr> c ?i = Some (st', Some rep)"
    and e: "rdpma_put_end put_ok cl1 cpu = Some (cl', ret)"
    by (auto split: bind_splits)
  have "a \<noteq> 0" using h by (auto simp: handle_wc_def qid unmask_wimm [OF i] split: if_splits)
  then obtain st2 where "batch_loop ins ?d1 (write_batch ?d1 a c ?i) = Some st2" "st' = post_page_buffer st2 c ?i"
    using h small_words(1) [OF i]
    by (auto simp: handle_wc_def qid unmask_wimm [OF i] process_write_twosided_def split: bind_splits)
  moreover have "write_batch ?d1 a c ?i = write_batch ?d a c ?i"
    by (simp add: write_batch_def local_mm_def del: local_mm_deliver)
  moreover have "sv_putcnt ?d = sv_putcnt st" by (simp add: deliver_put_def)
  ultimately show ?thesis using that [OF qid p] e by simp
qed

lemma cache_put_runs:
  assumes "cache_put ins get (srv s) (clients s c) c cpu page key = Some (st', cl', ret)"
    "c < NUM_CLIENT" "length page = PAGE_WORDS" "client_ok (clients s c)" "in_bounds (srv s)" "in_bounds st'"
    "inbox s c (write_queue cpu) = []" "work s c (write_queue cpu) = None" "\<not> replied s c (write_queue cpu)"
  shows "runs ins get s (s\<lparr>srv := st', clients := (clients s)(c := cl'), hist := insert (key, page) (hist s)\<rparr>)"
proof -
  let ?i = "write_queue cpu"
  obtain cl1 r where b: "rdpma_put_begin put_ok (clients s c) cpu page key 1 = Some (cl1, r)"
    using assms(1) by (auto simp: cache_put_def split: bind_splits)
  show ?thesis
  proof (cases r)
    case (Inl x)
    with b assms(1) have "st' = srv s" "cl' = cl1" by (auto simp: cache_put_def)
    moreover have "step ins get s (s\<lparr>clients := (clients s)(c := cl1), hist := insert (key, page) (hist s)\<rparr>)"
      using step.put_buffered [OF assms(2,3)] b Inl by blast
    ultimately show ?thesis using assms(5) by (intro r_into_rtranclp) simp
  next
    case (Inr m)
    obtain a rest st2 where d: "pm_qid m = ?i" "pm_imm m = wimm ?i" "posted (srv s) c ?i = a # rest"
      "batch_loop ins ((deliver_put (srv s) c m a rest)\<lparr>sv_putcnt := sv_putcnt (srv s) + of_nat BATCH_SIZE\<rparr>)
         (write_batch (deliver_put (srv s) c m a rest) a c ?i) = Some st2"
      "st' = post_page_buffer st2 c ?i" "rdpma_put_end put_ok cl1 cpu = Some (cl', ret)"
      using assms(1,4) b [unfolded Inr] by (rule cache_put_sentD)
    have i: "?i < NUM_QUEUES" by (rule queue_id_bounds)
    let ?d = "deliver_put (srv s) c m a rest"
    let ?d1 = "?d\<lparr>sv_putcnt := sv_putcnt (srv s) + of_nat BATCH_SIZE\<rparr>"
    have cnt: "sv_putcnt ?d = sv_putcnt (srv s)" by (simp add: deliver_put_def)
    define s1 where "s1 = s\<lparr>clients := (clients s)(c := cl1), hist := insert (key, page) (hist s), srv := ?d,
      inbox := upd (inbox s) c ?i [(pm_imm m, a)]\<rparr>"
    define s2 where "s2 = s1\<lparr>srv := ?d1, inbox := upd (inbox s1) c ?i [], replied := upd (replied s1) c ?i True,
      work := upd (work s1) c ?i (Some (write_batch ?d a c ?i))\<rparr>"
    define s3 where "s3 = s2\<lparr>srv := st2, work := upd (work s2) c ?i (Some [])\<rparr>"
    define s4 where "s4 = s3\<lparr>srv := st', work := upd (work s3) c ?i None\<rparr>"
    define s5 where "s5 = s4\<lparr>clients := (clients s4)(c := cl'), replied := upd (replied s4) c ?i False\<rparr>"
    have bnd: "in_bounds ?d" "in_bounds ?d1" using assms(5) by (simp_all add: in_bounds_def mr_size_def deliver_put_def)
    have b1: "step ins get s s1"
      using step.put_posted [OF assms(2,3) b [unfolded Inr], of a rest ins get] d assms(7) by (simp add: s1_def)
    have b2: "step ins get s1 s2"
      using step.take_batch [of s1 c ?i "pm_imm m" a "[]" 1 0 "msg_code MSG_WRITE" "tx_code TX_WRITE_BEGIN" "of_nat ?i" ins get]
        unmask_wimm [OF i] small_words(1) [OF i] assms(8) cnt d(1,2) by (simp add: s1_def s2_def)
    have "runs ins get s s2"
      by (rule runs_step [OF runs_step [OF rtranclp.rtrancl_refl b1] b2]) (use bnd in \<open>simp_all add: s1_def s2_def\<close>)
    moreover have "runs ins get s2 s3"
      unfolding s3_def by (rule batch_loop_runs) (use d(4) bnd(2) in \<open>simp_all add: s2_def\<close>)
    ultimately have r3: "runs ins get s s3" by (rule rtranclp_trans)
    have b4: "step ins get s3 s4"
      using step.finish_batch [of s3 c ?i ins get] d(5) by (simp add: s3_def s4_def)
    have b5: "step ins get s4 s5"
      using step.put_done [of s4 c cpu put_ok cl' ret ins get] d(6) by (simp add: s1_def s2_def s3_def s4_def s5_def)
    have "runs ins get s s5"
      by (rule runs_step [OF runs_step [OF r3 b4] b5]) (use assms(6) in \<open>simp_all add: s4_def s5_def\<close>)
    moreover have "s5 = s\<lparr>srv := st', clients := (clients s)(c := cl'), hist := insert (key, page) (hist s)\<rparr>"
      using assms(7-9) by (simp add: s1_def s2_def s3_def s4_def s5_def upd_triv)
    ultimately show ?thesis by (simp only:)
  qed
qed

text \<open>Only the completion of a send names its buffer by the request's id.\<close>

lemma handle_wc_wr_id:
  "handle_wc bld ins get base polled st \<lparr>wc_ok = True, wc_op = WC_RECV_RDMA_WITH_IMM, wc_imm = imm, wc_wr_id = a\<rparr> c q =
   handle_wc bld ins get base polled st \<lparr>wc_ok = True, wc_op = WC_RECV_RDMA_WITH_IMM, wc_imm = imm, wc_wr_id = b\<rparr> c q"
  by (simp add: handle_wc_def)

lemma in_bounds_post_read:
  "in_bounds ((post_recv st c q)\<lparr>sv_getcnt := n, sv_kv := kv, found_cnt := f, notfound_cnt := g\<rparr>) = in_bounds st"
  by (simp add: in_bounds_def mr_size_def post_recv_def)

lemma serve_read_bounds:
  assumes "handle_wc TWOSIDED ins get base polled st \<lparr>wc_ok = True, wc_op = WC_RECV_RDMA_WITH_IMM, wc_imm = imm, wc_wr_id = a\<rparr> c q =
     Some (st', r)"
  shows "in_bounds st' = in_bounds st"
proof -
  obtain num mid ty tx qid where u: "bit_unmask (ntohl imm) = (num, mid, ty, tx, qid)" by (metis prod_cases5)
  show ?thesis
  proof (cases "ty = msg_code MSG_READ")
    case True
    let ?st = "(post_recv st c q)\<lparr>sv_getcnt := sv_getcnt (post_recv st c q) + 1\<rparr>"
    obtain r' where "process_read_odp get ?st c (unat qid) (unat mid) = Some (st', r')"
      using assms True by (auto simp: handle_wc_def u Let_def)
    from process_read_odp_fields [OF this] show ?thesis
      using in_bounds_post_read [where st = st and c = c and q = q and n = "sv_getcnt (post_recv st c q) + 1" and kv = "sv_kv st'"
          and f = "found_cnt st'" and g = "notfound_cnt st'"]
      by simp
  next
    case False
    with assms have "st' = post_recv st c q \<or> st' = (post_recv st c q)\<lparr>sv_putcnt := sv_putcnt (post_recv st c q) + 1\<rparr>"
      by (auto simp: handle_wc_def u Let_def split: if_splits)
    then show ?thesis by (auto simp: in_bounds_def mr_size_def post_recv_def)
  qed
qed

lemma cache_get_runs:
  assumes "cache_get ins get (srv s) (clients s c) c cpu raddr key = Some (st', cl', ret, Some page)"
    "c < NUM_CLIENT" "cpu < NUM_ENTRY * (NUM_QUEUES div 2)" "client_ok (clients s c)" "in_bounds (srv s)"
  shows "\<exists>t. runs ins get s t \<and> srv t = st' \<and> clients t = (clients s)(c := cl') \<and> hist t = hist s \<and>
    got t = insert (key, page) (got s)"
proof -
  let ?i = "read_queue cpu"
  obtain cl1 r where b: "rdpma_get_begin (get_ok 0) (clients s c) cpu raddr key 1 = Some (cl1, r)"
    using assms(1) by (auto simp: cache_get_def split: bind_splits)
  with assms(1) obtain m where r: "r = Inr m" by (cases r) (simp_all add: cache_get_def)
  have qid: "gm_qid m = ?i" using assms(4) b by (cases rule: rdpma_get_begin_SomeD) (use r in simp_all)
  obtain a rest where p: "posted (srv s) c ?i = a # rest"
    using assms(1) b r qid by (cases "posted (srv s) c ?i") (simp_all add: cache_get_def)
  let ?d = "deliver_get (srv s) c m rest"
  have "do {
      (st', rep) \<leftarrow> handle_wc TWOSIDED ins get 0 True ?d
        \<lparr>wc_ok = True, wc_op = WC_RECV_RDMA_WITH_IMM, wc_imm = gm_imm m, wc_wr_id = a\<rparr> c ?i;
      r \<leftarrow> rep;
      (cl2, ret) \<leftarrow> rdpma_get_end (get_ok (r_imm r)) cl1 cpu;
      Some (st', cl2, ret, map_option snd (r_data r)) } = Some (st', cl', ret, Some page)"
    using assms(1) b r qid p by (simp add: cache_get_def)
  then obtain rep ra where h: "handle_wc TWOSIDED ins get 0 True ?d
      \<lparr>wc_ok = True, wc_op = WC_RECV_RDMA_WITH_IMM, wc_imm = gm_imm m, wc_wr_id = 0\<rparr> c ?i = Some (st', Some rep)"
    and e: "rdpma_get_end (get_ok (r_imm rep)) cl1 cpu = Some (cl', ret)" and ra: "r_data rep = Some (ra, page)"
    by (auto simp: handle_wc_wr_id [of _ _ _ _ _ _ _ a _ _ 0] split: bind_splits)
  define s1 where "s1 = s\<lparr>clients := (clients s)(c := cl1), srv := ?d, rwait := upd (rwait s) c ?i (Some (key, gm_imm m))\<rparr>"
  define s2 where "s2 = s1\<lparr>srv := st', rwait := upd (rwait s1) c ?i None, rdone := upd (rdone s1) c ?i (Some (r_imm rep)),
    got := insert (key, page) (got s1)\<rparr>"
  define s3 where "s3 = s2\<lparr>clients := (clients s2)(c := cl'), rdone := upd (rdone s2) c ?i None\<rparr>"
  have b1: "step ins get s s1"
    using step.get_sent [OF assms(2,3) b [unfolded r], of a rest ins get] p qid by (simp add: s1_def)
  have b2: "step ins get s1 s2"
    using step.serve_get [of s1 c ?i key "gm_imm m" ins get 0 True st' rep] h ra by (simp add: s1_def s2_def)
  have b3: "step ins get s2 s3"
    using step.get_done [of s2 c cpu "r_imm rep" "get_ok (r_imm rep)" cl' ret ins get] e
    by (simp add: s1_def s2_def s3_def get_ok_def)
  have bnd: "in_bounds ?d" using assms(5) by (simp add: in_bounds_def mr_size_def deliver_get_def)
  with serve_read_bounds [OF h] have "in_bounds st'" by simp
  with bnd have "runs ins get s s3"
    by (intro runs_step [OF runs_step [OF runs_step [OF rtranclp.rtrancl_refl b1] b2] b3])
      (simp_all add: s1_def s2_def s3_def)
  then show ?thesis by (intro exI [of _ s3]) (simp add: s1_def s2_def s3_def)
qed

section \<open>Pages that wait in the batch buffer\<close>

text \<open>A free write queue of a client with pages that wait.\<close>

definition waiting_on :: "client \<Rightarrow> nat \<Rightarrow> (u64 \<times> page) list \<Rightarrow> bool" where
  "waiting_on cln cpu ws \<longleftrightarrow> client_ok cln \<and> wf_bloom (bf cln) \<and>
     \<not> global_lock (queues cln ! write_queue cpu) \<and> nr_buffered (queues cln ! write_queue cpu) = length ws \<and>
     buffered (queues cln ! write_queue cpu) = ws \<and> (\<forall>(k, p)\<in>set ws. length p = PAGE_WORDS)"

lemma batch_ready_waiting: "waiting_on cln cpu ws \<Longrightarrow> length ws = BATCH_SIZE - 1 \<Longrightarrow> batch_ready cln cpu ws"
  by (simp add: waiting_on_def batch_ready_def)

lemma waiting_on_new: "wf_bloom flt \<Longrightarrow> waiting_on (new_client flt p) cpu []"
  using new_client_ok [of flt p] queue_id_bounds(3) [of cpu]
  by (simp add: waiting_on_def new_client_def new_queue_def buffered_def)

lemma cache_put_wait:
  assumes "waiting_on cln cpu ws" "length ws < BATCH_SIZE - 1" "length page = PAGE_WORDS"
  shows "\<exists>cl'. cache_put ins get st cln c cpu page key = Some (st, cl', 0) \<and> waiting_on cl' cpu (ws @ [(key, page)]) \<and>
    (\<forall>j. j \<noteq> write_queue cpu \<longrightarrow> queues cl' ! j = queues cln ! j) \<and>
    bloom_filter_check (bf cl') (bytes_of_u64 key) = Some True"
proof -
  let ?i = "write_queue cpu"
  let ?q = "queues cln ! ?i"
  have ok: "client_ok cln" and wf: "wf_bloom (bf cln)" and lk: "\<not> global_lock ?q" and n: "nr_buffered ?q = length ws"
    and w: "buffered ?q = ws" "\<forall>(k, p)\<in>set ws. length p = PAGE_WORDS"
    using assms(1) by (auto simp: waiting_on_def)
  obtain flt where flt: "bloom_filter_add (bf cln) (bytes_of_u64 key) = Some flt" "wf_bloom flt"
    "bloom_filter_check flt (bytes_of_u64 key) = Some True"
    using bloom_filter_add_check [OF wf] by blast
  obtain c' r where r: "rdpma_put_begin put_ok cln cpu page key 1 = Some (c', r)"
    using rdpma_put_begin_total [OF ok wf _ _ lk, of put_ok page key 1] by (auto simp: put_ok_def)
  let ?c = "cln\<lparr>bf := flt, queues := (queues cln)[?i := spin_unlock (push ?q page key)]\<rparr>"
  from ok r have b: "rdpma_put_begin put_ok cln cpu page key 1 = Some (?c, Inl 0)"
    by (cases rule: rdpma_put_begin_SomeD) (use r n assms(2) flt(1) in simp_all)
  have len: "length (queues cln) = NUM_QUEUES" using ok by (simp add: client_ok_def)
  have "rq_ok ?q" using queue_nth_ok [OF ok queue_id_bounds(3)] .
  then have "buffered (spin_unlock (push ?q page key)) = ws @ [(key, page)]"
    using w(1) n assms(2) by (simp add: buffered_push)
  then have "waiting_on ?c cpu (ws @ [(key, page)])"
    using rdpma_put_begin_ok [OF ok b] flt(2) n w(2) assms(3) len queue_id_bounds(3) [of cpu]
    by (simp add: waiting_on_def push_def spin_unlock_def)
  with b flt(3) show ?thesis by (auto simp: cache_put_def)
qed

section \<open>The server after start\<close>

lemma prepost_fields:
  "global_mr (prepost st c i n) = global_mr st" "BUFFER_SIZE (prepost st c i n) = BUFFER_SIZE st"
  by (induction n arbitrary: st) (simp_all add: post_recv_def post_page_buffer_def post_recv_with_addr_def)

lemma prepost_keeps: "posted st c' j \<noteq> [] \<Longrightarrow> posted (prepost st c i n) c' j \<noteq> []"
proof (induction n arbitrary: st)
  case (Suc n)
  have "posted (if i < NUM_QUEUES div 2 then post_recv st c i else post_page_buffer st c i) c' j \<noteq> []"
    using Suc.prems by (auto simp: post_recv_def post_page_buffer_def post_recv_with_addr_def)
  from Suc.IH [OF this] show ?case by simp
qed simp

lemma prepost_posted: "posted (prepost st c i (Suc n)) c i \<noteq> []"
  unfolding prepost.simps
  by (rule prepost_keeps) (simp add: post_recv_def post_page_buffer_def post_recv_with_addr_def)

lemma fold_prepost_keeps: "posted st c i \<noteq> [] \<Longrightarrow> posted (fold (\<lambda>(c, i) st. prepost st c i n) cis st) c i \<noteq> []"
proof (induction cis arbitrary: st)
  case (Cons ci cis)
  obtain c' i' where ci: "ci = (c', i')" by force
  show ?case using Cons.IH [OF prepost_keeps [OF Cons.prems, of c' i' n]] ci by simp
qed simp

lemma fold_prepost_posted:
  "(c, i) \<in> set cis \<Longrightarrow> posted (fold (\<lambda>(c, i) st. prepost st c i (Suc n)) cis st) c i \<noteq> []"
proof (induction cis arbitrary: st)
  case (Cons ci cis)
  show ?case
  proof (cases "ci = (c, i)")
    case True
    then show ?thesis using fold_prepost_keeps [OF prepost_posted [of st c i n], of "Suc n" cis] by (simp del: prepost.simps)
  next
    case False
    then show ?thesis using Cons by (auto simp del: prepost.simps)
  qed
qed simp

lemma boot_posted:
  assumes "c < NUM_CLIENT" "i < NUM_QUEUES"
  shows "posted (boot st) c i \<noteq> []"
proof -
  have "(100 :: nat) = Suc 99" by simp
  then show ?thesis
    using fold_prepost_posted [of c i "List.product [0..<NUM_CLIENT] [0..<NUM_QUEUES]" 99 st] assms
    unfolding boot_def by (simp only: set_product set_upt) simp
qed

lemma boot_region: "global_mr (boot st) = global_mr st" "BUFFER_SIZE (boot st) = BUFFER_SIZE st"
proof -
  have "global_mr (fold (\<lambda>(c, i) st. prepost st c i 100) cis st) = global_mr st" for cis and st :: "'a server"
    by (induction cis arbitrary: st) (auto simp: prepost_fields)
  then show "global_mr (boot st) = global_mr st" by (simp add: boot_def)
  have "BUFFER_SIZE (fold (\<lambda>(c, i) st. prepost st c i 100) cis st) = BUFFER_SIZE st" for cis and st :: "'a server"
    by (induction cis arbitrary: st) (auto simp: prepost_fields)
  then show "BUFFER_SIZE (boot st) = BUFFER_SIZE st" by (simp add: boot_def)
qed

lemma boot_offset:
  assumes "posted_typed st" "unat (page_offset st) \<le> 2 ^ 32"
  shows "unat (page_offset (boot st)) \<le> unat (page_offset st) + 12800"
proof -
  have "unat (page_offset (fold (\<lambda>(c, i) st. prepost st c i 100) cis st)) \<le> unat (page_offset st) + 400 * length cis"
    if "posted_typed st" "unat (page_offset st) + 400 * length cis < 2 ^ 64" for cis and st :: "'a server"
    using that
  proof (induction cis arbitrary: st)
    case (Cons ci cis)
    obtain c i where ci: "ci = (c, i)" by force
    have "posted_typed (prepost st c i 100)" "unat (page_offset (prepost st c i 100)) \<le> unat (page_offset st) + 400"
      using prepost_typed [OF Cons.prems(1), of 100 c i] Cons.prems(2) by (simp_all add: BATCH_SIZE_def)
    with Cons.IH [of "prepost st c i 100"] Cons.prems(2) ci show ?case by simp
  qed simp
  from this [of st "List.product [0..<NUM_CLIENT] [0..<NUM_QUEUES]"] assms show ?thesis
    by (simp add: boot_def NUM_CLIENT_def NUM_QUEUES_def)
qed

section \<open>A put and a get after it\<close>

lemma put_get_batch:
  assumes "batch_ready cln cpu waiting" "length page = PAGE_WORDS" "posted_typed st" "in_bounds st"
    and "in_bounds (st\<lparr>page_offset := page_offset st + of_nat BATCH_SIZE\<rparr>)"
    and "posted st c (write_queue cpu) = a # rest" "posted st c (read_queue cpu') = b # rest'"
    and "has_room std st (map fst waiting @ [key])" "key \<notin># keys_in st" "key \<notin> fst ` set waiting"
    and "\<not> global_lock (queues cln ! read_queue cpu')" "cpu' < NUM_ENTRY * (NUM_QUEUES div 2)"
  shows "\<exists>st1 cl1 st2 cl2.
    cache_put (cceh_Insert std 64) (cceh_Get std) st cln c cpu page key = Some (st1, cl1, 0) \<and>
    cache_get (cceh_Insert std 64) (cceh_Get std) st1 cl1 c cpu' raddr key = Some (st2, cl2, 0, Some page) \<and>
    in_bounds st1 \<and> client_ok cl1"
proof -
  obtain st1 cl1 x flt q where put: "cache_put (cceh_Insert std 64) (cceh_Get std) st cln c cpu page key = Some (st1, cl1, 0)"
    and cl1: "cl1 = cln\<lparr>bf := flt, queues := (queues cln)[write_queue cpu := q]\<rparr>" "rq_ok q"
      "bloom_filter_check flt (bytes_of_u64 key) = Some True"
    and st1: "posted st1 = upd (posted st) c (write_queue cpu) (rest @ [free_page st])"
      "page_offset st1 = page_offset st + of_nat BATCH_SIZE" "global_mr st1 = global_mr st" "BUFFER_SIZE st1 = BUFFER_SIZE st"
    and x: "cceh_Get std (kv_hash (sv_kv st1)) key = Some (of_nat x)" "settled st1 x" "page_at (sv_mem st1) x = page"
      "posted_typed st1"
    using cache_put_batch [OF assms(1-4,6,8-10)] by blast
  have ne: "read_queue cpu' \<noteq> write_queue cpu" using queue_id_bounds(1) [of cpu'] queue_id_bounds(2) [of cpu] by simp
  have ok: "client_ok cl1" and lk: "\<not> global_lock (queues cl1 ! read_queue cpu')"
    using assms(1,11) cl1(2) ne client_ok_set(1) by (auto simp: cl1(1) batch_ready_def)
  have flt: "bloom_filter_check (bf cl1) (bytes_of_u64 key) = Some True" using cl1 by simp
  have bnd: "in_bounds st1" using assms(5) st1 by (simp add: in_bounds_def mr_size_def)
  have pst: "posted st1 c (read_queue cpu') = b # rest'" using st1(1) assms(7) ne by simp
  obtain st2 cl2 where
    "cache_get (cceh_Insert std 64) (cceh_Get std) st1 cl1 c cpu' raddr key = Some (st2, cl2, 0, Some page)"
    using cache_get_hit [where get = "cceh_Get std", OF ok lk flt assms(12) x(4) bnd pst x(1-3)] by blast
  with put ok bnd show ?thesis by blast
qed

section \<open>Properties\<close>


text \<open>A server with one buffer on a write queue, and a client with three pages waiting.\<close>

definition demo_server :: "cceh \<Rightarrow> cceh server" where
  "demo_server t = post_recv (post_page_buffer (new_server (new_KV t None) (\<lambda>_. 0) 4096 10485760) 0 4) 0 1"

definition demo_client :: client where
  "demo_client = (new_client demo_filter (replicate PAGE_WORDS 0))\<lparr>queues := (replicate NUM_QUEUES (new_queue (replicate PAGE_WORDS 0)))
     [4 := (new_queue (replicate PAGE_WORDS 0))\<lparr>nr_buffered := 3, q_keys := [1, 2, 3, 0]\<rparr>]\<rparr>"

abbreviation demo_waiting :: "(u64 \<times> page) list" where
  "demo_waiting \<equiv> [(1, replicate PAGE_WORDS 0), (2, replicate PAGE_WORDS 0), (3, replicate PAGE_WORDS 0)]"

lemma demo_client_ready: "batch_ready demo_client 0 demo_waiting"
proof -
  have "rq_ok (new_queue p)" "rq_ok ((new_queue p)\<lparr>nr_buffered := 3, q_keys := [1, 2, 3, 0]\<rparr>)" for p
    by (simp_all add: rq_ok_def new_queue_def BATCH_SIZE_def)
  then have "client_ok demo_client"
    using set_update_subset_insert [of "replicate NUM_QUEUES (new_queue (replicate PAGE_WORDS 0))" 4]
    by (fastforce simp: client_ok_def demo_client_def)
  moreover have "queues demo_client ! write_queue 0 = (new_queue (replicate PAGE_WORDS 0))\<lparr>nr_buffered := 3, q_keys := [1, 2, 3, 0]\<rparr>"
    by (simp add: demo_client_def rdpma_get_queue_id_def NUM_QUEUES_def)
  moreover have "bf demo_client = demo_filter" by (simp add: demo_client_def new_client_def)
  ultimately show ?thesis
    by (simp add: batch_ready_def demo_filter_wf new_queue_def BATCH_SIZE_def buffered_def numeral_3_eq_3)
qed

lemma demo_server_facts:
  "posted_typed (demo_server t)" "in_bounds (demo_server t)"
  "in_bounds ((demo_server t)\<lparr>page_offset := page_offset (demo_server t) + of_nat BATCH_SIZE\<rparr>)"
  "posted (demo_server t) 0 4 = [532480]" "posted (demo_server t) 0 1 = [0]" "sv_kv (demo_server t) = new_KV t None"
proof -
  have "posted_typed (new_server (new_KV t None) (\<lambda>_. 0) 4096 10485760)" by (simp add: posted_typed_def new_server_def)
  then show "posted_typed (demo_server t)"
    unfolding demo_server_def
    by (intro post_recv_typed post_page_buffer_typed) (simp_all add: NUM_QUEUES_def BATCH_SIZE_def new_server_def)
qed (simp_all add: demo_server_def post_recv_def post_page_buffer_def post_recv_with_addr_def new_server_def in_bounds_def
    mr_size_def free_page_def layout)

lemma has_room_empty:
  assumes "table_ok std st" "keys_in st = {#}" "INVALID \<notin> set ks" "length ks \<le> window"
  shows "has_room std st ks"
  unfolding has_room_def assms(2) add_0_left
proof (intro conjI ballI)
  show "size (filter_mset (\<lambda>k'. h std k' = h std k) (mset ks)) \<le> window" for k
    using size_filter_mset_lesseq [of "\<lambda>k'. h std k' = h std k" "mset ks"] assms(4) by (metis le_trans size_mset)
qed (use assms in simp_all)



text \<open>A server that has just started, and the run of four puts of one client and a get of the last.\<close>

definition demo_boot :: "cceh \<Rightarrow> cceh server" where
  "demo_boot t = boot (new_server (new_KV t None) (\<lambda>_. 0) 4096 67108864)"

definition demo_system :: "cceh \<Rightarrow> cceh system" where
  "demo_system t = init_system (new_server (new_KV t None) (\<lambda>_. 0) 4096 67108864) demo_filter (replicate PAGE_WORDS 0)"

lemma demo_boot_facts:
  "posted_typed (demo_boot t)" "in_bounds (demo_boot t)"
  "in_bounds ((demo_boot t)\<lparr>page_offset := page_offset (demo_boot t) + of_nat BATCH_SIZE\<rparr>)"
  "posted (demo_boot t) 0 4 \<noteq> []" "posted (demo_boot t) 0 1 \<noteq> []" "sv_kv (demo_boot t) = new_KV t None"
proof -
  let ?st = "new_server (new_KV t None) (\<lambda>_. 0) 4096 67108864"
  have ty: "posted_typed ?st" by (simp add: posted_typed_def new_server_def)
  then show "posted_typed (demo_boot t)" unfolding demo_boot_def by (rule boot_typed) (simp add: new_server_def)
  have off: "unat (page_offset (demo_boot t)) \<le> 12800"
    using boot_offset [OF ty] by (simp add: demo_boot_def new_server_def)
  then show "in_bounds (demo_boot t)" by (simp add: in_bounds_def demo_boot_def boot_region new_server_def mr_size_def layout)
  have "unat (page_offset (demo_boot t) + of_nat BATCH_SIZE) = unat (page_offset (demo_boot t)) + BATCH_SIZE"
    using off by (intro unat_add_small) (simp add: BATCH_SIZE_def)
  with off show "in_bounds ((demo_boot t)\<lparr>page_offset := page_offset (demo_boot t) + of_nat BATCH_SIZE\<rparr>)"
    by (simp add: in_bounds_def demo_boot_def boot_region new_server_def mr_size_def layout)
  show "posted (demo_boot t) 0 4 \<noteq> []" "posted (demo_boot t) 0 1 \<noteq> []"
    by (simp_all add: demo_boot_def boot_posted NUM_CLIENT_def NUM_QUEUES_def)
  show "sv_kv (demo_boot t) = new_KV t None" by (simp add: demo_boot_def boot_kv new_server_def)
qed

lemma put_wait_runs:
  assumes "waiting_on (clients s c) cpu ws" "length ws < BATCH_SIZE - 1" "length page = PAGE_WORDS" "c < NUM_CLIENT"
    "in_bounds (srv s)" "inbox s c (write_queue cpu) = []" "work s c (write_queue cpu) = None" "\<not> replied s c (write_queue cpu)"
  shows "\<exists>cl'. runs ins get s (s\<lparr>clients := (clients s)(c := cl'), hist := insert (key, page) (hist s)\<rparr>) \<and>
    waiting_on cl' cpu (ws @ [(key, page)]) \<and> (\<forall>j. j \<noteq> write_queue cpu \<longrightarrow> queues cl' ! j = queues (clients s c) ! j)"
proof -
  obtain cl' where p: "cache_put ins get (srv s) (clients s c) c cpu page key = Some (srv s, cl', 0)"
    "waiting_on cl' cpu (ws @ [(key, page)])" "\<forall>j. j \<noteq> write_queue cpu \<longrightarrow> queues cl' ! j = queues (clients s c) ! j"
    using cache_put_wait [OF assms(1-3)] by blast
  have ok: "client_ok (clients s c)" using assms(1) by (simp add: waiting_on_def)
  have "s\<lparr>srv := srv s, clients := (clients s)(c := cl'), hist := insert (key, page) (hist s)\<rparr> =
      s\<lparr>clients := (clients s)(c := cl'), hist := insert (key, page) (hist s)\<rparr>" by simp
  from cache_put_runs [OF p(1) assms(4,3) ok assms(5,5-8), unfolded this] p(2,3) show ?thesis by blast
qed

lemma put_get_runs:
  assumes "waiting_on (clients s c) cpu ws" "length ws = BATCH_SIZE - 1" "length page = PAGE_WORDS" "c < NUM_CLIENT"
    "posted_typed (srv s)" "in_bounds (srv s)"
    "in_bounds ((srv s)\<lparr>page_offset := page_offset (srv s) + of_nat BATCH_SIZE\<rparr>)"
    "inbox s c (write_queue cpu) = []" "work s c (write_queue cpu) = None" "\<not> replied s c (write_queue cpu)"
    and "posted (srv s) c (write_queue cpu) \<noteq> []" "posted (srv s) c (read_queue cpu') \<noteq> []"
    and "has_room std (srv s) (map fst ws @ [key])" "key \<notin># keys_in (srv s)" "key \<notin> fst ` set ws"
    and "\<not> global_lock (queues (clients s c) ! read_queue cpu')" "cpu' < NUM_ENTRY * (NUM_QUEUES div 2)"
  shows "\<exists>t. runs (cceh_Insert std 64) (cceh_Get std) s t \<and> (key, page) \<in> got t"
proof -
  obtain a rest b rest' where p: "posted (srv s) c (write_queue cpu) = a # rest" "posted (srv s) c (read_queue cpu') = b # rest'"
    using assms(11,12) by (meson neq_Nil_conv)
  have ok: "client_ok (clients s c)" using assms(1) by (simp add: waiting_on_def)
  obtain st1 cl1 st2 cl2 where
    put: "cache_put (cceh_Insert std 64) (cceh_Get std) (srv s) (clients s c) c cpu page key = Some (st1, cl1, 0)" and
    get: "cache_get (cceh_Insert std 64) (cceh_Get std) st1 cl1 c cpu' 0 key = Some (st2, cl2, 0, Some page)" and
    st1: "in_bounds st1" "client_ok cl1"
    using put_get_batch [OF batch_ready_waiting [OF assms(1,2)] assms(3,5-7) p assms(13-17)] by blast
  let ?s = "s\<lparr>srv := st1, clients := (clients s)(c := cl1), hist := insert (key, page) (hist s)\<rparr>"
  have r: "runs (cceh_Insert std 64) (cceh_Get std) s ?s"
    by (rule cache_put_runs [OF put assms(4,3) ok assms(6) st1(1) assms(8-10)])
  obtain t where "runs (cceh_Insert std 64) (cceh_Get std) ?s t" "got t = insert (key, page) (got ?s)"
    using cache_get_runs [of "cceh_Insert std 64" "cceh_Get std" ?s c cpu' 0 key st2 cl2 0 page] get assms(4,17) st1 by auto
  then show ?thesis using rtranclp_trans [OF r] by auto
qed

lemma demo_run:
  assumes "cceh_ok (\<lambda>_ _. 0) t" "cceh_keys t = {#}"
  shows "\<exists>s. runs (cceh_Insert (\<lambda>_ _. 0) 64) (cceh_Get (\<lambda>_ _. 0)) (demo_system t) s \<and> (9, replicate PAGE_WORDS 7) \<in> got s"
proof -
  let ?r = "runs (cceh_Insert (\<lambda>_ _. 0) 64) (cceh_Get (\<lambda>_ _. 0))" and ?p = "replicate PAGE_WORDS (0 :: u64)"
  define start where "start cls H = (demo_system t)\<lparr>clients := (\<lambda>_. new_client demo_filter ?p)(0 := cls), hist := H\<rparr>" for cls H
  have q: "write_queue 0 = 4" "read_queue (Suc 0) = 1" by (simp_all add: rdpma_get_queue_id_def NUM_QUEUES_def)
  have st: "srv (start cls H) = demo_boot t" "clients (start cls H) 0 = cls" "inbox (start cls H) = (\<lambda>_ _. [])"
    "work (start cls H) = (\<lambda>_ _. None)" "replied (start cls H) = (\<lambda>_ _. False)" "hist (start cls H) = H" for cls H
    by (simp_all add: start_def demo_system_def init_system_def demo_boot_def)
  have up: "(start cls H)\<lparr>clients := (clients (start cls H))(0 := cls'), hist := H'\<rparr> = start cls' H'" for cls H cls' H'
    by (simp add: start_def fun_upd_def fun_eq_iff)
  have s0: "demo_system t = start (new_client demo_filter ?p) {}"
    by (simp add: start_def demo_system_def init_system_def fun_upd_idem)
  have wait: "\<exists>cls' H'. ?r (start cls H) (start cls' H') \<and> waiting_on cls' 0 (ws @ [(k, ?p)]) \<and> queues cls' ! 1 = queues cls ! 1"
    if "waiting_on cls 0 ws" "length ws < BATCH_SIZE - 1" for cls H ws k
    using put_wait_runs [of "start cls H" 0 0 ws ?p "cceh_Insert (\<lambda>_ _. 0) 64" "cceh_Get (\<lambda>_ _. 0)" k] that demo_boot_facts(2) [of t]
    by (auto simp: st up q NUM_CLIENT_def)
  obtain c1 H1 where 1: "?r (demo_system t) (start c1 H1)" "waiting_on c1 0 [(1, ?p)]" "queues c1 ! 1 = new_queue ?p"
    using wait [OF waiting_on_new [OF demo_filter_wf, of ?p], of "{}" 1] s0 by (auto simp: BATCH_SIZE_def new_client_def NUM_QUEUES_def)
  obtain c2 H2 where 2: "?r (demo_system t) (start c2 H2)" "waiting_on c2 0 [(1, ?p), (2, ?p)]" "queues c2 ! 1 = new_queue ?p"
    using wait [OF 1(2), of H1 2] 1(1,3) by (auto simp: BATCH_SIZE_def intro: rtranclp_trans)
  obtain c3 H3 where 3: "?r (demo_system t) (start c3 H3)" "waiting_on c3 0 demo_waiting" "queues c3 ! 1 = new_queue ?p"
    using wait [OF 2(2), of H2 3] 2(1,3) by (auto simp: BATCH_SIZE_def intro: rtranclp_trans)
  have "\<exists>s. ?r (start c3 H3) s \<and> (9, replicate PAGE_WORDS 7) \<in> got s"
  proof (rule put_get_runs [of _ 0 0 demo_waiting _ 1])
    show "has_room (\<lambda>_ _. 0) (srv (start c3 H3)) (map fst demo_waiting @ [9])"
      by (rule has_room_empty)
        (use assms in \<open>simp_all add: st table_ok_def demo_boot_facts(6) new_KV_def INVALID_def window_eq\<close>)
    show "length demo_waiting = BATCH_SIZE - 1" by (simp add: BATCH_SIZE_def)
    show "\<not> global_lock (queues (clients (start c3 H3) 0) ! read_queue 1)" using 3(3) by (simp add: st q new_queue_def)
  qed (use 3(2) assms(2) in \<open>simp_all add: st rdpma_get_queue_id_def demo_boot_facts demo_boot_facts(5) [unfolded One_nat_def] new_KV_def NUM_CLIENT_def NUM_QUEUES_def NUM_ENTRY_def\<close>)
  then show ?thesis using rtranclp_trans [OF 3(1)] by blast
qed


text \<open>
  C18: a page that was put over an older version of it stays invisible while it waits in the batch
  buffer. With a version of the page on the server, a put of a new one that does not complete a
  batch returns 0 without a message to the server. A get after it, and also after a flush of the
  page, returns 0 and delivers the old version.
\<close>

theorem buffered_put_stale:
  assumes "waiting_on (cl j) cpu ws" "length ws < BATCH_SIZE - 1" "length page = PAGE_WORDS" "posted_typed st" "in_bounds st"
    and "posted st c (read_queue cpu') = b # rest"
    and "get (kv_hash (sv_kv st)) key = Some (of_nat x)" "settled st x" "page_at (sv_mem st) x = old"
    and "\<not> global_lock (queues (cl j) ! read_queue cpu')" "cpu' < NUM_ENTRY * (NUM_QUEUES div 2)"
  shows "\<exists>cl1 st2 cl2.
    cache_put ins get st (cl j) c cpu page key = Some (st, cl1, 0) \<and>
    cache_get ins get st (cl (julee_flush_page (j\<lparr>cl := cl1\<rparr>) oid index)) c cpu' raddr key = Some (st2, cl2, 0, Some old)"
proof -
  obtain cl1 where p: "cache_put ins get st (cl j) c cpu page key = Some (st, cl1, 0)"
    "waiting_on cl1 cpu (ws @ [(key, page)])" "\<forall>i. i \<noteq> write_queue cpu \<longrightarrow> queues cl1 ! i = queues (cl j) ! i"
    "bloom_filter_check (bf cl1) (bytes_of_u64 key) = Some True"
    using cache_put_wait [OF assms(1-3)] by blast
  have "read_queue cpu' \<noteq> write_queue cpu" using queue_id_bounds(1) [of cpu'] queue_id_bounds(2) [of cpu] by simp
  then have lk: "\<not> global_lock (queues cl1 ! read_queue cpu')" using p(3) assms(10) by simp
  have ok: "client_ok cl1" using p(2) by (simp add: waiting_on_def)
  from cache_get_hit [where get = get, OF ok lk p(4) assms(11,4-9)] p(1) show ?thesis
    by (fastforce simp: julee_flush_page_def)
qed

lemma buffered_put_stale_witness:
  "\<exists>t st cl0 cl1 st2 cl2. CCEH 2048 = Some t \<and>
    cache_put (cceh_Insert (\<lambda>_ _. 0) 64) (cceh_Get (\<lambda>_ _. 0)) (demo_server t) demo_client 0 0 (replicate PAGE_WORDS 7) 9 =
      Some (st, cl0, 0) \<and>
    cache_put (cceh_Insert (\<lambda>_ _. 0) 64) (cceh_Get (\<lambda>_ _. 0)) st (new_client demo_filter []) 0 0 (replicate PAGE_WORDS 8) 9 =
      Some (st, cl1, 0) \<and>
    cache_get (cceh_Insert (\<lambda>_ _. 0) 64) (cceh_Get (\<lambda>_ _. 0)) st
      (cl (julee_flush_page \<lparr>onesided = False, put_cnt = 0, get_cnt = 0, pool_id = 0, cl = cl1\<rparr> 9 0)) 0 1 4096 9 =
      Some (st2, cl2, 0, Some (replicate PAGE_WORDS 7))"
proof -
  obtain t where t: "CCEH 2048 = Some t" "cceh_ok (\<lambda>_ _. 0) t" "cceh_keys t = {#}"
    using CCEH_2048 [of "\<lambda>_ _. 0"] by blast
  have room: "has_room (\<lambda>_ _. 0) (demo_server t) (map fst demo_waiting @ [9])"
    by (rule has_room_empty)
      (use t(2,3) in \<open>simp_all add: table_ok_def demo_server_facts(6) new_KV_def INVALID_def window_eq\<close>)
  have q: "write_queue 0 = 4" "read_queue (Suc 0) = 1" by (simp_all add: rdpma_get_queue_id_def NUM_QUEUES_def)
  obtain st cl0 x where
    st: "cache_put (cceh_Insert (\<lambda>_ _. 0) 64) (cceh_Get (\<lambda>_ _. 0)) (demo_server t) demo_client 0 0 (replicate PAGE_WORDS 7) 9 =
        Some (st, cl0, 0)"
      "posted st = upd (posted (demo_server t)) 0 (write_queue 0) ([] @ [free_page (demo_server t)])"
      "page_offset st = page_offset (demo_server t) + of_nat BATCH_SIZE" "global_mr st = global_mr (demo_server t)"
      "BUFFER_SIZE st = BUFFER_SIZE (demo_server t)" and
    x: "cceh_Get (\<lambda>_ _. 0) (kv_hash (sv_kv st)) 9 = Some (of_nat x)" "settled st x"
      "page_at (sv_mem st) x = replicate PAGE_WORDS 7" "posted_typed st"
    using cache_put_batch [OF demo_client_ready, of "replicate PAGE_WORDS 7" "demo_server t" 0 532480 "[]" "\<lambda>_ _. 0" 9]
      demo_server_facts [of t] room t(3) by (auto simp: q new_KV_def)
  have bnd: "in_bounds st" using demo_server_facts(3) [of t] st(3-5) by (simp add: in_bounds_def mr_size_def)
  have "posted st 0 (read_queue 1) = 0 # []" using st(2) demo_server_facts(5) [of t] by (simp add: q)
  moreover have "\<not> global_lock (queues (new_client demo_filter []) ! read_queue 1)"
    by (simp add: rdpma_get_queue_id_def new_client_def new_queue_def NUM_QUEUES_def)
  ultimately show ?thesis
    using buffered_put_stale [where get = "cceh_Get (\<lambda>_ _. 0)" and ins = "cceh_Insert (\<lambda>_ _. 0) 64" and cpu = 0 and ws = "[]"
        and j = "\<lparr>onesided = False, put_cnt = 0, get_cnt = 0, pool_id = 0, cl = new_client demo_filter []\<rparr>"
        and page = "replicate PAGE_WORDS 8" and st = st and c = 0 and cpu' = 1 and b = 0 and rest = "[]" and key = 9 and x = x
        and old = "replicate PAGE_WORDS 7" and oid = 9 and index = 0 and raddr = 4096]
      waiting_on_new [OF demo_filter_wf] x bnd t(1) st(1)
    by (auto simp: BATCH_SIZE_def NUM_ENTRY_def NUM_QUEUES_def)
qed

end
