(* ===== verification/Spec2Isabelle.thy ===== *)
theory Spec2Isabelle
  imports Wire_Protocol KV_Store Cache_Policies Segment_Lock Circular_Queue Path_Hashing Cuckoo_Hash
    Level_Hashing Static_Hash Extendible_Hash Page_Roundtrip
begin

text \<open>
  Verification of JULEE, a disaggregated page cache: a Linux cleancache client that sends clean
  pages over RDMA, and a user-space key-value server that keeps them.
\<close>

section \<open>The filter of the client never hides a cached page\<close>

text \<open>
  C5: run any sequence of insertions through the key-value layer on top of the linear-probing
  table, with evictions, as long as no counter of the filter saturates. Nothing faults. Then
  send the server's bit array to the client. For every key whose lookup on the server returns
  a page, the client's check answers true, so the client never skips a page the server has.
\<close>

theorem linear_client_never_skips:
  assumes "0 < c" "16 dvd c" "0 < unat numBits" "unat numBits \<le> 2 ^ 31"
    and "INVALID \<notin> fst ` set kvs"
    and "kv_rooms (lp_Insert std) (new_KV (LinearProbingHash c) (Some (new_cbf numHashes numBits))) kvs"
    and "same_shape (new_cbf numHashes numBits) flt"
  shows "\<exists>kv bf bf' flt'.
     kv_run (lp_Insert std) (new_KV (LinearProbingHash c) (Some (new_cbf numHashes numBits))) kvs = Some kv \<and>
     kv_bf kv = Some bf \<and> ToOrdinaryBloomFilter bf = Some bf' \<and>
     bloom_filter_set flt (m_boolbitarray bf') = Some flt' \<and>
     (\<forall>k kv' v. k \<noteq> INVALID \<and> KV_Get (lp_Get std) kv k = Some (kv', v) \<and> v \<noteq> NONE \<longrightarrow>
        bloom_filter_check flt' (bytes_of_u64 k) = Some True)"
proof (rule lp.kv_client_filter)
  show "lp_wf (LinearProbingHash c)" by (rule lp_wf_new) (use assms in simp_all)
  show "lp_keys (LinearProbingHash c) = {#}" by (simp add: LinearProbingHash_def)
  show "accepts (\<lambda>_ _. True) (lp_Insert std) (LinearProbingHash c) kvs" by (rule accepts_True)
qed (use assms in simp_all)

lemma linear_client_never_skips_witness:
  "\<exists>kv bf bf' flt'.
     kv_run (lp_Insert (\<lambda>_ _. 21)) (new_KV (LinearProbingHash 32) (Some (new_cbf 1 4))) [(5, 4096)] = Some kv \<and>
     kv_bf kv = Some bf \<and> ToOrdinaryBloomFilter bf = Some bf' \<and>
     bloom_filter_set \<lparr>bitmap_size = 4, bitmap_size_in_byte = 8, nr_hash = 1, bitmap = [0]\<rparr>
       (m_boolbitarray bf') = Some flt' \<and>
     (\<forall>k kv' v. k \<noteq> INVALID \<and> KV_Get (lp_Get (\<lambda>_ _. 21)) kv k = Some (kv', v) \<and> v \<noteq> NONE \<longrightarrow>
        bloom_filter_check flt' (bytes_of_u64 k) = Some True)"
proof (rule linear_client_never_skips)
  show "kv_rooms (lp_Insert (\<lambda>_ _. 21)) (new_KV (LinearProbingHash 32) (Some (new_cbf 1 4))) [(5, 4096)]"
    by code_simp
qed (simp_all add: INVALID_def same_shape_def new_cbf_def BITS_TO_LONGS_unat)

text \<open>C6: the same for the cuckoo-probing table, whose displacements move keys between clusters.\<close>

theorem cuckoo_client_never_skips:
  assumes "0 < c" "16 dvd c" "0 < unat numBits" "unat numBits \<le> 2 ^ 31"
    and "INVALID \<notin> fst ` set kvs"
    and "kv_rooms (cp_Insert std) (new_KV (CuckooProbingHash c) (Some (new_cbf numHashes numBits))) kvs"
    and "same_shape (new_cbf numHashes numBits) flt"
  shows "\<exists>kv bf bf' flt'.
     kv_run (cp_Insert std) (new_KV (CuckooProbingHash c) (Some (new_cbf numHashes numBits))) kvs = Some kv \<and>
     kv_bf kv = Some bf \<and> ToOrdinaryBloomFilter bf = Some bf' \<and>
     bloom_filter_set flt (m_boolbitarray bf') = Some flt' \<and>
     (\<forall>k kv' v. k \<noteq> INVALID \<and> KV_Get (cp_Get std) kv k = Some (kv', v) \<and> v \<noteq> NONE \<longrightarrow>
        bloom_filter_check flt' (bytes_of_u64 k) = Some True)"
proof (rule cp.kv_client_filter)
  show "cp_wf (CuckooProbingHash c)" by (rule cp_wf_new) (use assms in simp_all)
  show "cp_keys (CuckooProbingHash c) = {#}" by (simp add: CuckooProbingHash_def)
  show "accepts (\<lambda>_ _. True) (cp_Insert std) (CuckooProbingHash c) kvs" by (rule accepts_True)
qed (use assms in simp_all)

lemma cuckoo_client_never_skips_witness:
  "\<exists>kv bf bf' flt'.
     kv_run (cp_Insert (\<lambda>_ _. 21)) (new_KV (CuckooProbingHash 32) (Some (new_cbf 1 4))) [(5, 4096)] = Some kv \<and>
     kv_bf kv = Some bf \<and> ToOrdinaryBloomFilter bf = Some bf' \<and>
     bloom_filter_set \<lparr>bitmap_size = 4, bitmap_size_in_byte = 8, nr_hash = 1, bitmap = [0]\<rparr>
       (m_boolbitarray bf') = Some flt' \<and>
     (\<forall>k kv' v. k \<noteq> INVALID \<and> KV_Get (cp_Get (\<lambda>_ _. 21)) kv k = Some (kv', v) \<and> v \<noteq> NONE \<longrightarrow>
        bloom_filter_check flt' (bytes_of_u64 k) = Some True)"
proof (rule cuckoo_client_never_skips)
  show "kv_rooms (cp_Insert (\<lambda>_ _. 21)) (new_KV (CuckooProbingHash 32) (Some (new_cbf 1 4))) [(5, 4096)]"
    by code_simp
qed (simp_all add: INVALID_def same_shape_def new_cbf_def BITS_TO_LONGS_unat)

text \<open>
  C8: the same for the \<^verbatim>\<open>CCEH\<close> table of the default build, as long as no hash value occurs in the
  sequence more often than a probe window has slots.
\<close>

theorem cceh_client_never_skips:
  assumes "CCEH c = Some t" "2 * kNumSlot \<le> c" "c < 2 ^ 64" "0 < unat numBits" "unat numBits \<le> 2 ^ 31"
    and "INVALID \<notin> fst ` set kvs"
    and "\<forall>k\<in>fst ` set kvs. length (filter (\<lambda>k'. h std k' = h std k) (map fst kvs)) \<le> window"
    and "kv_rooms (cceh_Insert std 64) (new_KV t (Some (new_cbf numHashes numBits))) kvs"
    and "same_shape (new_cbf numHashes numBits) flt"
  shows "\<exists>kv bf bf' flt'.
     kv_run (cceh_Insert std 64) (new_KV t (Some (new_cbf numHashes numBits))) kvs = Some kv \<and>
     kv_bf kv = Some bf \<and> ToOrdinaryBloomFilter bf = Some bf' \<and>
     bloom_filter_set flt (m_boolbitarray bf') = Some flt' \<and>
     (\<forall>k kv' v. k \<noteq> INVALID \<and> KV_Get (cceh_Get std) kv k = Some (kv', v) \<and> v \<noteq> NONE \<longrightarrow>
        bloom_filter_check flt' (bytes_of_u64 k) = Some True)"
proof (rule ct.kv_client_filter)
  note new = CCEH_new [OF assms(1-3)]
  show "cceh_ok std t" "cceh_keys t = {#}" by (fact new)+
  show "accepts (\<lambda>t k. same_hash std t k < window) (cceh_Insert std 64) t kvs"
  proof (rule cceh_accepts [OF new(1) assms(6)])
    fix k assume "k \<in> fst ` set kvs"
    then have "length (filter (\<lambda>k'. h std k' = h std k) (map fst kvs)) \<le> window" using assms(7) by blast
    then show "size (filter_mset (\<lambda>k'. h std k' = h std k) (cceh_keys t + mset (map fst kvs))) \<le> window"
      unfolding new(2) by (metis add_0 mset_filter size_mset)
  qed
qed (use assms in simp_all)

theorem cceh_client_never_skips_witness:
  "\<exists>t kv bf bf' flt'. CCEH 2048 = Some t \<and>
     kv_run (cceh_Insert (\<lambda>_ _. 0) 64) (new_KV t (Some (new_cbf 1 4))) [(5, 4096)] = Some kv \<and>
     kv_bf kv = Some bf \<and> ToOrdinaryBloomFilter bf = Some bf' \<and>
     bloom_filter_set \<lparr>bitmap_size = 4, bitmap_size_in_byte = 8, nr_hash = 1, bitmap = [0]\<rparr>
       (m_boolbitarray bf') = Some flt' \<and>
     (\<forall>k kv' v. k \<noteq> INVALID \<and> KV_Get (cceh_Get (\<lambda>_ _. 0)) kv k = Some (kv', v) \<and> v \<noteq> NONE \<longrightarrow>
        bloom_filter_check flt' (bytes_of_u64 k) = Some True)"
proof -
  obtain t t1 where t: "CCEH 2048 = Some t" "cceh_Insert (\<lambda>_ _. 0) 64 t 5 4096 = Some (t1, INVALID)"
    using CCEH_2048 [of "\<lambda>_ _. 0"] by blast
  have "bf_room (new_cbf 1 4) 5" by code_simp
  then have "kv_rooms (cceh_Insert (\<lambda>_ _. 0) 64) (new_KV t (Some (new_cbf 1 4))) [(5, 4096)]"
    using t(2) by (simp add: new_KV_def split: option.split prod.split)
  then show ?thesis
    using cceh_client_never_skips [of 2048 t 4 "[(5, 4096)]" "\<lambda>_ _. 0" 1
        "\<lparr>bitmap_size = 4, bitmap_size_in_byte = 8, nr_hash = 1, bitmap = [0]\<rparr>"] t(1)
    by (auto simp: kNumSlot_eq window_eq INVALID_def same_shape_def new_cbf_def BITS_TO_LONGS_unat)
qed

end
